(* ===== verification/Prelude.thy ===== *)
theory Prelude
  imports Main "HOL-Library.Word"
begin

text \<open>
  Shared vocabulary of the development: the outcome of a Go call (a value, an error value or a
  panic), 64-bit signed arithmetic, Go slices, and the generic lemmas on outcomes, lists and
  residues the components use.

  \<^item> A Go function that returns \<open>(T, error)\<close> or may panic is a function into
    \<open>'a result\<close>: \<^term>\<open>Inr x\<close> is the normal return, \<^term>\<open>Inl (Err m)\<close> a non-nil
    error and \<^term>\<open>Inl (Panic m)\<close> a panic. \<open>rbind\<close> is the early return: the first failure
    is the outcome of the whole body.
  \<^item> Go's \<open>int\<close> and \<open>int64\<close> are 64-bit two's complement numbers. They are HOL integers, and
    \<open>wrap64\<close> is written out where the code's arithmetic could leave the range.
  \<^item> A Go slice is a list. \<open>index\<close>, \<open>set_index\<close> and \<open>go_slice\<close> are \<open>s[i]\<close>, \<open>s[i] = v\<close> and
    \<open>s[a:b]\<close> with the runtime's bound checks (the capacity of a slice is its length).
\<close>

named_theorems result_simps \<open>case analysis on outcomes of Go calls\<close>
named_theorems slice_simps \<open>in-range behaviour of Go slices\<close>

subsection \<open>Outcomes\<close>

datatype failure = Panic string | Err string

type_synonym 'a result = "failure + 'a"

fun rbind :: "'a result \<Rightarrow> ('a \<Rightarrow> 'b result) \<Rightarrow> 'b result" where
  "rbind (Inl e) f = Inl e"
| "rbind (Inr x) f = f x"

definition require :: "bool \<Rightarrow> failure \<Rightarrow> unit result" where
  "require b e = (if b then Inr () else Inl e)"

definition returns :: "'a result \<Rightarrow> bool" where
  "returns r = (case r of Inl _ \<Rightarrow> False | Inr _ \<Rightarrow> True)"

lemma returns_simps [simp]: "returns (Inr x)" "\<not> returns (Inl e)"
  by (simp_all add: returns_def)

lemma returns_iff: "returns r \<longleftrightarrow> (\<exists>x. r = Inr x)"
  by (cases r) auto

lemma rbind_Inr_iff [result_simps]: "rbind m f = Inr y \<longleftrightarrow> (\<exists>x. m = Inr x \<and> f x = Inr y)"
  by (cases m) auto

lemma rbind_Inl_iff: "rbind m f = Inl e \<longleftrightarrow> m = Inl e \<or> (\<exists>x. m = Inr x \<and> f x = Inl e)"
  by (cases m) auto

lemma rbind_assoc: "rbind (rbind m f) g = rbind m (\<lambda>x. rbind (f x) g)"
  by (cases m) auto

lemma rbind_cong [fundef_cong]:
  "m = m' \<Longrightarrow> (\<And>x. m' = Inr x \<Longrightarrow> f x = f' x) \<Longrightarrow> rbind m f = rbind m' f'"
  by (cases m') auto

lemma require_simps [simp]: "require True e = Inr ()" "require False e = Inl e"
  by (simp_all add: require_def)

lemma require_Inr_iff [result_simps]: "require b e = Inr u \<longleftrightarrow> b"
  by (simp add: require_def)

subsection \<open>64-bit signed integers\<close>

definition wrap64 :: "int \<Rightarrow> int" where
  "wrap64 x = signed_take_bit 63 x"

definition is_int64 :: "int \<Rightarrow> bool" where
  "is_int64 x \<longleftrightarrow> - (2 ^ 63) \<le> x \<and> x < 2 ^ 63"

lemma wrap64_id [simp]: "is_int64 x \<Longrightarrow> wrap64 x = x"
  by (simp add: wrap64_def is_int64_def signed_take_bit_int_eq_self)

lemma is_int64_wrap64 [simp]: "is_int64 (wrap64 x)"
  using signed_take_bit_int_greater_eq_minus_exp [of 63 x]
    signed_take_bit_int_less_exp [of 63 x]
  by (simp add: wrap64_def is_int64_def)

text \<open>The shift \<open>1 << d\<close> on an \<open>int\<close>.\<close>

definition shl1 :: "nat \<Rightarrow> int" where
  "shl1 d = wrap64 (2 ^ d)"

lemma shl1_small [simp]: "d \<le> 62 \<Longrightarrow> shl1 d = 2 ^ d"
proof -
  assume "d \<le> 62"
  then have "(2::int) ^ d \<le> 2 ^ 62"
    by (rule power_increasing) simp
  moreover have "(0::int) \<le> 2 ^ d"
    by simp
  ultimately have "is_int64 (2 ^ d)"
    by (auto simp: is_int64_def intro: order_trans [of _ 0])
  then show ?thesis
    by (simp add: shl1_def)
qed

text \<open>Go's \<open>/\<close> and \<open>%\<close> truncate towards zero. The divisor zero panics.\<close>

definition go_quot :: "int \<Rightarrow> int \<Rightarrow> int" where
  "go_quot a b = sgn a * sgn b * (\<bar>a\<bar> div \<bar>b\<bar>)"

definition go_rem :: "int \<Rightarrow> int \<Rightarrow> int" where
  "go_rem a b = a - b * go_quot a b"

lemma go_rem_eq: "go_rem a b = sgn a * (\<bar>a\<bar> mod \<bar>b\<bar>)"
proof -
  have "a - b * (sgn a * sgn b * (\<bar>a\<bar> div \<bar>b\<bar>)) = sgn a * (\<bar>a\<bar> - \<bar>b\<bar> * (\<bar>a\<bar> div \<bar>b\<bar>))"
    by (simp add: right_diff_distrib abs_sgn [of b] ac_simps) (simp add: abs_sgn sgn_mult_self_eq)
  then show ?thesis
    by (simp add: go_rem_def go_quot_def minus_mult_div_eq_mod)
qed

lemma go_quot_nonneg [simp]: "0 \<le> a \<Longrightarrow> 0 < b \<Longrightarrow> go_quot a b = a div b"
  by (cases "a = 0") (simp_all add: go_quot_def)

lemma go_rem_nonneg [simp]: "0 \<le> a \<Longrightarrow> 0 < b \<Longrightarrow> go_rem a b = a mod b"
  by (simp add: go_rem_def minus_mult_div_eq_mod)

subsection \<open>Slices\<close>

definition index :: "'a list \<Rightarrow> int \<Rightarrow> 'a result" where
  "index xs i =
     (if 0 \<le> i \<and> i < int (length xs) then Inr (xs ! nat i)
      else Inl (Panic ''index out of range''))"

definition set_index :: "'a list \<Rightarrow> int \<Rightarrow> 'a \<Rightarrow> 'a list result" where
  "set_index xs i v =
     (if 0 \<le> i \<and> i < int (length xs) then Inr (xs[nat i := v])
      else Inl (Panic ''index out of range''))"

definition go_slice :: "'a list \<Rightarrow> int \<Rightarrow> int \<Rightarrow> 'a list result" where
  "go_slice xs a b =
     (if 0 \<le> a \<and> a \<le> b \<and> b \<le> int (length xs) then Inr (take (nat (b - a)) (drop (nat a) xs))
      else Inl (Panic ''slice bounds out of range''))"

lemma index_nat [slice_simps]: "n < length xs \<Longrightarrow> index xs (int n) = Inr (xs ! n)"
  by (simp add: index_def)

lemma index_in [slice_simps]: "0 \<le> i \<Longrightarrow> i < int (length xs) \<Longrightarrow> index xs i = Inr (xs ! nat i)"
  by (simp add: index_def)

lemma set_index_in [slice_simps]:
  "0 \<le> i \<Longrightarrow> i < int (length xs) \<Longrightarrow> set_index xs i v = Inr (xs[nat i := v])"
  by (simp add: set_index_def)

lemma slice_in [slice_simps]:
  "0 \<le> a \<Longrightarrow> a \<le> b \<Longrightarrow> b \<le> int (length xs) \<Longrightarrow>
   go_slice xs a b = Inr (take (nat (b - a)) (drop (nat a) xs))"
  by (simp add: go_slice_def)

text \<open>A \<open>for\<close> loop over a slice whose body may fail.\<close>

fun mapM :: "('a \<Rightarrow> 'b result) \<Rightarrow> 'a list \<Rightarrow> 'b list result" where
  "mapM f [] = Inr []"
| "mapM f (x # xs) = rbind (f x) (\<lambda>y. rbind (mapM f xs) (\<lambda>ys. Inr (y # ys)))"

lemma mapM_total: "(\<And>x. x \<in> set xs \<Longrightarrow> f x = Inr (g x)) \<Longrightarrow> mapM f xs = Inr (map g xs)"
  by (induction xs) auto

fun foldM :: "('s \<Rightarrow> 'a \<Rightarrow> 's result) \<Rightarrow> 's \<Rightarrow> 'a list \<Rightarrow> 's result" where
  "foldM f s [] = Inr s"
| "foldM f s (x # xs) = rbind (f s x) (\<lambda>s'. foldM f s' xs)"

lemma foldM_invariant:
  "foldM f s xs = Inr t \<Longrightarrow> P s \<Longrightarrow> (\<And>s x s'. P s \<Longrightarrow> f s x = Inr s' \<Longrightarrow> P s') \<Longrightarrow> P t"
  by (induction xs arbitrary: s) (auto simp: rbind_Inr_iff)

lemma foldM_append: "foldM f s (xs @ ys) = rbind (foldM f s xs) (\<lambda>s. foldM f s ys)"
  by (induction xs arbitrary: s) (simp_all add: rbind_assoc)

lemma foldM_cong: "(\<And>s x. x \<in> set xs \<Longrightarrow> f s x = g s x) \<Longrightarrow> foldM f s xs = foldM g s xs"
proof (induction xs arbitrary: s)
  case (Cons x xs)
  then show ?case by (cases "g s x") simp_all
qed simp

text \<open>The rule for a counting loop: an invariant the body keeps holds at the end, and the loop returns.\<close>

lemma for_range:
  assumes "P 0 s" "\<And>i s. i < n \<Longrightarrow> P i s \<Longrightarrow> \<exists>s'. f s (a + int i) = Inr s' \<and> P (Suc i) s'" "b = a + int n - 1"
  shows "\<exists>s'. foldM f s [a..b] = Inr s' \<and> P n s'"
proof -
  have "\<exists>s'. foldM f s [a..a + int m - 1] = Inr s' \<and> P m s'" if "m \<le> n" for m
    using that
  proof (induction m)
    case (Suc m)
    then obtain t where t: "foldM f s [a..a + int m - 1] = Inr t" "P m t" by auto
    then obtain t' where "f t (a + int m) = Inr t'" "P (Suc m) t'" using assms(2) [of m t] Suc.prems by auto
    moreover have "[a..a + int (Suc m) - 1] = [a..a + int m - 1] @ [a + int m]" by (simp add: upto_rec2)
    ultimately show ?case using t by (simp add: foldM_append)
  qed (simp add: assms(1))
  then show ?thesis using assms(3) by blast
qed

subsection \<open>Lists and residues\<close>

lemma nth_append_padding:
  "i < length xs + n \<Longrightarrow> (xs @ replicate n v) ! i = (if i < length xs then xs ! i else v)"
  by (simp add: nth_append)

lemma nat_mod_int: "0 < n \<Longrightarrow> nat (a mod int n) < n"
  by (simp add: nat_less_iff)

end
