(* ===== verification/Utils.thy ===== *)
theory Utils
  imports Prelude
begin

unbundle bit_operations_syntax

text \<open>
  The integer and slice helpers of \<open>src/prover/utils/utils.go\<close>. The bit tricks
  (\<open>IsPowerOfTwo\<close>, \<open>NextPowerOfTwo\<close>) are kept as bit operations on 64-bit integers and related to
  powers of two by lemmas; \<open>GCD\<close>, whose subtraction loop does not end on every input, is a
  partial function.
\<close>

subsection \<open>Operations\<close>

definition IsPowerOfTwo :: "int \<Rightarrow> bool" where
  "IsPowerOfTwo n \<longleftrightarrow> n AND wrap64 (n - 1) = 0 \<and> 0 < n"

definition Abs_int :: "int \<Rightarrow> int" where
  "Abs_int a = (let mask = drop_bit 63 a in wrap64 ((a XOR mask) - mask))"

definition DivCeil :: "int \<Rightarrow> int \<Rightarrow> int result" where
  "DivCeil a b =
     (if b = 0 then Inl (Panic ''integer divide by zero'')
      else let res = wrap64 (go_quot a b)
           in if wrap64 (b * res) < a then Inr (wrap64 (res + 1)) else Inr res)"

definition DivExact :: "int \<Rightarrow> int \<Rightarrow> int result" where
  "DivExact a b =
     (if b = 0 then Inl (Panic ''integer divide by zero'')
      else let res = wrap64 (go_quot a b)
           in if wrap64 (res * b) \<noteq> a then Inl (Panic ''inexact division'') else Inr res)"

definition NextPowerOfTwo :: "int \<Rightarrow> int result" where
  "NextPowerOfTwo inp =
     (if inp < 0 \<or> inp > 2 ^ 62 then Inl (Panic ''input out of range'')
      else let v = wrap64 (inp - 1);
               v = v OR drop_bit 1 v;
               v = v OR drop_bit 2 v;
               v = v OR drop_bit 4 v;
               v = v OR drop_bit 8 v;
               v = v OR drop_bit 16 v;
               v = v OR drop_bit 32 v
           in Inr (wrap64 (v + 1)))"

text \<open>
  \<open>PositiveMod\<close> panics on a zero modulus; every caller of the model passes the length of a vector
  or of a circle, which its constructors keep positive.
\<close>

definition PositiveMod :: "int \<Rightarrow> int \<Rightarrow> int" where
  "PositiveMod a n = (let res = go_rem a n in if res < 0 then res + n else res)"

definition Join :: "'a list list \<Rightarrow> 'a list" where
  "Join ts = foldl (\<lambda>res t. res @ t) [] ts"

fun Log2Floor_loop :: "int \<Rightarrow> int \<Rightarrow> int" where
  "Log2Floor_loop i res = (if 1 < i then Log2Floor_loop (i div 2) (res + 1) else res)"

declare Log2Floor_loop.simps [simp del]

definition Log2Floor :: "int \<Rightarrow> int" where
  "Log2Floor a = Log2Floor_loop a 0"

definition Log2Ceil :: "int \<Rightarrow> int" where
  "Log2Ceil a =
     (let floor = Log2Floor a in if a \<noteq> shl1 (nat floor) then floor + 1 else floor)"

partial_function (option) GCD_int :: "int \<Rightarrow> int \<Rightarrow> int option" where
  "GCD_int a b =
     (if a = b then Some a
      else if b < a then GCD_int (wrap64 (a - b)) b
      else GCD_int a (wrap64 (b - a)))"

definition RightPadWith :: "'a list \<Rightarrow> int \<Rightarrow> 'a \<Rightarrow> 'a list result" where
  "RightPadWith s n padWith =
     (if n < int (length s) then Inl (Panic ''input slice longer than desired padded length'')
      else Inr (s @ replicate (nat (n - int (length s))) padWith))"

fun RepeatSlice_loop :: "'a list \<Rightarrow> nat \<Rightarrow> 'a list \<Rightarrow> 'a list" where
  "RepeatSlice_loop s 0 res = res"
| "RepeatSlice_loop s (Suc n) res = RepeatSlice_loop s n (res @ s)"

definition RepeatSlice :: "'a list \<Rightarrow> int \<Rightarrow> 'a list result" where
  "RepeatSlice s n =
     (if n * int (length s) < 0 then Inl (Panic ''makeslice: cap out of range'')
      else Inr (RepeatSlice_loop s (nat n) []))"

function SpliceExact_loop :: "'a list \<Rightarrow> nat \<Rightarrow> 'a list list" where
  "SpliceExact_loop xs n =
     (if xs = [] \<or> n = 0 then [] else take n xs # SpliceExact_loop (drop n xs) n)"
  by pat_completeness auto
termination
  by (relation "measure (\<lambda>(xs, n). length xs)") auto

declare SpliceExact_loop.simps [simp del]

definition SpliceExact :: "'a list \<Rightarrow> nat \<Rightarrow> 'a list list result" where
  "SpliceExact xs n =
     (if n = 0 then Inl (Panic ''integer divide by zero'')
      else if length xs mod n \<noteq> 0 then Inl (Panic ''slice length must be a multiple of n'')
      else Inr (SpliceExact_loop xs n))"

definition NextMultipleOf :: "int \<Rightarrow> int \<Rightarrow> int result" where
  "NextMultipleOf n multiple =
     (if multiple = 0 then Inl (Panic ''integer divide by zero'')
      else Inr (wrap64 (multiple * go_quot (wrap64 (n + multiple - 1)) multiple)))"

subsection \<open>Positive residues\<close>

lemma PositiveMod_mod [simp]: "0 < n \<Longrightarrow> PositiveMod a n = a mod n"
proof (cases "0 \<le> a")
  case True
  assume "0 < n"
  with True show ?thesis
    by (simp add: PositiveMod_def Let_def not_less)
next
  case False
  assume n: "0 < n"
  have r: "go_rem a n = - ((- a) mod n)"
    using False n by (simp add: go_rem_eq)
  show ?thesis
  proof (cases "(- a) mod n = 0")
    case True
    then have "a mod n = 0"
      by (simp flip: dvd_eq_mod_eq_0)
    with True r show ?thesis by (simp add: PositiveMod_def)
  next
    case ne: False
    have "0 < (- a) mod n"
      using ne n by (simp add: order_less_le)
    moreover have "a mod n = n - (- a) mod n"
      using ne by (simp add: zmod_zminus1_eq_if [of "- a" n, simplified])
    ultimately show ?thesis
      using r by (simp add: PositiveMod_def)
  qed
qed

lemma PositiveMod_range: "0 < n \<Longrightarrow> 0 \<le> PositiveMod a n \<and> PositiveMod a n < n"
  by simp

subsection \<open>Powers of two\<close>

lemma and_minus_one_pow2: "0 < n \<Longrightarrow> n AND (n - 1) = 0 \<longleftrightarrow> (\<exists>k. n = 2 ^ k)" for n :: int
proof (induction n rule: int_bit_induct)
  case zero
  then show ?case by simp
next
  case minus
  then show ?case by simp
next
  case (even m)
  from even.prems have m: "0 < m" by simp
  have "m * 2 AND (m * 2 - 1) = 2 * (m AND (m - 1))"
  proof -
    have "(m * 2 - 1) div 2 = m - 1" by presburger
    then show ?thesis
      by (subst and_int_rec) simp
  qed
  then have "m * 2 AND (m * 2 - 1) = 0 \<longleftrightarrow> (\<exists>k. m = 2 ^ k)"
    using even.IH m by simp
  also have "\<dots> \<longleftrightarrow> (\<exists>k. m * 2 = 2 ^ k)"
  proof
    assume "\<exists>k. m = 2 ^ k"
    then obtain k where "m = 2 ^ k" ..
    then have "m * 2 = 2 ^ Suc k" by simp
    then show "\<exists>k. m * 2 = 2 ^ k" ..
  next
    assume "\<exists>k. m * 2 = 2 ^ k"
    then obtain k where k: "m * 2 = 2 ^ k" ..
    with m have "k \<noteq> 0" by (cases k) auto
    with k show "\<exists>k. m = 2 ^ k" by (cases k) auto
  qed
  finally show ?case .
next
  case (odd m)
  show ?case
  proof (cases "m = 0")
    case True
    then show ?thesis by (auto intro: exI [of _ 0])
  next
    case False
    with odd.prems have m: "0 < m" by simp
    have "1 + m * 2 AND (1 + m * 2 - 1) = 2 * m"
      by (simp add: and_int_rec [of "1 + m * 2"])
    moreover have "\<nexists>k. 1 + m * 2 = 2 ^ k"
    proof
      assume "\<exists>k. 1 + m * 2 = 2 ^ k"
      then obtain k where k: "1 + m * 2 = 2 ^ k" ..
      then have "odd ((2::int) ^ k)" by (simp flip: k)
      with k m show False by simp
    qed
    ultimately show ?thesis using m by simp
  qed
qed

lemma IsPowerOfTwo_iff: "is_int64 n \<Longrightarrow> IsPowerOfTwo n \<longleftrightarrow> (\<exists>k. n = 2 ^ k)"
proof -
  assume r: "is_int64 n"
  show ?thesis
  proof (cases "0 < n")
    case True
    with r have "is_int64 (n - 1)" by (simp add: is_int64_def)
    with True show ?thesis
      by (simp add: IsPowerOfTwo_def and_minus_one_pow2)
  next
    case False
    then show ?thesis by (auto simp: IsPowerOfTwo_def)
  qed
qed

lemma Log2Floor_loop_pow2: "Log2Floor_loop (2 ^ k) r = r + int k"
proof (induction k arbitrary: r)
  case 0
  show ?case by (subst Log2Floor_loop.simps) simp
next
  case (Suc k)
  have "(1::int) < 2 ^ Suc k"
    by (rule one_less_power) simp_all
  then have "Log2Floor_loop (2 ^ Suc k) r = Log2Floor_loop (2 ^ k) (r + 1)"
    by (subst Log2Floor_loop.simps) simp
  with Suc show ?case by simp
qed

lemma Log2Ceil_pow2: "k \<le> 62 \<Longrightarrow> Log2Ceil (2 ^ k) = int k"
  by (simp add: Log2Ceil_def Log2Floor_def Log2Floor_loop_pow2 Let_def)

lemma Log2Floor_loop_bounds:
  "1 \<le> i \<Longrightarrow> 0 \<le> res \<Longrightarrow>
   \<exists>k. Log2Floor_loop i res = res + int k \<and> 2 ^ k \<le> i \<and> i < 2 ^ Suc k"
proof (induction i res rule: Log2Floor_loop.induct)
  case (1 i res)
  show ?case
  proof (cases "1 < i")
    case True
    then have "1 \<le> i div 2" by linarith
    with True "1.prems" obtain k where k: "Log2Floor_loop (i div 2) (res + 1) = res + 1 + int k"
      "2 ^ k \<le> i div 2" "i div 2 < 2 ^ Suc k"
      using "1.IH" by auto
    then have "2 ^ Suc k \<le> i" "i < 2 ^ Suc (Suc k)" by auto
    moreover have "Log2Floor_loop i res = res + int (Suc k)"
      using k True by (simp add: Log2Floor_loop.simps [of i])
    ultimately show ?thesis by blast
  next
    case False
    with "1.prems" show ?thesis
      by (auto simp: Log2Floor_loop.simps [of 1] intro!: exI [of _ 0])
  qed
qed


text \<open>The smearing steps of \<open>NextPowerOfTwo\<close> copy every set bit to all lower positions.\<close>

lemma smear_step:
  fixes v w :: int
  assumes "\<And>n. bit v n \<longleftrightarrow> (\<exists>j < s. bit w (n + j))"
    and t: "t = 2 * s"
  shows "bit (v OR drop_bit s v) n \<longleftrightarrow> (\<exists>j<t. bit w (n + j))"
proof -
  have "bit (v OR drop_bit s v) n \<longleftrightarrow> (\<exists>j < s. bit w (n + j)) \<or> (\<exists>j < s. bit w (n + s + j))"
    using assms by (simp add: bit_or_iff bit_drop_bit_eq add.commute)
  also have "\<dots> \<longleftrightarrow> (\<exists>j<t. bit w (n + j))"
  proof
    assume "(\<exists>j < s. bit w (n + j)) \<or> (\<exists>j < s. bit w (n + s + j))"
    then show "\<exists>j<t. bit w (n + j)"
    proof
      assume "\<exists>j < s. bit w (n + s + j)"
      then obtain j where "j < s" "bit w (n + (s + j))" by (auto simp: add.assoc)
      then show ?thesis unfolding t by (intro exI [of _ "s + j"]) simp
    next
      assume "\<exists>j < s. bit w (n + j)"
      then obtain j where "j < s" "bit w (n + j)" by blast
      then show ?thesis unfolding t by (intro exI [of _ j]) simp
    qed
  next
    assume "\<exists>j<t. bit w (n + j)"
    then obtain j where j: "j < 2 * s" "bit w (n + j)" unfolding t by blast
    show "(\<exists>j < s. bit w (n + j)) \<or> (\<exists>j < s. bit w (n + s + j))"
    proof (cases "j < s")
      case False
      with j have "j - s < s" "bit w (n + s + (j - s))" by auto
      then show ?thesis by blast
    qed (use j in blast)
  qed
  finally show ?thesis .
qed

definition smear64 :: "int \<Rightarrow> int" where
  "smear64 v =
     (let v = v OR drop_bit 1 v; v = v OR drop_bit 2 v; v = v OR drop_bit 4 v;
          v = v OR drop_bit 8 v; v = v OR drop_bit 16 v
      in v OR drop_bit 32 v)"

lemma bit_smear64: "bit (smear64 w) n \<longleftrightarrow> (\<exists>j<64. bit w (n + j))"
proof -
  define v1 where "v1 = w OR drop_bit 1 w"
  define v2 where "v2 = v1 OR drop_bit 2 v1"
  define v4 where "v4 = v2 OR drop_bit 4 v2"
  define v8 where "v8 = v4 OR drop_bit 8 v4"
  define v16 where "v16 = v8 OR drop_bit 16 v8"
  define v32 where "v32 = v16 OR drop_bit 32 v16"
  have "bit w n \<longleftrightarrow> (\<exists>j<1. bit w (n + j))" for n by auto
  then have "bit v1 n \<longleftrightarrow> (\<exists>j<2. bit w (n + j))" for n
    unfolding v1_def by (rule smear_step) simp
  then have "bit v2 n \<longleftrightarrow> (\<exists>j<4. bit w (n + j))" for n
    unfolding v2_def by (rule smear_step) simp
  then have "bit v4 n \<longleftrightarrow> (\<exists>j<8. bit w (n + j))" for n
    unfolding v4_def by (rule smear_step) simp
  then have "bit v8 n \<longleftrightarrow> (\<exists>j<16. bit w (n + j))" for n
    unfolding v8_def by (rule smear_step) simp
  then have "bit v16 n \<longleftrightarrow> (\<exists>j<32. bit w (n + j))" for n
    unfolding v16_def by (rule smear_step) simp
  then have "bit v32 n \<longleftrightarrow> (\<exists>j<64. bit w (n + j))" for n
    unfolding v32_def by (rule smear_step) simp
  moreover have "smear64 w = v32"
    by (simp only: smear64_def Let_def v32_def v16_def v8_def v4_def v2_def v1_def)
  ultimately show ?thesis by simp
qed

lemma not_bit_above: "0 \<le> w \<Longrightarrow> w < 2 ^ k \<Longrightarrow> k \<le> m \<Longrightarrow> \<not> bit w m" for w :: int
  by (metis bit_take_bit_iff leD take_bit_int_eq_self)

lemma bit_top: "2 ^ k \<le> w \<Longrightarrow> w < 2 ^ Suc k \<Longrightarrow> bit w k" for w :: int
proof -
  assume "2 ^ k \<le> w" "w < 2 ^ Suc k"
  then have "w div 2 ^ k = 1"
    by (intro int_div_pos_eq [where r = "w - 2 ^ k"]) auto
  then show ?thesis by (simp add: bit_iff_odd)
qed

lemma smear64_mask:
  assumes "2 ^ k \<le> w" "w < 2 ^ Suc k" "k < 63"
  shows "smear64 w = mask (Suc k)"
proof (rule bit_eqI)
  fix n
  have w: "0 \<le> w" using assms(1) by (rule order_trans [rotated]) simp
  show "bit (smear64 w) n = bit (mask (Suc k) :: int) n"
  proof (cases "n \<le> k")
    case True
    then have "bit w (n + (k - n))" using bit_top [OF assms(1,2)] by simp
    moreover have "k - n < 64" using assms(3) by simp
    ultimately show ?thesis using True by (auto simp: bit_smear64 bit_mask_iff)
  next
    case False
    then have "\<not> bit w (n + j)" for j
      using not_bit_above [OF w assms(2)] by simp
    with False show ?thesis by (simp add: bit_smear64 bit_mask_iff)
  qed
qed

lemma log2_bracket: "1 \<le> (w::int) \<Longrightarrow> \<exists>k. 2 ^ k \<le> w \<and> w < 2 ^ Suc k"
  using Log2Floor_loop_bounds [of w 0] by auto

lemma pow2_le_cancel: "(2::int) ^ a \<le> 2 ^ b \<longleftrightarrow> a \<le> b"
  by (simp add: power_increasing_iff)

lemma NextPowerOfTwo_smear:
  "0 \<le> n \<Longrightarrow> n \<le> 2 ^ 62 \<Longrightarrow> NextPowerOfTwo n = Inr (wrap64 (smear64 (n - 1) + 1))"
  by (simp add: NextPowerOfTwo_def smear64_def Let_def is_int64_def)

lemma NextPowerOfTwo_least:
  assumes "1 \<le> n" "n \<le> 2 ^ 62"
  shows "\<exists>k. NextPowerOfTwo n = Inr (2 ^ k) \<and> n \<le> 2 ^ k \<and> (\<forall>j. n \<le> 2 ^ j \<longrightarrow> k \<le> j)"
proof (cases "n = 1")
  case True
  have "smear64 0 = 0" by (simp add: smear64_def)
  then have "NextPowerOfTwo 1 = Inr (2 ^ 0)"
    by (simp add: NextPowerOfTwo_smear is_int64_def)
  with True show ?thesis by (intro exI [of _ 0]) simp
next
  case False
  with assms obtain k where k: "2 ^ k \<le> n - 1" "n - 1 < 2 ^ Suc k"
    using log2_bracket [of "n - 1"] by auto
  have k62: "Suc k \<le> 62"
  proof (rule ccontr)
    assume "\<not> Suc k \<le> 62"
    then have "(2::int) ^ 62 \<le> 2 ^ k" by (simp add: pow2_le_cancel del: power_numeral)
    with k(1) assms(2) show False by linarith
  qed
  then have "smear64 (n - 1) + 1 = 2 ^ Suc k"
    using smear64_mask [OF k] by (simp add: mask_eq_exp_minus_1)
  then have "NextPowerOfTwo n = Inr (wrap64 (2 ^ Suc k))"
    using assms by (simp add: NextPowerOfTwo_smear)
  also have "wrap64 (2 ^ Suc k) = 2 ^ Suc k"
    using shl1_small [OF k62] by (simp add: shl1_def)
  finally have "NextPowerOfTwo n = Inr (2 ^ Suc k)" .
  moreover have "n \<le> 2 ^ Suc k" using k(2) by linarith
  moreover have "Suc k \<le> j" if "n \<le> 2 ^ j" for j
  proof -
    from that k(1) have "(2::int) ^ k < 2 ^ j" by linarith
    then show ?thesis by (simp add: power_strict_increasing_iff)
  qed
  ultimately show ?thesis by blast
qed

lemma NextPowerOfTwo_out_of_range:
  "n < 0 \<or> 2 ^ 62 < n \<Longrightarrow> NextPowerOfTwo n = Inl (Panic ''input out of range'')"
  by (auto simp: NextPowerOfTwo_def)

subsection \<open>The subtraction loop of GCD\<close>

lemma GCD_int_terminates:
  assumes "0 < a" "0 < b" "is_int64 a" "is_int64 b"
  shows "GCD_int a b = Some (gcd a b)"
  using assms
proof (induction "nat (a + b)" arbitrary: a b rule: less_induct)
  case less
  consider "a = b" | "b < a" | "a < b" by linarith
  then show ?case
  proof cases
    case 1
    with less.prems show ?thesis by (simp add: GCD_int.simps)
  next
    case 2
    with less.prems have r: "is_int64 (a - b)" by (simp add: is_int64_def)
    have "GCD_int a b = GCD_int (a - b) b"
      using 2 r by (subst GCD_int.simps) simp
    also have "\<dots> = Some (gcd (a - b) b)"
      using less.prems 2 r by (intro less.hyps) auto
    finally show ?thesis by (simp add: gcd_diff1)
  next
    case 3
    with less.prems have r: "is_int64 (b - a)" by (simp add: is_int64_def)
    have "GCD_int a b = GCD_int a (b - a)"
      using 3 r by (subst GCD_int.simps) simp
    also have "\<dots> = Some (gcd a (b - a))"
      using less.prems 3 r by (intro less.hyps) auto
    finally show ?thesis by (metis gcd.commute gcd_diff1)
  qed
qed

lemma GCD_int_diverges: "0 < b \<Longrightarrow> is_int64 b \<Longrightarrow> GCD_int 0 b = None"
proof -
  assume b: "0 < b" "is_int64 b"
  have "\<not> (a = 0 \<and> 0 < b' \<and> is_int64 b')" if ret: "GCD_int a b' = Some r" for a b' r
  proof (rule GCD_int.raw_induct [where P = "\<lambda>a b r. \<not> (a = 0 \<and> 0 < b \<and> is_int64 b)", OF _ ret])
    fix f a b r
    assume IH: "\<And>a b r. f a b = Some r \<Longrightarrow> \<not> (a = 0 \<and> 0 < b \<and> is_int64 b)"
      and eq: "(if a = b then Some a else if b < a then f (wrap64 (a - b)) b
                else f a (wrap64 (b - a))) = Some r"
    show "\<not> (a = 0 \<and> 0 < b \<and> is_int64 b)"
    proof
      assume ab: "a = 0 \<and> 0 < b \<and> is_int64 b"
      with eq have "f 0 b = Some r" by simp
      with IH ab show False by blast
    qed
  qed
  with b show ?thesis by (cases "GCD_int 0 b") auto
qed

subsection \<open>Chunks\<close>

lemma SpliceExact_loop_Nil [simp]: "SpliceExact_loop [] n = []"
  by (simp add: SpliceExact_loop.simps)

lemma SpliceExact_loop_concat: "0 < n \<Longrightarrow> concat (SpliceExact_loop xs n) = xs"
proof (induction xs n rule: SpliceExact_loop.induct)
  case (1 xs n)
  then show ?case by (cases "xs = []") (simp_all add: SpliceExact_loop.simps [of xs])
qed

lemma SpliceExact_loop_length:
  "0 < n \<Longrightarrow> n dvd length xs \<Longrightarrow> x \<in> set (SpliceExact_loop xs n) \<Longrightarrow> length x = n"
proof (induction xs n rule: SpliceExact_loop.induct)
  case (1 xs n)
  show ?case
  proof (cases "xs = []")
    case False
    with "1.prems" have "n \<le> length xs" by (auto dest: dvd_imp_le)
    with 1 False show ?thesis
      by (auto simp: SpliceExact_loop.simps [of xs] dvd_minus_self)
  qed (use 1 in simp)
qed

lemma Join_concat: "Join ts = concat ts"
proof -
  have "foldl (\<lambda>res t. res @ t) acc ts = acc @ concat ts" for acc
    by (induction ts arbitrary: acc) auto
  then show ?thesis by (simp add: Join_def)
qed

lemma RepeatSlice_loop_length: "length (RepeatSlice_loop s n res) = length res + n * length s"
  by (induction n arbitrary: res) auto

end
