(* ===== verification/Koala.thy ===== *)
theory Koala
  imports Utils "HOL-Library.List_Lexorder"
begin

unbundle bit_operations_syntax

text \<open>
  Field elements, octuplets and their byte formats: \<open>src/prover/utils/types/field_koalaoctuplet.go\<close>
  and \<open>common.go\<close>.

  The field itself is gnark-crypto's \<open>koalabear.Element\<close>, which the repository only imports. Its
  ring structure and the order of \<open>Element.Cmp\<close> are the type classes of the type variable
  \<open>'f\<close>; its other operations are the fields of the record \<open>'f koalabear\<close>, a parameter of every
  definition that uses them. \<open>koala_ok\<close> collects their documented behaviour: an element has one
  canonical big-endian encoding of four bytes, a value below the modulus is canonical, and zero and
  minus one are the least and the greatest element.
\<close>

subsection \<open>The imported field\<close>

type_synonym byte = "8 word"

datatype 'f octuplet = Octuplet 'f 'f 'f 'f 'f 'f 'f 'f

record 'f koalabear =
  CompressPoseidon2 :: "'f octuplet \<Rightarrow> 'f octuplet \<Rightarrow> 'f octuplet"
  Bytes :: "'f \<Rightarrow> byte list"
  SetBytesCanonical :: "byte list \<Rightarrow> 'f option"

definition koala_ok :: "('f::{comm_ring_1, linorder}) koalabear \<Rightarrow> bool" where
  "koala_ok kb \<longleftrightarrow>
     (\<forall>x. length (Bytes kb x) = 4) \<and>
     (\<forall>x. SetBytesCanonical kb (Bytes kb x) = Some x) \<and>
     (\<forall>b x. SetBytesCanonical kb b = Some x \<longrightarrow> Bytes kb x = b) \<and>
     (\<forall>c d. SetBytesCanonical kb [0, 0, c, d] \<noteq> None) \<and>
     (\<forall>x::'f. 0 \<le> x \<and> x \<le> - 1)"

definition negativeOne :: "'f::comm_ring_1" where
  "negativeOne = - 1"

subsection \<open>Octuplets\<close>

primrec oct_list :: "'f octuplet \<Rightarrow> 'f list" where
  "oct_list (Octuplet a b c d e f g h) = [a, b, c, d, e, f, g, h]"

text \<open>\<open>var buf [8]Element; copy(buf[:], xs)\<close>\<close>

definition arr8 :: "'f::zero list \<Rightarrow> 'f octuplet" where
  "arr8 xs =
     (let ys = xs @ replicate 8 0
      in Octuplet (ys ! 0) (ys ! 1) (ys ! 2) (ys ! 3) (ys ! 4) (ys ! 5) (ys ! 6) (ys ! 7))"

lemma length_oct_list [simp]: "length (oct_list e) = 8"
  by (cases e) simp

lemma oct_list_inject [simp]: "oct_list a = oct_list b \<longleftrightarrow> a = b"
  by (cases a; cases b) simp

lemma arr8_oct_list [simp]: "arr8 (oct_list e) = e"
  by (cases e) (simp add: arr8_def Let_def)

lemma arr8_oct_list_append [simp]: "arr8 (oct_list e @ xs) = e"
  by (cases e) (simp add: arr8_def Let_def)

lemma oct_list_arr8: "length xs = 8 \<Longrightarrow> oct_list (arr8 xs) = xs"
proof -
  assume l: "length xs = 8"
  have "oct_list (arr8 xs) = map (\<lambda>i. xs ! i) [0, 1, 2, 3, 4, 5, 6, 7]"
    using l by (simp add: arr8_def Let_def nth_append)
  also have "[0, 1, 2, 3, 4, 5, 6, 7] = [0..<length xs]"
    using l by (simp add: upt_rec)
  finally show ?thesis by (simp add: map_nth)
qed

instantiation octuplet :: (zero) zero
begin

definition zero_octuplet :: "'a octuplet" where
  "0 = Octuplet 0 0 0 0 0 0 0 0"

instance ..

end

lemma oct_list_zero [simp]: "oct_list 0 = replicate 8 0"
  by (simp add: zero_octuplet_def numeral_eq_Suc)

instantiation octuplet :: (linorder) linorder
begin

definition less_eq_octuplet :: "'a octuplet \<Rightarrow> 'a octuplet \<Rightarrow> bool" where
  "a \<le> b \<longleftrightarrow> oct_list a \<le> oct_list b"

definition less_octuplet :: "'a octuplet \<Rightarrow> 'a octuplet \<Rightarrow> bool" where
  "a < b \<longleftrightarrow> oct_list a < oct_list b"

instance
  by standard (auto simp: less_eq_octuplet_def less_octuplet_def order.strict_iff_order)

end

text \<open>\<open>Element.Cmp\<close> and the loop of \<open>KoalaOctuplet.Cmp\<close>.\<close>

definition elem_Cmp :: "'f::linorder \<Rightarrow> 'f \<Rightarrow> int" where
  "elem_Cmp x y = (if x < y then - 1 else if x = y then 0 else 1)"

fun Cmp_loop :: "'f::linorder list \<Rightarrow> 'f list \<Rightarrow> int" where
  "Cmp_loop (x # xs) (y # ys) =
     (let r = elem_Cmp x y in if r \<noteq> 0 then r else Cmp_loop xs ys)"
| "Cmp_loop _ _ = 0"

definition Cmp :: "'f::linorder octuplet \<Rightarrow> 'f octuplet \<Rightarrow> int" where
  "Cmp e other = Cmp_loop (oct_list e) (oct_list other)"

definition IsMaxOctuplet :: "'f::comm_ring_1 octuplet \<Rightarrow> bool" where
  "IsMaxOctuplet e = list_all (\<lambda>x. x = negativeOne) (oct_list e)"

definition MaxKoalaOctuplet :: "'f::comm_ring_1 octuplet" where
  "MaxKoalaOctuplet =
     Octuplet negativeOne negativeOne negativeOne negativeOne
              negativeOne negativeOne negativeOne negativeOne"

lemma Cmp_loop_order:
  "length xs = length ys \<Longrightarrow>
   Cmp_loop xs ys = (if xs < ys then - 1 else if xs = ys then 0 else 1)"
  by (induction xs ys rule: list_induct2) (auto simp: elem_Cmp_def Let_def)

lemma Cmp_order: "Cmp a b = (if a < b then - 1 else if a = b then 0 else 1)"
  by (simp add: Cmp_def Cmp_loop_order less_octuplet_def)

lemma Cmp_iffs [simp]:
  "Cmp a b = - 1 \<longleftrightarrow> a < b" "Cmp a b = 0 \<longleftrightarrow> a = b" "Cmp a b = 1 \<longleftrightarrow> b < a"
  "Cmp a b < 1 \<longleftrightarrow> a \<le> b" "Cmp a b > - 1 \<longleftrightarrow> b \<le> a"
  by (auto simp: Cmp_order)

lemma IsMaxOctuplet_iff: "IsMaxOctuplet e \<longleftrightarrow> e = MaxKoalaOctuplet"
  by (cases e) (auto simp: IsMaxOctuplet_def MaxKoalaOctuplet_def)

lemma list_le_pointwise:
  "length xs = length ys \<Longrightarrow> (\<And>i. i < length xs \<Longrightarrow> xs ! i \<le> ys ! i) \<Longrightarrow> xs \<le> ys"
  for xs :: "'a::linorder list"
proof (induction xs ys rule: list_induct2)
  case Nil
  then show ?case by simp
next
  case (Cons x xs y ys)
  from Cons.prems [of 0] have "x \<le> y" by simp
  moreover from Cons.prems [of "Suc i" for i] have "xs \<le> ys"
    by (intro Cons.IH) auto
  ultimately show ?case by auto
qed

lemma octuplet_bounds:
  fixes a :: "'f::{comm_ring_1, linorder} octuplet"
  assumes "\<And>x::'f. 0 \<le> x" "\<And>x::'f. x \<le> - 1"
  shows "0 \<le> a" and "a \<le> MaxKoalaOctuplet"
proof -
  show "0 \<le> a"
    unfolding less_eq_octuplet_def by (rule list_le_pointwise) (simp_all add: assms(1))
  have "oct_list MaxKoalaOctuplet = replicate 8 (- 1 :: 'f)"
    by (simp add: MaxKoalaOctuplet_def negativeOne_def numeral_eq_Suc)
  then show "a \<le> MaxKoalaOctuplet"
    unfolding less_eq_octuplet_def by (intro list_le_pointwise) (simp_all add: assms(2))
qed

subsection \<open>Bytes of an octuplet\<close>

definition ToBytes :: "'f koalabear \<Rightarrow> 'f octuplet \<Rightarrow> byte list" where
  "ToBytes kb e = concat (map (Bytes kb) (oct_list e))"

definition SetBytes :: "('f::zero) koalabear \<Rightarrow> byte list \<Rightarrow> 'f octuplet result" where
  "SetBytes kb b =
     (if length b \<noteq> 32 then Inl (Err ''should have 32 bytes'')
      else rbind (mapM (\<lambda>i. case SetBytesCanonical kb (take 4 (drop (4 * i) b)) of
                              None \<Rightarrow> Inl (Err ''could not unmarshal koalabear octuplet'')
                            | Some x \<Rightarrow> Inr x) [0..<8])
                 (\<lambda>xs. Inr (arr8 xs)))"

definition BytesToKoalaOctuplet :: "('f::zero) koalabear \<Rightarrow> byte list \<Rightarrow> 'f octuplet result" where
  "BytesToKoalaOctuplet kb b = SetBytes kb b"

definition MustBytesToKoalaOctuplet :: "('f::zero) koalabear \<Rightarrow> byte list \<Rightarrow> 'f octuplet result" where
  "MustBytesToKoalaOctuplet kb b =
     (case BytesToKoalaOctuplet kb b of Inl _ \<Rightarrow> Inl (Panic ''invalid octuplet'') | Inr e \<Rightarrow> Inr e)"


lemma koala_okD:
  assumes "koala_ok kb"
  shows "length (Bytes kb x) = 4" "SetBytesCanonical kb (Bytes kb x) = Some x"
    "SetBytesCanonical kb b = Some x \<Longrightarrow> Bytes kb x = b"
    "\<exists>x. SetBytesCanonical kb [0, 0, c, d] = Some x" "0 \<le> x" "x \<le> - 1"
  using assms by (auto simp: koala_ok_def)

lemma koala_ok_bounds:
  "koala_ok (kb :: 'f::{comm_ring_1, linorder} koalabear) \<Longrightarrow>
   0 \<le> (a :: 'f octuplet) \<and> a \<le> MaxKoalaOctuplet"
  using octuplet_bounds [of a] by (auto simp: koala_ok_def)

lemma chunk_concat:
  assumes "\<And>x. length (f x) = w"
  shows "i < length xs \<Longrightarrow> take w (drop (w * i) (concat (map f xs))) = f (xs ! i)"
proof (induction xs arbitrary: i)
  case (Cons x xs)
  then show ?case by (cases i) (simp_all add: assms)
qed simp

lemma length_concat_const: "(\<And>x. length (f x) = w) \<Longrightarrow> length (concat (map f xs)) = length xs * w"
  by (induction xs) auto

lemma length_ToBytes: "koala_ok kb \<Longrightarrow> length (ToBytes kb e) = 32"
  using length_concat_const [of "Bytes kb" 4 "oct_list e"] by (simp add: ToBytes_def koala_okD)

lemma SetBytes_ToBytes:
  assumes "koala_ok kb"
  shows "SetBytes kb (ToBytes kb e) = Inr e"
proof -
  let ?get = "\<lambda>i. case SetBytesCanonical kb (take 4 (drop (4 * i) (ToBytes kb e))) of
    None \<Rightarrow> Inl (Err ''could not unmarshal koalabear octuplet'') | Some x \<Rightarrow> Inr x"
  have "?get i = Inr (oct_list e ! i)" if "i \<in> set [0..<8]" for i
    using that chunk_concat [of "Bytes kb" 4 i "oct_list e"] koala_okD [OF assms]
    by (simp add: ToBytes_def)
  then have "mapM ?get [0..<8] = Inr (map (\<lambda>i. oct_list e ! i) [0..<8])"
    by (rule mapM_total)
  moreover have "map (\<lambda>i. oct_list e ! i) [0..<8] = oct_list e"
    by (metis length_oct_list map_nth)
  ultimately show ?thesis
    using length_ToBytes [OF assms] by (simp add: SetBytes_def)
qed

lemma ToBytes_inject: "koala_ok kb \<Longrightarrow> ToBytes kb a = ToBytes kb b \<longleftrightarrow> a = b"
  by (metis SetBytes_ToBytes sum.inject(2))

subsection \<open>Integers on padded words\<close>

text \<open>
  Every integer that is hashed is written as 16-bit limbs, each on a four-byte word whose two leading
  bytes are zero, so that every word is a canonical field element.
\<close>

definition LeftPadded :: "byte list \<Rightarrow> byte list result" where
  "LeftPadded b =
     (if length b mod 2 \<noteq> 0 then Inl (Panic ''input length must be even'')
      else Inr (concat (map (\<lambda>i. [0, 0] @ take 2 (drop (2 * i) b)) [0..<length b div 2])))"

definition LeftPadded48Zeros :: "byte list \<Rightarrow> byte list result" where
  "LeftPadded48Zeros b =
     (if length b \<noteq> 16 then Inl (Panic ''input length must be 16'')
      else Inr (replicate 48 0 @ b))"

definition RemovePadding :: "byte list \<Rightarrow> byte list result" where
  "RemovePadding b =
     (if length b mod 4 \<noteq> 0 then Inl (Panic ''input length must be a multiple of 4'')
      else Inr (concat (map (\<lambda>i. take 2 (drop (4 * i + 2) b)) [0..<length b div 4])))"

definition Remove48Padding :: "byte list \<Rightarrow> byte list result" where
  "Remove48Padding b =
     (if length b \<noteq> 64 then Inl (Panic ''input length must be 64'')
      else Inr (take 16 (drop 48 b)))"

text \<open>Big-endian bytes of the low \<open>8 * n\<close> bits of an integer (\<open>binary.BigEndian.PutUint64\<close> for
  \<open>n = 8\<close>, \<open>big.Int.FillBytes\<close> for a value that fits) and back.\<close>

definition be_bytes :: "nat \<Rightarrow> int \<Rightarrow> byte list" where
  "be_bytes n x = map (\<lambda>i. word_of_int (x div 256 ^ (n - 1 - i))) [0..<n]"

fun be_value :: "byte list \<Rightarrow> int" where
  "be_value [] = 0"
| "be_value (b # bs) = uint b * 256 ^ length bs + be_value bs"

definition PutUint64 :: "int \<Rightarrow> byte list" where
  "PutUint64 x = be_bytes 8 x"

definition WriteInt64On64Bytes :: "int \<Rightarrow> byte list result" where
  "WriteInt64On64Bytes x =
     rbind (LeftPadded (PutUint64 x)) (\<lambda>padded. LeftPadded48Zeros padded)"

definition WriteInt64On32Bytes :: "int \<Rightarrow> byte list" where
  "WriteInt64On32Bytes x = replicate (32 - 8) 0 @ PutUint64 x"

text \<open>
  The readers take the bytes of a \<open>bytes.Buffer\<close>: \<open>Read\<close> fills its argument with what is left, and
  is an EOF error when nothing is left.
\<close>

definition buf_Read :: "nat \<Rightarrow> byte list \<Rightarrow> (byte list \<times> byte list) result" where
  "buf_Read k r = (if r = [] then Inl (Err ''EOF'') else Inr (take k r, drop k r))"

definition ReadInt64On64Bytes :: "byte list \<Rightarrow> (int \<times> byte list) result" where
  "ReadInt64On64Bytes r =
     rbind (buf_Read 64 r) (\<lambda>(buf, r').
       if length buf \<noteq> 64 then Inl (Err ''could not read 64 bytes'')
       else rbind (Remove48Padding buf) (\<lambda>d. rbind (RemovePadding d) (\<lambda>d.
              Inr (be_value d AND 0x7fffffffffffffff, r'))))"

definition ReadInt64On32Bytes :: "byte list \<Rightarrow> (int \<times> byte list) result" where
  "ReadInt64On32Bytes r =
     rbind (buf_Read 32 r) (\<lambda>(buf, r').
       let bi = be_value (buf @ replicate (32 - length buf) 0)
       in if \<not> is_int64 bi then Inl (Err ''could not read 32 bytes'') else Inr (bi, r'))"

definition FillBytes32 :: "int \<Rightarrow> byte list result" where
  "FillBytes32 b =
     (if \<bar>b\<bar> \<ge> 256 ^ 32 then Inl (Panic ''math/big: buffer too small to fit value'')
      else Inr (be_bytes 32 \<bar>b\<bar>))"

definition WriteBigIntOn64Bytes :: "int \<Rightarrow> byte list result" where
  "WriteBigIntOn64Bytes b = rbind (FillBytes32 b) LeftPadded"

definition WriteBigIntOn32Bytes :: "int \<Rightarrow> byte list result" where
  "WriteBigIntOn32Bytes b = FillBytes32 b"

definition ReadBigIntOn32Bytes :: "byte list \<Rightarrow> (int \<times> byte list) result" where
  "ReadBigIntOn32Bytes r =
     rbind (buf_Read 32 r) (\<lambda>(buf, r').
       Inr (be_value (buf @ replicate (32 - length buf) 0), r'))"

definition ReadBigIntOn64Bytes :: "byte list \<Rightarrow> (int \<times> byte list) result" where
  "ReadBigIntOn64Bytes r =
     rbind (buf_Read 64 r) (\<lambda>(buf, r').
       rbind (RemovePadding (buf @ replicate (64 - length buf) 0)) (\<lambda>res.
         Inr (be_value res, r')))"

definition octuplet_ReadFrom ::
  "('f::zero) koalabear \<Rightarrow> byte list \<Rightarrow> ('f octuplet \<times> byte list) result" where
  "octuplet_ReadFrom kb r =
     rbind (buf_Read 32 r) (\<lambda>(buf, r').
       rbind (SetBytes kb (buf @ replicate (32 - length buf) 0)) (\<lambda>e. Inr (e, r')))"

subsection \<open>Round trips of the formats\<close>

lemma length_be_bytes [simp]: "length (be_bytes n x) = n"
  by (simp add: be_bytes_def)

lemma be_bytes_Suc: "be_bytes (Suc n) x = word_of_int (x div 256 ^ n) # be_bytes n x"
proof -
  have "be_bytes (Suc n) x =
    word_of_int (x div 256 ^ n) # map (\<lambda>i. word_of_int (x div 256 ^ (n - i))) [Suc 0..<Suc n]"
    by (simp add: be_bytes_def upt_conv_Cons del: upt_Suc)
  also have "map (\<lambda>i. word_of_int (x div 256 ^ (n - i)) :: byte) [Suc 0..<Suc n] = be_bytes n x"
    by (simp only: be_bytes_def map_Suc_upt [symmetric] map_map comp_def) simp
  finally show ?thesis .
qed

lemma be_value_be_bytes: "be_value (be_bytes n x) = x mod 256 ^ n"
proof (induction n)
  case 0
  then show ?case by (simp add: be_bytes_def)
next
  case (Suc n)
  have "be_value (be_bytes (Suc n) x) = (x div 256 ^ n mod 256) * 256 ^ n + x mod 256 ^ n"
    using Suc by (simp add: be_bytes_Suc uint_word_of_int)
  also have "\<dots> = x mod (256 ^ n * 256)"
    by (subst zmod_zmult2_eq) simp_all
  finally show ?case by (simp add: mult.commute)
qed

lemma be_value_bounds: "0 \<le> be_value bs \<and> be_value bs < 256 ^ length bs"
proof (induction bs)
  case (Cons b bs)
  have "uint b \<le> 255" using uint_lt2p [of b] by simp
  then have "uint b * 256 ^ length bs \<le> 255 * (256::int) ^ length bs"
    by (simp add: mult_right_mono)
  moreover have "(256::int) ^ length (b # bs) = 255 * 256 ^ length bs + 256 ^ length bs"
    by simp
  moreover have "0 \<le> uint b * 256 ^ length bs" by simp
  ultimately show ?case using Cons by (simp only: be_value.simps) linarith
qed simp

lemma be_value_zeros [simp]: "be_value (replicate n 0 @ bs) = be_value bs"
  by (induction n) simp_all

lemma take2_drop_pairs:
  "i < length ps \<Longrightarrow> take 2 (drop (2 * i) (concat (map (\<lambda>(a, b). [a, b]) ps))) =
     [fst (ps ! i), snd (ps ! i)]"
  using chunk_concat [of "\<lambda>(a, b). [a, b]" 2 i ps] by (simp add: split_beta)

lemma even_list_pairs: "even (length b) \<Longrightarrow> \<exists>ps. b = concat (map (\<lambda>(x, y). [x, y]) ps)"
proof (induction b rule: induct_list012)
  case 1
  then show ?case by (intro exI [of _ "[]"]) simp
next
  case (3 x y zs)
  then obtain ps where "zs = concat (map (\<lambda>(x, y). [x, y]) ps)" by auto
  then show ?case by (intro exI [of _ "(x, y) # ps"]) simp
qed simp

lemma LeftPadded_pairs:
  "LeftPadded (concat (map (\<lambda>(x, y). [x, y]) ps)) =
   Inr (concat (map (\<lambda>(x, y). [0, 0, x, y]) ps))"
proof -
  let ?b = "concat (map (\<lambda>(x, y). [x, y]) ps)"
  have l: "length ?b = length ps * 2"
    by (rule length_concat_const) (simp add: split_beta)
  have "map (\<lambda>i. [0, 0] @ take 2 (drop (2 * i) ?b)) [0..<length ps] =
        map (\<lambda>i. (\<lambda>(x, y). [0, 0, x, y]) (ps ! i)) [0..<length ps]"
    by (rule map_cong [OF refl]) (simp add: take2_drop_pairs split_beta)
  also have "\<dots> = map (\<lambda>(x, y). [0, 0, x, y]) ps"
    using map_nth [of ps] by (metis (no_types, lifting) comp_apply list.map_comp map_eq_conv)
  finally show ?thesis using l by (simp add: LeftPadded_def)
qed

lemma RemovePadding_pairs:
  "RemovePadding (concat (map (\<lambda>(x, y). [0, 0, x, y]) ps)) =
   Inr (concat (map (\<lambda>(x, y). [x, y]) ps))"
proof -
  let ?b = "concat (map (\<lambda>(x, y). [0, 0, x, y]) ps)"
  have l: "length ?b = length ps * 4"
    by (rule length_concat_const) (simp add: split_beta)
  have "take 2 (drop (4 * i + 2) ?b) = (\<lambda>(x, y). [x, y]) (ps ! i)" if "i < length ps" for i
  proof -
    have "take 2 (drop (4 * i + 2) ?b) = take 2 (drop 2 (take 4 (drop (4 * i) ?b)))"
      by (simp add: drop_take add.commute)
    also have "take 4 (drop (4 * i) ?b) = (\<lambda>(x, y). [0, 0, x, y]) (ps ! i)"
      using that by (intro chunk_concat) (simp_all add: split_beta)
    also have "take 2 (drop 2 ((\<lambda>(x, y). [0, 0, x, y]) (ps ! i))) = (\<lambda>(x, y). [x, y]) (ps ! i)"
      by (cases "ps ! i") (simp add: numeral_2_eq_2)
    finally show ?thesis .
  qed
  then have "map (\<lambda>i. take 2 (drop (4 * i + 2) ?b)) [0..<length ps] =
        map (\<lambda>i. (\<lambda>(x, y). [x, y]) (ps ! i)) [0..<length ps]"
    by (intro map_cong [OF refl]) simp
  also have "\<dots> = map (\<lambda>(x, y). [x, y]) ps"
    using map_nth [of ps] by (metis (no_types, lifting) comp_apply list.map_comp map_eq_conv)
  finally show ?thesis using l by (simp add: RemovePadding_def)
qed

lemma LeftPadded_even:
  assumes "even (length b)"
  obtains p where "LeftPadded b = Inr p" "length p = 2 * length b" "RemovePadding p = Inr b"
proof -
  from assms obtain ps where b: "b = concat (map (\<lambda>(x, y). [x, y]) ps)"
    using even_list_pairs by blast
  let ?p = "concat (map (\<lambda>(x, y). [0, 0, x, y]) ps)"
  have "length ?p = length ps * 4" "length b = length ps * 2"
    unfolding b by (rule length_concat_const, simp add: split_beta)+
  then show thesis
    using that [of ?p] LeftPadded_pairs RemovePadding_pairs b by simp
qed

lemma WriteInt64On64Bytes_format:
  obtains p where "WriteInt64On64Bytes x = Inr (replicate 48 0 @ p)" "length p = 16"
    "RemovePadding p = Inr (be_bytes 8 x)"
proof -
  obtain p where p: "LeftPadded (be_bytes 8 x) = Inr p" "length p = 2 * length (be_bytes 8 x)"
    "RemovePadding p = Inr (be_bytes 8 x)"
    by (rule LeftPadded_even [of "be_bytes 8 x"]) simp
  then show thesis
    using that [of p] by (simp add: WriteInt64On64Bytes_def PutUint64_def LeftPadded48Zeros_def)
qed

lemma and_mask63: "0 \<le> x \<Longrightarrow> x < 2 ^ 63 \<Longrightarrow> x AND 0x7fffffffffffffff = x" for x :: int
proof -
  assume "0 \<le> x" "x < 2 ^ 63"
  then have "take_bit 63 x = x" by (simp add: take_bit_int_eq_self)
  moreover have "(0x7fffffffffffffff :: int) = mask 63" by (simp add: mask_eq_exp_minus_1)
  ultimately show ?thesis by (simp only: take_bit_eq_mask)
qed

lemma ReadInt64On64Bytes_Write:
  assumes "WriteInt64On64Bytes x = Inr w"
  shows "ReadInt64On64Bytes (w @ r) = Inr (x mod 2 ^ 63, r)"
proof -
  obtain p where p: "WriteInt64On64Bytes x = Inr (replicate 48 0 @ p)" "length p = 16"
    "RemovePadding p = Inr (be_bytes 8 x)"
    by (rule WriteInt64On64Bytes_format)
  with assms have w: "w = replicate 48 0 @ p" by simp
  have "(x mod 2 ^ 64) AND (mask 63 :: int) = x mod 2 ^ 63"
    by (simp only: take_bit_eq_mod [symmetric] take_bit_eq_mask [symmetric])
      (simp add: take_bit_take_bit)
  then have "be_value (be_bytes 8 x) AND 0x7fffffffffffffff = x mod 2 ^ 63"
    by (simp add: be_value_be_bytes mask_eq_exp_minus_1)
  then show ?thesis
    using p(2,3) by (simp add: w ReadInt64On64Bytes_def buf_Read_def Remove48Padding_def)
qed

lemma WriteInt64On64Bytes_total: "\<exists>w. WriteInt64On64Bytes x = Inr w \<and> length w = 64"
  by (rule WriteInt64On64Bytes_format [of x]) auto

end
