(* ===== verification/Poseidon.thy ===== *)
theory Poseidon
  imports Koala
begin

text \<open>
  The Merkle-Damgard hasher of \<open>src/prover/crypto/poseidon2_koalabear/poseidon2.go\<close>. The Poseidon2
  compression function is gnark-crypto's and is the field \<open>CompressPoseidon2\<close> of the parameter
  \<open>kb\<close>; the buffering, the padding and the chaining are the repository's own code and are modelled
  here. A hasher is a record, and every method returns the updated record.

  The locale \<open>writer_to\<close> is Go's \<open>io.WriterTo\<close>, seen from the hasher: an object whose \<open>WriteTo\<close>
  appends a fixed list of field elements to the buffer. It is the interface between the types that
  are hashed and the accumulator that hashes them.
\<close>

subsection \<open>Operations\<close>

record 'f mdhasher =
  state :: "'f octuplet"
  buffer :: "'f list"
  bufferPosition :: int

definition BlockSize :: nat where
  "BlockSize = 8"

definition NewMDHasher :: "('f::zero) mdhasher" where
  "NewMDHasher = \<lparr>state = 0, buffer = [], bufferPosition = 0\<rparr>"

definition Compress :: "'f koalabear \<Rightarrow> 'f octuplet \<Rightarrow> 'f octuplet \<Rightarrow> 'f octuplet" where
  "Compress kb st block = CompressPoseidon2 kb st block"

definition Reset :: "('f::zero) mdhasher \<Rightarrow> 'f mdhasher" where
  "Reset d = d\<lparr>bufferPosition := 0, state := 0\<rparr>"

definition SetStateOctuplet :: "('f::zero) mdhasher \<Rightarrow> 'f octuplet \<Rightarrow> 'f mdhasher" where
  "SetStateOctuplet d st = (Reset d)\<lparr>buffer := [], bufferPosition := 0, state := st\<rparr>"

definition WriteElements :: "'f mdhasher \<Rightarrow> 'f list \<Rightarrow> 'f mdhasher" where
  "WriteElements d elmts = d\<lparr>buffer := buffer d @ elmts\<rparr>"

text \<open>The loop of \<open>SumElement\<close>: full blocks from the front, a last partial block padded on the
  left with zeroes.\<close>

function sum_loop :: "('f::zero) koalabear \<Rightarrow> 'f octuplet \<Rightarrow> 'f list \<Rightarrow> 'f octuplet" where
  "sum_loop kb st buf =
     (if buf = [] then st
      else if length buf < BlockSize
      then CompressPoseidon2 kb st (arr8 (replicate (BlockSize - length buf) 0 @ buf))
      else sum_loop kb (CompressPoseidon2 kb st (arr8 buf)) (drop BlockSize buf))"
  by pat_completeness auto
termination
  by (relation "measure (\<lambda>(kb, st, buf). length buf)") (auto simp: BlockSize_def)

declare sum_loop.simps [simp del]

definition SumElement :: "('f::zero) koalabear \<Rightarrow> 'f mdhasher \<Rightarrow> 'f octuplet \<times> 'f mdhasher" where
  "SumElement kb d =
     (let st = sum_loop kb (state d) (buffer d) in (st, d\<lparr>state := st, buffer := []\<rparr>))"

definition GetStateOctuplet :: "('f::zero) koalabear \<Rightarrow> 'f mdhasher \<Rightarrow> 'f octuplet \<times> 'f mdhasher" where
  "GetStateOctuplet kb d =
     (let oldState = state d; oldBuffer = buffer d; oldBufferPosition = bufferPosition d;
          d1 = snd (SumElement kb d); res = state d1
      in (res, d1\<lparr>state := oldState, buffer := oldBuffer, bufferPosition := oldBufferPosition\<rparr>))"

text \<open>\<open>Write\<close> leaves the hasher as it is when it returns an error.\<close>

definition Write :: "('f::zero) koalabear \<Rightarrow> 'f mdhasher \<Rightarrow> byte list \<Rightarrow> 'f mdhasher result" where
  "Write kb d p =
     (if length p mod 4 \<noteq> 0 then Inl (Err ''input length is not a multiple of 4 byte size'')
      else rbind (mapM (\<lambda>i. case SetBytesCanonical kb (take 4 (drop (4 * i) p)) of
                              None \<Rightarrow> Inl (Err ''not canonical'')
                            | Some e \<Rightarrow> Inr e) [0..<length p div 4])
                 (\<lambda>elems. Inr (WriteElements d elems)))"

definition Sum :: "('f::zero) koalabear \<Rightarrow> 'f mdhasher \<Rightarrow> byte list \<Rightarrow> (byte list \<times> 'f mdhasher) result" where
  "Sum kb d msg =
     (case Write kb d msg of
        Inl _ \<Rightarrow> Inl (Panic ''write failed'')
      | Inr d' \<Rightarrow> (let (h, d'') = SumElement kb d' in Inr (ToBytes kb h, d'')))"

definition HashVec :: "('f::zero) koalabear \<Rightarrow> 'f list \<Rightarrow> 'f octuplet" where
  "HashVec kb v = fst (SumElement kb (WriteElements NewMDHasher v))"

definition HashBytes :: "('f::zero) koalabear \<Rightarrow> byte list \<Rightarrow> byte list result" where
  "HashBytes kb x =
     (case Write kb NewMDHasher x of
        Inl _ \<Rightarrow> Inl (Panic ''write failed'')
      | Inr d \<Rightarrow> rbind (Sum kb d []) (\<lambda>(b, _). Inr b))"

text \<open>
  An \<open>io.Writer\<close> takes bytes and its own state, and returns the number of bytes taken, the error and
  the new state. A hasher is one; on an error it is left as it was. The \<open>WriteTo\<close> of an object
  is a \<open>writer\<close>: it acts on a hasher, and may panic.
\<close>

type_synonym 's io_writer = "byte list \<Rightarrow> 's \<Rightarrow> nat \<times> string option \<times> 's"

type_synonym ('f, 'k) writer = "'k \<Rightarrow> 'f mdhasher \<Rightarrow> (nat \<times> string option \<times> 'f mdhasher) result"

definition hasher_io :: "('f::zero) koalabear \<Rightarrow> 'f mdhasher io_writer" where
  "hasher_io kb p d =
     (case Write kb d p of
        Inl (Err m) \<Rightarrow> (0, Some m, d)
      | Inl (Panic m) \<Rightarrow> (0, Some m, d)
      | Inr d' \<Rightarrow> (length p, None, d'))"

definition HashWriterTo :: "('f::zero) koalabear \<Rightarrow> ('f, 'k) writer \<Rightarrow> 'k \<Rightarrow> byte list result" where
  "HashWriterTo kb wt w =
     rbind (wt w NewMDHasher) (\<lambda>(_, err, d).
       if err \<noteq> None then Inl (Panic ''write failed'')
       else rbind (Sum kb d []) (\<lambda>(b, _). Inr b))"

text \<open>The generic \<open>hash\<close> of \<open>accumulator/common.go\<close>: the error of \<open>WriteTo\<close> is dropped.\<close>

definition hash :: "('f::zero) koalabear \<Rightarrow> ('f, 'k) writer \<Rightarrow> 'k \<Rightarrow> 'f octuplet result" where
  "hash kb wt m =
     rbind (wt m NewMDHasher) (\<lambda>(_, _, hasher).
     rbind (Sum kb hasher []) (\<lambda>(digest, _).
       case SetBytes kb digest of
         Inl _ \<Rightarrow> Inl (Panic ''invalid digest'')
       | Inr d \<Rightarrow> Inr d))"

subsection \<open>Chaining of blocks\<close>

lemma sum_loop_Nil [simp]: "sum_loop kb st [] = st"
  by (simp add: sum_loop.simps)

lemma sum_loop_block:
  "length b = 8 \<Longrightarrow> sum_loop kb st (b @ xs) = sum_loop kb (CompressPoseidon2 kb st (arr8 b)) xs"
proof -
  assume l: "length b = 8"
  have "arr8 (b @ xs) = arr8 b"
    using l by (simp add: arr8_def Let_def nth_append)
  moreover have "b @ xs \<noteq> []" using l by auto
  ultimately show ?thesis
    using l by (subst sum_loop.simps) (auto simp: BlockSize_def)
qed

lemma sum_loop_octuplet:
  "sum_loop kb st (oct_list e @ xs) = sum_loop kb (CompressPoseidon2 kb st e) xs"
  by (simp add: sum_loop_block)

lemma sum_loop_blocks: "sum_loop kb st (concat (map oct_list es)) = foldl (CompressPoseidon2 kb) st es"
  by (induction es arbitrary: st) (simp_all add: sum_loop_octuplet)

lemma blocks_of_list: "8 dvd length (xs :: 'f::zero list) \<Longrightarrow> \<exists>es. xs = concat (map oct_list es)"
proof (induction "length xs" arbitrary: xs rule: less_induct)
  case less
  show ?case
  proof (cases "xs = []")
    case True
    then show ?thesis by (intro exI [of _ "[]"]) simp
  next
    case False
    with less.prems have l: "8 \<le> length xs" by (auto dest: dvd_imp_le)
    then have "8 dvd length (drop 8 xs)" using less.prems by (simp add: dvd_minus_self)
    moreover have "length (drop 8 xs) < length xs" using l False by simp
    ultimately obtain es where "drop 8 xs = concat (map oct_list es)"
      using less.hyps by blast
    then have "xs = concat (map oct_list (arr8 (take 8 xs) # es))"
      using l by (simp add: oct_list_arr8) (metis append_take_drop_id)
    then show ?thesis by blast
  qed
qed

lemma sum_loop_append:
  assumes "8 dvd length xs"
  shows "sum_loop kb st (xs @ ys) = sum_loop kb (sum_loop kb st xs) ys"
proof -
  obtain es where xs: "xs = concat (map oct_list es)"
    using blocks_of_list [OF assms] by blast
  show ?thesis
    unfolding xs by (induction es arbitrary: st) (simp_all add: sum_loop_octuplet)
qed

lemma SumElement_fst: "fst (SumElement kb d) = sum_loop kb (state d) (buffer d)"
  by (simp add: SumElement_def Let_def)

lemma SumElement_flushes [simp]: "buffer (snd (SumElement kb d)) = []"
  by (simp add: SumElement_def Let_def)

lemma HashVec_sum_loop: "HashVec kb v = sum_loop kb 0 v"
  by (simp add: HashVec_def SumElement_fst WriteElements_def NewMDHasher_def)

lemma GetStateOctuplet_pure: "GetStateOctuplet kb d = (fst (SumElement kb d), d)"
  by (simp add: GetStateOctuplet_def SumElement_def Let_def)

lemma Write_Nil [simp]: "Write kb d [] = Inr d"
  by (simp add: Write_def WriteElements_def)

lemma WriteElements_WriteElements [simp]:
  "WriteElements (WriteElements d a) b = WriteElements d (a @ b)"
  by (simp add: WriteElements_def)

lemma Sum_Nil: "Sum kb d [] = Inr (ToBytes kb (fst (SumElement kb d)), snd (SumElement kb d))"
  by (simp add: Sum_def split_beta)

subsection \<open>Bytes written to a hasher\<close>

definition elems_of :: "'f koalabear \<Rightarrow> byte list \<Rightarrow> 'f list" where
  "elems_of kb p = map (\<lambda>i. the (SetBytesCanonical kb (take 4 (drop (4 * i) p)))) [0..<length p div 4]"

lemma elems_of_concat:
  assumes "koala_ok kb"
  shows "elems_of kb (concat (map (Bytes kb) es)) = es"
proof -
  have l: "length (concat (map (Bytes kb) es)) = length es * 4"
    using assms by (intro length_concat_const koala_okD)
  have "the (SetBytesCanonical kb (take 4 (drop (4 * i) (concat (map (Bytes kb) es))))) = es ! i"
    if "i < length es" for i
    using that chunk_concat [of "Bytes kb" 4 i es] koala_okD [OF assms] by simp
  then have "elems_of kb (concat (map (Bytes kb) es)) = map (\<lambda>i. es ! i) [0..<length es]"
    using l by (auto simp: elems_of_def)
  then show ?thesis by (simp add: map_nth)
qed

lemma Write_concat:
  assumes "koala_ok kb"
  shows "Write kb d (concat (map (Bytes kb) es)) = Inr (WriteElements d es)"
proof -
  let ?p = "concat (map (Bytes kb) es)"
  let ?get = "\<lambda>i. case SetBytesCanonical kb (take 4 (drop (4 * i) ?p)) of
    None \<Rightarrow> Inl (Err ''not canonical'') | Some x \<Rightarrow> Inr x"
  have l: "length ?p = length es * 4"
    using assms by (intro length_concat_const koala_okD)
  have "?get i = Inr (es ! i)" if "i \<in> set [0..<length es]" for i
    using that chunk_concat [of "Bytes kb" 4 i es] koala_okD [OF assms] by simp
  then have "mapM ?get [0..<length es] = Inr (map (\<lambda>i. es ! i) [0..<length es])"
    by (rule mapM_total)
  then show ?thesis
    using l by (simp add: Write_def map_nth)
qed

lemma Write_ToBytes: "koala_ok kb \<Longrightarrow> Write kb d (ToBytes kb e) = Inr (WriteElements d (oct_list e))"
  by (simp add: ToBytes_def Write_concat)

text \<open>Words with two leading zero bytes are canonical, so every padded format can be written.\<close>

lemma padded_canonical:
  assumes "koala_ok kb"
  shows "\<exists>es. concat (map (\<lambda>(x, y). [0, 0, x, y]) ps) = concat (map (Bytes kb) es) \<and>
              length es = length ps"
proof (induction ps)
  case Nil
  then show ?case by (intro exI [of _ "[]"]) simp
next
  case (Cons q ps)
  obtain x y where q: "q = (x, y)" by (cases q)
  obtain e where "SetBytesCanonical kb [0, 0, x, y] = Some e"
    using koala_okD(4) [OF assms] by blast
  then have "Bytes kb e = [0, 0, x, y]" using koala_okD(3) [OF assms] by blast
  moreover obtain es where "concat (map (\<lambda>(x, y). [0, 0, x, y]) ps) = concat (map (Bytes kb) es)"
    "length es = length ps"
    using Cons by blast
  ultimately show ?case using q by (intro exI [of _ "e # es"]) simp
qed

lemma Write_padded:
  assumes "koala_ok kb" "even (length b)" "LeftPadded b = Inr p"
  shows "Write kb d (replicate (4 * n) 0 @ p) = Inr (WriteElements d (elems_of kb (replicate (4 * n) 0 @ p)))"
    and "replicate (4 * n) 0 @ p = concat (map (Bytes kb) (elems_of kb (replicate (4 * n) 0 @ p)))"
    and "2 * length (elems_of kb (replicate (4 * n) 0 @ p)) = 2 * n + length b"
proof -
  obtain ps where b: "b = concat (map (\<lambda>(x, y). [x, y]) ps)"
    using even_list_pairs assms(2) by blast
  then have p: "p = concat (map (\<lambda>(x, y). [0, 0, x, y]) ps)"
    using assms(3) LeftPadded_pairs by simp
  have "replicate (4 * n) 0 = concat (map (\<lambda>(x, y). [0, 0, x, y]) (replicate n (0, 0 :: byte)))"
    by (induction n) (simp_all add: numeral_eq_Suc)
  then have e: "replicate (4 * n) 0 @ p =
      concat (map (\<lambda>(x, y). [0, 0, x, y]) (replicate n (0, 0) @ ps))"
    using p by simp
  obtain es where es: "replicate (4 * n) 0 @ p = concat (map (Bytes kb) es)"
    "length es = n + length ps"
    using padded_canonical [OF assms(1), of "replicate n (0, 0) @ ps"] e by auto
  then have "elems_of kb (replicate (4 * n) 0 @ p) = es"
    using elems_of_concat [OF assms(1)] by simp
  moreover have "length b = length ps * 2"
    unfolding b by (rule length_concat_const) (simp add: split_beta)
  ultimately show
    "Write kb d (replicate (4 * n) 0 @ p) = Inr (WriteElements d (elems_of kb (replicate (4 * n) 0 @ p)))"
    "replicate (4 * n) 0 @ p = concat (map (Bytes kb) (elems_of kb (replicate (4 * n) 0 @ p)))"
    "2 * length (elems_of kb (replicate (4 * n) 0 @ p)) = 2 * n + length b"
    using es Write_concat [OF assms(1)] by auto
qed

subsection \<open>Objects that can be hashed\<close>

text \<open>Bytes that are the encoding of field elements; a hasher takes them without error.\<close>

definition canonical :: "'f koalabear \<Rightarrow> byte list \<Rightarrow> bool" where
  "canonical kb p \<longleftrightarrow> p = concat (map (Bytes kb) (elems_of kb p))"

lemma canonical_concat: "koala_ok kb \<Longrightarrow> canonical kb (concat (map (Bytes kb) es))"
  by (simp add: canonical_def elems_of_concat)

lemma canonical_append:
  assumes "koala_ok kb" "canonical kb p" "canonical kb q"
  shows "canonical kb (p @ q)" and "elems_of kb (p @ q) = elems_of kb p @ elems_of kb q"
proof -
  have e: "p @ q = concat (map (Bytes kb) (elems_of kb p @ elems_of kb q))"
    using assms(2,3) by (simp add: canonical_def)
  show "canonical kb (p @ q)"
    by (subst e) (rule canonical_concat [OF assms(1)])
  show "elems_of kb (p @ q) = elems_of kb p @ elems_of kb q"
    by (subst e) (rule elems_of_concat [OF assms(1)])
qed

lemma canonical_padded:
  "koala_ok kb \<Longrightarrow> even (length b) \<Longrightarrow> LeftPadded b = Inr p \<Longrightarrow> canonical kb (replicate (4 * n) 0 @ p)"
  unfolding canonical_def by (rule Write_padded(2))

lemma hasher_io_canonical:
  assumes "koala_ok kb" "canonical kb p"
  shows "hasher_io kb p d = (length p, None, WriteElements d (elems_of kb p))"
proof -
  have "Write kb d p = Inr (WriteElements d (elems_of kb p))"
    using Write_concat [OF assms(1), of d "elems_of kb p"] assms(2) by (simp add: canonical_def)
  then show ?thesis by (simp add: hasher_io_def)
qed

lemma canonical_inject: "canonical kb p \<Longrightarrow> canonical kb q \<Longrightarrow> elems_of kb p = elems_of kb q \<Longrightarrow> p = q"
  by (metis canonical_def)

lemma canonical_length: "koala_ok kb \<Longrightarrow> canonical kb p \<Longrightarrow> length p = 4 * length (elems_of kb p)"
  by (metis canonical_def koala_okD(1) length_concat_const mult.commute)

text \<open>\<open>writes kb wt k es\<close>: hashing \<open>k\<close> appends the elements \<open>es\<close> to the buffer, whatever it holds.\<close>

definition writes :: "'f koalabear \<Rightarrow> ('f, 'k) writer \<Rightarrow> 'k \<Rightarrow> 'f list \<Rightarrow> bool" where
  "writes kb wt k es \<longleftrightarrow> (\<forall>d. \<exists>n. wt k d = Inr (n, None, WriteElements d es))"

lemma hasher_io_ToBytes:
  "koala_ok kb \<Longrightarrow> hasher_io kb (ToBytes kb e) d = (32, None, WriteElements d (oct_list e))"
  by (simp add: hasher_io_def Write_ToBytes length_ToBytes)

lemma hash_writes:
  assumes "koala_ok kb" "writes kb wt k es"
  shows "hash kb wt k = Inr (HashVec kb es)"
proof -
  obtain n where "wt k NewMDHasher = Inr (n, None, WriteElements NewMDHasher es)"
    using assms(2) by (auto simp: writes_def)
  then show ?thesis
    using assms(1) by (simp add: hash_def Sum_Nil HashVec_def SetBytes_ToBytes)
qed

lemma HashWriterTo_writes:
  assumes "koala_ok kb" "writes kb wt k es"
  shows "HashWriterTo kb wt k = Inr (ToBytes kb (HashVec kb es))"
proof -
  obtain n where "wt k NewMDHasher = Inr (n, None, WriteElements NewMDHasher es)"
    using assms(2) by (auto simp: writes_def)
  then show ?thesis
    by (simp add: HashWriterTo_def Sum_Nil HashVec_def)
qed

locale writer_to =
  fixes wt :: "('f::{comm_ring_1, linorder}) koalabear \<Rightarrow> ('f, 'k) writer"
    and elems :: "'f koalabear \<Rightarrow> 'k \<Rightarrow> 'f list"
    and ok :: "'k \<Rightarrow> bool"
  assumes writes_elems: "koala_ok kb \<Longrightarrow> ok k \<Longrightarrow> writes kb (wt kb) k (elems kb k)"
begin

lemma hash_elems: "koala_ok kb \<Longrightarrow> ok k \<Longrightarrow> hash kb (wt kb) k = Inr (HashVec kb (elems kb k))"
  by (simp add: hash_writes writes_elems)

lemma hash_total: "koala_ok kb \<Longrightarrow> ok k \<Longrightarrow> returns (hash kb (wt kb) k)"
  by (simp add: hash_elems)

text \<open>The digest the accumulator uses and the bytes other packages get are the same octuplet.\<close>

lemma HashWriterTo_hash:
  "koala_ok kb \<Longrightarrow> ok k \<Longrightarrow> rbind (HashWriterTo kb (wt kb) k) (SetBytes kb) = hash kb (wt kb) k"
  by (simp add: HashWriterTo_writes [OF _ writes_elems] hash_elems SetBytes_ToBytes)

end

subsection \<open>Binding\<close>

text \<open>
  A compression function is not injective, so binding statements name the inputs it must not collide
  on. \<open>md_queries\<close> are the inputs the chaining of some blocks evaluates; \<open>collides\<close> says that two
  different inputs of a given set have the same image. Messages of the same number of full blocks
  that chain to the same digest are equal, or two of the inputs evaluated for them collide. Messages
  of different lengths have no such bound: the padding is not injective.
\<close>

fun md_queries :: "'f koalabear \<Rightarrow> 'f octuplet \<Rightarrow> 'f octuplet list \<Rightarrow> ('f octuplet \<times> 'f octuplet) set" where
  "md_queries kb st [] = {}"
| "md_queries kb st (e # es) = insert (st, e) (md_queries kb (CompressPoseidon2 kb st e) es)"

definition collides :: "'f koalabear \<Rightarrow> ('f octuplet \<times> 'f octuplet) set \<Rightarrow> bool" where
  "collides kb Q \<longleftrightarrow>
     (\<exists>q \<in> Q. \<exists>q' \<in> Q. q \<noteq> q' \<and>
        CompressPoseidon2 kb (fst q) (snd q) = CompressPoseidon2 kb (fst q') (snd q'))"

lemma collides_mono: "collides kb Q \<Longrightarrow> Q \<subseteq> Q' \<Longrightarrow> collides kb Q'"
  unfolding collides_def by blast

text \<open>An input that compresses to zero is not a collision, but the trees treat a zero digest as an empty or a corrupted
  node. \<open>breaks\<close> is the event that a binding statement excludes: of the inputs evaluated, two collide or one compresses to zero.\<close>

definition zero_digest :: "('f::zero) koalabear \<Rightarrow> ('f octuplet \<times> 'f octuplet) set \<Rightarrow> bool" where
  "zero_digest kb Q \<longleftrightarrow> (\<exists>q \<in> Q. CompressPoseidon2 kb (fst q) (snd q) = 0)"

definition breaks :: "('f::zero) koalabear \<Rightarrow> ('f octuplet \<times> 'f octuplet) set \<Rightarrow> bool" where
  "breaks kb Q \<longleftrightarrow> collides kb Q \<or> zero_digest kb Q"

lemma zero_digest_mono: "zero_digest kb Q \<Longrightarrow> Q \<subseteq> Q' \<Longrightarrow> zero_digest kb Q'"
  unfolding zero_digest_def by blast

lemma zero_digest_Un [simp]: "zero_digest kb (Q \<union> Q') \<longleftrightarrow> zero_digest kb Q \<or> zero_digest kb Q'"
  unfolding zero_digest_def by blast

lemma breaks_mono: "breaks kb Q \<Longrightarrow> Q \<subseteq> Q' \<Longrightarrow> breaks kb Q'"
  unfolding breaks_def using collides_mono zero_digest_mono by blast

lemma not_breaksD:
  assumes "\<not> breaks kb Q"
  shows "\<not> collides kb Q" "\<not> zero_digest kb Q"
  using assms by (simp_all add: breaks_def)

lemma not_zero_digestD: "\<not> zero_digest kb Q \<Longrightarrow> (st, b) \<in> Q \<Longrightarrow> CompressPoseidon2 kb st b \<noteq> 0"
  unfolding zero_digest_def by force

text \<open>A call that panics, with an input that compresses to zero to account for it.\<close>

definition zero_panic :: "('f::zero) koalabear \<Rightarrow> ('f octuplet \<times> 'f octuplet) set \<Rightarrow> 'a result \<Rightarrow> bool" where
  "zero_panic kb Q r \<longleftrightarrow> (\<exists>m. r = Inl (Panic m)) \<and> zero_digest kb Q"

lemma zero_panicI: "r = Inl (Panic m) \<Longrightarrow> zero_digest kb Q \<Longrightarrow> zero_panic kb Q r"
  by (simp add: zero_panic_def)

lemma zero_panicD: "zero_panic kb Q r \<Longrightarrow> zero_digest kb Q"
  by (simp add: zero_panic_def)

lemma zero_panic_Inr [simp]: "\<not> zero_panic kb Q (Inr x)"
  by (simp add: zero_panic_def)

lemma zero_panic_bind: "zero_panic kb Q r \<Longrightarrow> Q \<subseteq> Q' \<Longrightarrow> zero_panic kb Q' (rbind r f)"
  unfolding zero_panic_def using zero_digest_mono by fastforce

lemma no_zero_panic: "\<not> zero_digest kb Q \<Longrightarrow> Q' \<subseteq> Q \<Longrightarrow> \<not> zero_panic kb Q' r"
  unfolding zero_panic_def using zero_digest_mono by blast

lemma not_zero_panic_bind: "\<not> zero_panic kb Q (rbind r f) \<Longrightarrow> Q' \<subseteq> Q \<Longrightarrow> \<not> zero_panic kb Q' r"
  using zero_panic_bind by blast

lemma compress_inj:
  "\<not> collides kb Q \<Longrightarrow> (a, b) \<in> Q \<Longrightarrow> (c, d) \<in> Q \<Longrightarrow>
   CompressPoseidon2 kb a b = CompressPoseidon2 kb c d \<Longrightarrow> a = c \<and> b = d"
  unfolding collides_def by fastforce

lemma md_queries_append [simp]:
  "md_queries kb st (xs @ ys) = md_queries kb st xs \<union> md_queries kb (foldl (CompressPoseidon2 kb) st xs) ys"
  by (induction xs arbitrary: st) auto

lemma foldl_compress_inj:
  assumes "\<not> collides kb Q" "length es = length es'"
    "md_queries kb st es \<subseteq> Q" "md_queries kb st' es' \<subseteq> Q"
    "foldl (CompressPoseidon2 kb) st es = foldl (CompressPoseidon2 kb) st' es'"
  shows "st = st' \<and> es = es'"
  using assms(2-5)
proof (induction es es' arbitrary: st st' rule: list_induct2)
  case (Cons x xs y ys)
  have "CompressPoseidon2 kb st x = CompressPoseidon2 kb st' y \<and> xs = ys"
    by (rule Cons.IH) (use Cons.prems in simp_all)
  moreover have "(st, x) \<in> Q" "(st', y) \<in> Q" using Cons.prems by auto
  ultimately show ?case using compress_inj [OF assms(1)] by blast
qed simp

text \<open>The blocks of a message of full blocks.\<close>

function blocks8 :: "('f::zero) list \<Rightarrow> 'f octuplet list" where
  "blocks8 xs = (if length xs < 8 then [] else arr8 xs # blocks8 (drop 8 xs))"
  by pat_completeness auto
termination
  by (relation "measure length") auto

declare blocks8.simps [simp del]

lemma blocks8_concat [simp]: "blocks8 (concat (map oct_list es)) = es"
proof (induction es)
  case (Cons e es)
  then show ?case by (subst blocks8.simps) simp
qed (simp add: blocks8.simps)

lemma blocks8_HashVec:
  assumes "8 dvd length xs"
  shows "HashVec kb xs = foldl (CompressPoseidon2 kb) 0 (blocks8 xs)"
    and "concat (map oct_list (blocks8 xs)) = xs" and "8 * length (blocks8 xs) = length xs"
proof -
  obtain es where es: "xs = concat (map oct_list es)" using blocks_of_list [OF assms] by blast
  show "HashVec kb xs = foldl (CompressPoseidon2 kb) 0 (blocks8 xs)"
    "concat (map oct_list (blocks8 xs)) = xs" "8 * length (blocks8 xs) = length xs"
    by (simp_all add: es HashVec_sum_loop sum_loop_blocks length_concat_const [OF length_oct_list])
qed

lemma HashVec_binding:
  assumes "length xs = length ys" "8 dvd length xs" "HashVec kb xs = HashVec kb ys"
  shows "xs = ys \<or> collides kb (md_queries kb 0 (blocks8 xs) \<union> md_queries kb 0 (blocks8 ys))"
proof -
  let ?Q = "md_queries kb 0 (blocks8 xs) \<union> md_queries kb 0 (blocks8 ys)"
  have d: "8 dvd length ys" using assms(1,2) by simp
  note x = blocks8_HashVec [OF assms(2)] and y = blocks8_HashVec [OF d]
  have "blocks8 xs = blocks8 ys" if "\<not> collides kb ?Q"
    using foldl_compress_inj [OF that, of "blocks8 xs" "blocks8 ys" 0 0] x(1,3) y(1,3) assms(1,3) by simp
  then show ?thesis using x(2) y(2) by metis
qed

text \<open>Left padding makes a short message collide with its padded form.\<close>

lemma HashVec_padding:
  assumes "xs \<noteq> []" "length xs < 8"
  shows "HashVec kb xs = HashVec kb (replicate (8 - length xs) 0 @ xs)"
  using assms sum_loop_block [of "replicate (8 - length xs) 0 @ xs" kb 0 "[]"]
  by (subst HashVec_sum_loop, subst sum_loop.simps)
    (simp add: HashVec_sum_loop BlockSize_def)

text \<open>\<open>Reset\<close> keeps the elements written before it.\<close>

lemma Reset_keeps_buffer: "buffer (Reset (WriteElements d es)) = buffer d @ es"
  by (simp add: Reset_def WriteElements_def)

end
