(* ===== verification/Merkle.thy ===== *)
theory Merkle
  imports Prelude
begin

text \<open>
  The specification of a binary Merkle tree over a node hash \<open>h\<close>: the node at a level above an
  assignment of leaves, the siblings of a leaf, and the climb from a leaf to the root. The sparse
  Merkle trees of the repository are shown to compute these functions.

  The locale \<open>authenticated_vector\<close> is the interface of a tree to its clients: what an update, a
  proof and a root recomputation promise of each other when they return, and that they return at a readable
  position. The accumulator rests on its lemmas only.
\<close>

subsection \<open>Nodes, siblings and climbs\<close>

fun mnode :: "('n \<Rightarrow> 'n \<Rightarrow> 'n) \<Rightarrow> (nat \<Rightarrow> 'n) \<Rightarrow> nat \<Rightarrow> nat \<Rightarrow> 'n" where
  "mnode h f 0 j = f j"
| "mnode h f (Suc l) j = h (mnode h f l (2 * j)) (mnode h f l (2 * j + 1))"

definition sib :: "nat \<Rightarrow> nat" where
  "sib j = (if even j then j + 1 else j - 1)"

definition siblings :: "('n \<Rightarrow> 'n \<Rightarrow> 'n) \<Rightarrow> (nat \<Rightarrow> 'n) \<Rightarrow> nat \<Rightarrow> nat \<Rightarrow> 'n list" where
  "siblings h f d i = map (\<lambda>l. mnode h f l (sib (i div 2 ^ l))) [0..<d]"

fun climb :: "('n \<Rightarrow> 'n \<Rightarrow> 'n) \<Rightarrow> nat \<Rightarrow> 'n \<Rightarrow> 'n list \<Rightarrow> 'n" where
  "climb h i cur [] = cur"
| "climb h i cur (s # ss) = climb h (i div 2) (if odd i then h s cur else h cur s) ss"

lemma sib_bound: "j < 2 ^ Suc k \<Longrightarrow> sib j < 2 ^ Suc k"
  by (auto simp: sib_def elim!: evenE)

lemma sib_neq [simp]: "sib j \<noteq> j" "j \<noteq> sib j"
  by (auto simp: sib_def elim: oddE)

lemma mnode_parent:
  "mnode h f (Suc l) (j div 2) =
     (if odd j then h (mnode h f l (sib j)) (mnode h f l j) else h (mnode h f l j) (mnode h f l (sib j)))"
  by (auto simp: sib_def elim!: evenE oddE)

lemma mnode_upd_other:
  "i div 2 ^ l \<noteq> j \<Longrightarrow> mnode h (f(i := v)) l j = mnode h f l j"
proof (induction l arbitrary: j)
  case (Suc l)
  from Suc.prems have "i div 2 ^ l \<noteq> 2 * j" "i div 2 ^ l \<noteq> 2 * j + 1"
    by (auto simp: div_mult2_eq power_Suc2 simp del: power_Suc)
  with Suc.IH show ?case by simp
qed simp

lemma mnode_const: "mnode h (\<lambda>_. c) l j = mnode h (\<lambda>_. c) l 0"
proof (induction l arbitrary: j)
  case (Suc l)
  show ?case
    by (simp only: mnode.simps Suc.IH [of "2 * j"] Suc.IH [of "2 * j + 1"]
        Suc.IH [of "2 * 0"] Suc.IH [of "2 * 0 + 1"])
qed simp

lemma mnode_cong:
  "(\<And>k. j * 2 ^ l \<le> k \<Longrightarrow> k < (j + 1) * 2 ^ l \<Longrightarrow> f k = g k) \<Longrightarrow> mnode h f l j = mnode h g l j"
proof (induction l arbitrary: j)
  case (Suc l)
  have "mnode h f l (2 * j) = mnode h g l (2 * j)"
    by (rule Suc.IH) (rule Suc.prems, auto simp: algebra_simps)
  moreover have "mnode h f l (2 * j + 1) = mnode h g l (2 * j + 1)"
    by (rule Suc.IH) (rule Suc.prems, auto simp: algebra_simps)
  ultimately show ?case by simp
qed simp

lemma siblings_upd [simp]: "siblings h (f(i := v)) d i = siblings h f d i"
  by (auto simp: siblings_def intro!: mnode_upd_other)

lemma length_siblings [simp]: "length (siblings h f d i) = d"
  by (simp add: siblings_def)

lemma siblings_Suc:
  "siblings h f (Suc d) i = siblings h f d i @ [mnode h f d (sib (i div 2 ^ d))]"
  by (simp add: siblings_def)

lemma climb_append:
  "climb h i cur (ss @ [s]) =
     (let c = climb h i cur ss in if odd (i div 2 ^ length ss) then h s c else h c s)"
  by (induction ss arbitrary: i cur) (simp_all add: div_mult2_eq Let_def)

lemma climb_siblings: "climb h i (f i) (siblings h f d i) = mnode h f d (i div 2 ^ d)"
proof (induction d)
  case 0
  then show ?case by (simp add: siblings_def)
next
  case (Suc d)
  have "climb h i (f i) (siblings h f (Suc d) i) = mnode h f (Suc d) (i div 2 ^ d div 2)"
    by (simp only: siblings_Suc climb_append Suc.IH mnode_parent length_siblings Let_def)
  then show ?case by (simp add: div_mult2_eq power_Suc2 del: power_Suc)
qed

lemma climb_siblings_upd:
  "climb h i v (siblings h f d i) = mnode h (f(i := v)) d (i div 2 ^ d)"
  using climb_siblings [of h i "f(i := v)" d] by simp

subsection \<open>The interface of a tree to its clients\<close>

locale authenticated_vector =
  fixes valid :: "'t \<Rightarrow> bool"
    and width :: "'t \<Rightarrow> nat"
    and leaves :: "'t \<Rightarrow> nat \<Rightarrow> 'n"
    and root :: "'t \<Rightarrow> 'n"
    and update :: "'t \<Rightarrow> int \<Rightarrow> 'n \<Rightarrow> 't result"
    and prove :: "'t \<Rightarrow> int \<Rightarrow> 'p result"
    and recover :: "'p \<Rightarrow> 'n \<Rightarrow> 'n result"
    and position :: "'p \<Rightarrow> int"
    and readable :: "'t \<Rightarrow> nat \<Rightarrow> bool"
    and h :: "'n \<Rightarrow> 'n \<Rightarrow> 'n"
  assumes update_law: "valid t \<Longrightarrow> i < 2 ^ width t \<Longrightarrow> update t (int i) v = Inr t' \<Longrightarrow>
      valid t' \<and> width t' = width t \<and> leaves t' = (leaves t)(i := v)"
    and update_total: "valid t \<Longrightarrow> i < 2 ^ width t \<Longrightarrow> readable t i \<Longrightarrow> \<exists>t'. update t (int i) v = Inr t'"
    and root_law: "valid t \<Longrightarrow> root t = mnode h (leaves t) (width t) 0"
    and prove_law: "valid t \<Longrightarrow> i < 2 ^ width t \<Longrightarrow> prove t (int i) = Inr p \<Longrightarrow>
      position p = int i \<and> recover p v = Inr (mnode h ((leaves t)(i := v)) (width t) 0)"
    and prove_total: "valid t \<Longrightarrow> i < 2 ^ width t \<Longrightarrow> readable t i \<Longrightarrow> \<exists>p. prove t (int i) = Inr p"
    and readable_law: "readable t i \<Longrightarrow> width t' = width t \<Longrightarrow> leaves t' = (leaves t)(i := v) \<Longrightarrow> readable t' i"
begin

lemma proves_leaf:
  assumes "valid t" "i < 2 ^ width t" "prove t (int i) = Inr p"
  shows "position p = int i" "recover p (leaves t i) = Inr (root t)"
  using prove_law [OF assms, of "leaves t i"] root_law [OF assms(1)] by simp_all

text \<open>A proof taken after an update authenticates the old leaf against the old root and the new
  leaf against the new root: this is what an auditor of a single-leaf update replays.\<close>

lemma update_replay:
  assumes "valid t" "i < 2 ^ width t" "update t (int i) v = Inr t'" "prove t' (int i) = Inr p"
  shows "position p = int i" "recover p (leaves t i) = Inr (root t)" "recover p v = Inr (root t')"
proof -
  have t': "valid t'" "width t' = width t" "leaves t' = (leaves t)(i := v)"
    using update_law [OF assms(1-3)] by simp_all
  then have "i < 2 ^ width t'" using assms(2) by simp
  note p = prove_law [OF t'(1) this assms(4)]
  show "position p = int i" by (rule conjunct1 [OF p])
  show "recover p (leaves t i) = Inr (root t)"
    using p [of "leaves t i"] t'(2,3) root_law [OF assms(1)] by simp
  show "recover p v = Inr (root t')"
    using p [of v] t'(3) root_law [OF t'(1)] by simp
qed

lemma update_prove_total:
  assumes "valid t" "i < 2 ^ width t" "readable t i"
  obtains t' p where "update t (int i) v = Inr t'" "prove t' (int i) = Inr p"
proof -
  obtain t' where t': "update t (int i) v = Inr t'" using update_total [OF assms] by blast
  have "valid t'" "width t' = width t" "leaves t' = (leaves t)(i := v)"
    using update_law [OF assms(1,2) t'] by simp_all
  then show thesis
    using prove_total [of t' i] readable_law [OF assms(3), of t' v] assms(2) t' that by auto
qed

end

end
