(* ===== verification/Smt.thy ===== *)
theory Smt
  imports Poseidon Merkle
begin

unbundle bit_operations_syntax

text \<open>
  The sparse Merkle tree of \<open>src/prover/crypto/state-management/smt_koalabear\<close>: \<open>tree.go\<close>,
  \<open>update.go\<close> and \<open>proof.go\<close>. A tree stores only a prefix of each level; what lies beyond is the
  empty node of the level. \<open>tree_ok\<close> is the representation invariant (every stored or implied node
  is the hash of its children, up to the root), \<open>leaf_at\<close> the abstraction function, and the tree
  refines the Merkle specification of \<open>Merkle\<close>.
\<close>

subsection \<open>Data\<close>

record 'f tree =
  Depth :: nat
  Root :: "'f octuplet"
  OccupiedLeaves :: "'f octuplet list"
  OccupiedNodes :: "'f octuplet list list"
  EmptyNodes :: "'f octuplet list"

record 'f proof_rec =
  Path :: int
  Siblings :: "'f octuplet list"

record 'f ProvedClaim =
  claim_Proof :: "'f proof_rec"
  claim_Root :: "'f octuplet"
  claim_Leaf :: "'f octuplet"

definition EmptyLeaf :: "('f::zero) octuplet" where
  "EmptyLeaf = 0"

definition hashLR ::
  "('f::zero) koalabear \<Rightarrow> 'f mdhasher \<Rightarrow> 'f octuplet \<Rightarrow> 'f octuplet \<Rightarrow> 'f octuplet \<times> 'f mdhasher" where
  "hashLR kb hasher nodeL nodeR =
     (let hasher = Reset hasher;
          hasher = WriteElements hasher (oct_list nodeL);
          hasher = WriteElements hasher (oct_list nodeR)
      in SumElement kb hasher)"

subsection \<open>Construction\<close>

fun empty_nodes_loop ::
  "('f::zero) koalabear \<Rightarrow> 'f mdhasher \<Rightarrow> 'f octuplet \<Rightarrow> nat \<Rightarrow>
   'f octuplet list \<times> 'f octuplet \<times> 'f mdhasher" where
  "empty_nodes_loop kb hasher prevNode 0 = ([], prevNode, hasher)"
| "empty_nodes_loop kb hasher prevNode (Suc n) =
     (let (newNode, hasher) = hashLR kb hasher prevNode prevNode;
          (rest, last, hasher) = empty_nodes_loop kb hasher newNode n
      in (newNode # rest, last, hasher))"

definition NewEmptyTree :: "('f::zero) koalabear \<Rightarrow> int list \<Rightarrow> 'f tree" where
  "NewEmptyTree kb depths =
     (let depth = (case depths of [] \<Rightarrow> 40 | d # _ \<Rightarrow> if 0 < d then nat d else 40);
          (emptyNodes, prevNode, hasher) = empty_nodes_loop kb NewMDHasher EmptyLeaf (depth - 1);
          (root, _) = hashLR kb hasher prevNode prevNode
      in \<lparr>Depth = depth, Root = root, OccupiedLeaves = [],
          OccupiedNodes = replicate (depth - 1) [], EmptyNodes = emptyNodes\<rparr>)"

subsection \<open>Reading nodes\<close>

definition GetRoot :: "'f tree \<Rightarrow> 'f octuplet" where
  "GetRoot t = Root t"

definition GetLeaf :: "('f::zero) tree \<Rightarrow> int \<Rightarrow> 'f octuplet result" where
  "GetLeaf t pos =
     (let maxPos = shl1 (Depth t)
      in if pos \<ge> maxPos then Inl (Err ''out of bound'')
         else if pos < 0 then Inl (Err ''negative position'')
         else if pos \<ge> int (length (OccupiedLeaves t)) then Inr EmptyLeaf
         else index (OccupiedLeaves t) pos)"

definition MustGetLeaf :: "('f::zero) tree \<Rightarrow> int \<Rightarrow> 'f octuplet result" where
  "MustGetLeaf t pos =
     (case GetLeaf t pos of Inl _ \<Rightarrow> Inl (Panic ''could not get leaf'') | Inr l \<Rightarrow> Inr l)"

definition getNode :: "('f::zero) tree \<Rightarrow> nat \<Rightarrow> int \<Rightarrow> 'f octuplet result" where
  "getNode t level posInLevel =
     (if level = Depth t then
        if posInLevel > 0 then Inl (Panic ''there is only one root'')
        else if Root t = 0 then Inl (Panic ''sanity-check failed : the root is zero.'')
        else Inr (Root t)
      else if 1 \<le> level \<and> level \<le> Depth t - 1 then
        if posInLevel \<ge> shl1 (Depth t - level) then Inl (Panic ''nodeID is out of bound'')
        else rbind (index (OccupiedNodes t) (int level - 1)) (\<lambda>nodes.
          if posInLevel \<ge> int (length nodes) then index (EmptyNodes t) (int level - 1)
          else rbind (index nodes posInLevel) (\<lambda>res.
            if res = 0 then Inl (Panic ''sanity-check : intermediary node is 0'') else Inr res))
      else if level = 0 then
        case GetLeaf t posInLevel of
          Inl _ \<Rightarrow> Inl (Panic ''node corresponds to an OOB leaf'')
        | Inr leaf \<Rightarrow> Inr leaf
      else Inl (Panic ''Got level''))"

subsection \<open>Updating\<close>

definition reserveLevel :: "('f::zero) tree \<Rightarrow> nat \<Rightarrow> int \<Rightarrow> 'f tree result" where
  "reserveLevel t level newSize =
     (if level > Depth t then Inl (Panic ''level out of bound'')
      else if level = Depth t then Inl (Panic ''tried extending the root level'')
      else if newSize > shl1 (Depth t - level) then Inl (Panic ''overextending the tree'')
      else if level = 0 then
        if newSize \<le> int (length (OccupiedLeaves t)) then Inr t
        else Inr (t\<lparr>OccupiedLeaves := OccupiedLeaves t @
                    replicate (nat (newSize - int (length (OccupiedLeaves t)))) EmptyLeaf\<rparr>)
      else rbind (index (OccupiedNodes t) (int level - 1)) (\<lambda>nodes.
        if newSize \<le> int (length nodes) then Inr t
        else rbind (index (EmptyNodes t) (int level - 1)) (\<lambda>empty.
          Inr (t\<lparr>OccupiedNodes := (OccupiedNodes t)[level - 1 :=
                 nodes @ replicate (nat (newSize - int (length nodes))) empty]\<rparr>))))"

definition updateNode :: "('f::zero) tree \<Rightarrow> nat \<Rightarrow> int \<Rightarrow> 'f octuplet \<Rightarrow> 'f tree result" where
  "updateNode t level posInLevel newVal =
     (if level = Depth t then
        if posInLevel > 0 then Inl (Panic ''there is only one root'')
        else if Root t = 0 then Inl (Panic ''sanity-check failed : the root is zero.'')
        else Inr (t\<lparr>Root := newVal\<rparr>)
      else if 1 \<le> level \<and> level < Depth t then
        if posInLevel \<ge> shl1 (Depth t - level) then Inl (Panic ''node is out of bound'')
        else rbind (index (OccupiedNodes t) (int level - 1)) (\<lambda>nodes.
             rbind (if posInLevel \<ge> int (length nodes) then reserveLevel t level (posInLevel + 1)
                    else Inr t) (\<lambda>t.
             rbind (index (OccupiedNodes t) (int level - 1)) (\<lambda>nodes.
             rbind (set_index nodes posInLevel newVal) (\<lambda>nodes.
               Inr (t\<lparr>OccupiedNodes := (OccupiedNodes t)[level - 1 := nodes]\<rparr>)))))
      else if level = 0 then
        if posInLevel \<ge> shl1 (Depth t) then Inl (Panic ''nodeID is out of bound'')
        else rbind (if posInLevel \<ge> int (length (OccupiedLeaves t))
                    then reserveLevel t 0 (posInLevel + 1) else Inr t) (\<lambda>t.
             rbind (set_index (OccupiedLeaves t) posInLevel newVal) (\<lambda>ls.
               Inr (t\<lparr>OccupiedLeaves := ls\<rparr>)))
      else Inl (Panic ''Got level''))"

text \<open>The loop of \<open>Update\<close>; \<open>n\<close> is the number of levels left, \<open>t.Depth - level\<close>.\<close>

fun Update_loop ::
  "('f::zero) koalabear \<Rightarrow> 'f mdhasher \<Rightarrow> nat \<Rightarrow> nat \<Rightarrow> 'f tree \<Rightarrow> int \<Rightarrow> 'f octuplet \<Rightarrow>
   ('f tree \<times> int \<times> 'f octuplet) result" where
  "Update_loop kb hasher level 0 t idx current = Inr (t, idx, current)"
| "Update_loop kb hasher level (Suc n) t idx current =
     rbind (updateNode t level idx current) (\<lambda>t.
     rbind (getNode t level (idx XOR 1)) (\<lambda>sibling.
       let (left, right) = (if idx AND 1 = 1 then (sibling, current) else (current, sibling));
           (current, hasher) = hashLR kb hasher left right
       in Update_loop kb hasher (Suc level) n t (drop_bit 1 idx) current))"

definition Update ::
  "('f::zero) koalabear \<Rightarrow> 'f tree \<Rightarrow> int \<Rightarrow> 'f octuplet \<Rightarrow> 'f tree result" where
  "Update kb t pos newVal =
     (if pos \<ge> shl1 (Depth t) then Inl (Panic ''out of bound'')
      else rbind (Update_loop kb NewMDHasher 0 (Depth t) t pos newVal) (\<lambda>(t, idx, current).
        if idx \<noteq> 0 then Inl (Panic ''idx should be zero'')
        else Inr (t\<lparr>Root := current\<rparr>)))"

subsection \<open>Proofs\<close>

fun Prove_loop :: "('f::zero) tree \<Rightarrow> nat \<Rightarrow> nat \<Rightarrow> int \<Rightarrow> ('f octuplet list \<times> int) result" where
  "Prove_loop t level 0 idx = Inr ([], idx)"
| "Prove_loop t level (Suc n) idx =
     rbind (getNode t level (idx XOR 1)) (\<lambda>sibling.
     rbind (Prove_loop t (Suc level) n (drop_bit 1 idx)) (\<lambda>(siblings, idx).
       Inr (sibling # siblings, idx)))"

definition Prove :: "('f::zero) tree \<Rightarrow> int \<Rightarrow> 'f proof_rec result" where
  "Prove t pos =
     (if pos \<ge> shl1 (Depth t) then Inl (Err ''pos is too high'')
      else if pos < 0 then Inl (Err ''pos is negative'')
      else rbind (Prove_loop t 0 (Depth t) pos) (\<lambda>(siblings, idx).
        if idx \<noteq> 0 then Inl (Panic ''idx should be zero'')
        else Inr \<lparr>Path = pos, Siblings = siblings\<rparr>))"

definition MustProve :: "('f::zero) tree \<Rightarrow> int \<Rightarrow> 'f proof_rec result" where
  "MustProve t pos =
     (case Prove t pos of Inl _ \<Rightarrow> Inl (Panic ''could not prove'') | Inr p \<Rightarrow> Inr p)"

fun RecoverRoot_loop ::
  "('f::zero) koalabear \<Rightarrow> 'f mdhasher \<Rightarrow> int \<Rightarrow> 'f octuplet \<Rightarrow> 'f octuplet list \<Rightarrow> 'f octuplet \<times> int" where
  "RecoverRoot_loop kb hasher idx current [] = (current, idx)"
| "RecoverRoot_loop kb hasher idx current (sibling # rest) =
     (let (left, right) = (if idx AND 1 = 1 then (sibling, current) else (current, sibling));
          (current, hasher) = hashLR kb hasher left right
      in RecoverRoot_loop kb hasher (drop_bit 1 idx) current rest)"

definition RecoverRoot ::
  "('f::zero) koalabear \<Rightarrow> 'f proof_rec \<Rightarrow> 'f octuplet \<Rightarrow> 'f octuplet result" where
  "RecoverRoot kb p leaf =
     (let (current, idx) = RecoverRoot_loop kb NewMDHasher (Path p) leaf (Siblings p)
      in if idx \<noteq> 0 then Inl (Panic ''idx should be zero'') else Inr current)"

definition Verify ::
  "('f::zero) koalabear \<Rightarrow> 'f proof_rec \<Rightarrow> 'f octuplet \<Rightarrow> 'f octuplet \<Rightarrow> unit result" where
  "Verify kb p leaf root =
     rbind (RecoverRoot kb p leaf) (\<lambda>actual.
       if list_all2 (=) (oct_list actual) (oct_list root) then Inr ()
       else Inl (Err ''cannot verify Merkle proof''))"

subsection \<open>The node hash\<close>

definition hash2 :: "('f::zero) koalabear \<Rightarrow> 'f octuplet \<Rightarrow> 'f octuplet \<Rightarrow> 'f octuplet" where
  "hash2 kb l r = CompressPoseidon2 kb (CompressPoseidon2 kb 0 l) r"

text \<open>\<open>Reset\<close> does not empty the buffer, but a hasher whose buffer is empty stays so between two
  node hashes, because \<open>SumElement\<close> flushes it.\<close>

lemma hashLR_flushed:
  assumes "buffer hs = []"
  shows "fst (hashLR kb hs l r) = hash2 kb l r" and "buffer (snd (hashLR kb hs l r)) = []"
  using assms sum_loop_octuplet [of kb 0 l "oct_list r"]
    sum_loop_octuplet [of kb "CompressPoseidon2 kb 0 l" r "[]"]
  by (simp_all add: hashLR_def Let_def SumElement_fst WriteElements_def Reset_def hash2_def)

lemma buffer_NewMDHasher [simp]: "buffer NewMDHasher = []"
  by (simp add: NewMDHasher_def)

lemma hashLR_split:
  "buffer hs = [] \<Longrightarrow>
   (case hashLR kb hs l r of (c, hs') \<Rightarrow> F c hs') = F (hash2 kb l r) (snd (hashLR kb hs l r))"
  using hashLR_flushed(1) [of hs kb l r] by (cases "hashLR kb hs l r") simp

subsection \<open>Positions\<close>

lemma idx_bits:
  "int j XOR 1 = int (sib j)" "(int j AND 1 = 1) = odd j" "drop_bit 1 (int j) = int (j div 2)"
  "drop_bit (Suc 0) (int j) = int (j div 2)"
proof -
  show "int j XOR 1 = int (sib j)"
    by (cases "even j") (auto simp: sib_def xor_one_eq elim!: evenE oddE)
  show "(int j AND 1 = 1) = odd j"
    unfolding and_one_eq by presburger
  show "drop_bit 1 (int j) = int (j div 2)" "drop_bit (Suc 0) (int j) = int (j div 2)"
    by (simp_all add: drop_bit_Suc zdiv_int)
qed

lemma RecoverRoot_loop_climb:
  "buffer hs = [] \<Longrightarrow>
   RecoverRoot_loop kb hs (int i) cur ss = (climb (hash2 kb) i cur ss, int (i div 2 ^ length ss))"
proof (induction ss arbitrary: hs i cur)
  case (Cons x xs)
  show ?case
    using Cons.IH [of "snd (hashLR kb hs (if odd i then x else cur) (if odd i then cur else x))"]
      hashLR_flushed [OF Cons.prems]
    by (auto simp: idx_bits hashLR_split [OF Cons.prems] div_mult2_eq)
qed simp

lemma RecoverRoot_climb:
  assumes "Path p = int i" "i < 2 ^ length (Siblings p)"
  shows "RecoverRoot kb p leaf = Inr (climb (hash2 kb) i leaf (Siblings p))"
  using assms by (simp add: RecoverRoot_def RecoverRoot_loop_climb)

lemma drop_bit_neg: "x < 0 \<Longrightarrow> drop_bit 1 x < (0::int)"
  by (simp add: drop_bit_Suc)

lemma RecoverRoot_loop_neg:
  "idx < 0 \<Longrightarrow> snd (RecoverRoot_loop kb hs idx cur ss) < 0"
proof (induction ss arbitrary: hs idx cur)
  case (Cons x xs)
  then show ?case
    by (auto simp: Let_def split_beta drop_bit_neg)
qed simp

lemma RecoverRoot_Inr:
  assumes "RecoverRoot kb p leaf = Inr r"
  obtains i where "Path p = int i" "i < 2 ^ length (Siblings p)"
    "r = climb (hash2 kb) i leaf (Siblings p)"
proof -
  have "0 \<le> Path p"
    using assms RecoverRoot_loop_neg [of "Path p" kb NewMDHasher leaf "Siblings p"]
    by (auto simp: RecoverRoot_def split: prod.splits if_splits simp flip: not_less)
  then obtain i where i: "Path p = int i" by (metis nonneg_int_cases)
  with assms have "i div 2 ^ length (Siblings p) = 0" "r = climb (hash2 kb) i leaf (Siblings p)"
    by (auto simp: RecoverRoot_def RecoverRoot_loop_climb split: if_splits)
  then show thesis using that i by (auto simp: div_eq_0_iff)
qed

lemma Verify_Inr_iff: "Verify kb p leaf root = Inr u \<longleftrightarrow> RecoverRoot kb p leaf = Inr root"
  by (auto simp: Verify_def result_simps list.rel_eq split: if_splits)

subsection \<open>The representation\<close>

definition leaf_at :: "('f::zero) tree \<Rightarrow> nat \<Rightarrow> 'f octuplet" where
  "leaf_at t i = (if i < length (OccupiedLeaves t) then OccupiedLeaves t ! i else 0)"

definition node_at :: "('f::zero) tree \<Rightarrow> nat \<Rightarrow> nat \<Rightarrow> 'f octuplet" where
  "node_at t l j =
     (if l = 0 then leaf_at t j
      else if j < length (OccupiedNodes t ! (l - 1)) then OccupiedNodes t ! (l - 1) ! j
      else EmptyNodes t ! (l - 1))"

definition tree_shape :: "'f tree \<Rightarrow> bool" where
  "tree_shape t \<longleftrightarrow>
     1 \<le> Depth t \<and> Depth t \<le> 62 \<and>
     length (OccupiedNodes t) = Depth t - 1 \<and> length (EmptyNodes t) = Depth t - 1 \<and>
     length (OccupiedLeaves t) \<le> 2 ^ Depth t \<and>
     (\<forall>l. 1 \<le> l \<and> l < Depth t \<longrightarrow> length (OccupiedNodes t ! (l - 1)) \<le> 2 ^ (Depth t - l))"

definition tree_ok :: "('f::zero) koalabear \<Rightarrow> 'f tree \<Rightarrow> bool" where
  "tree_ok kb t \<longleftrightarrow>
     tree_shape t \<and>
     (\<forall>l j. 1 \<le> l \<and> l < Depth t \<and> j < 2 ^ (Depth t - l) \<longrightarrow>
        node_at t l j = mnode (hash2 kb) (leaf_at t) l j) \<and>
     Root t = mnode (hash2 kb) (leaf_at t) (Depth t) 0"

lemma tree_shapeD:
  assumes "tree_shape t"
  shows "1 \<le> Depth t" "Depth t \<le> 62" "length (OccupiedNodes t) = Depth t - 1"
    "length (EmptyNodes t) = Depth t - 1" "length (OccupiedLeaves t) \<le> 2 ^ Depth t"
    "1 \<le> l \<Longrightarrow> l < Depth t \<Longrightarrow> length (OccupiedNodes t ! (l - 1)) \<le> 2 ^ (Depth t - l)"
  using assms by (auto simp: tree_shape_def)

lemma int_less_pow: "j < 2 ^ d \<Longrightarrow> int j < 2 ^ d"
  by (metis of_nat_less_iff of_nat_numeral of_nat_power)

lemma shl1_of_shape: "tree_shape t \<Longrightarrow> shl1 (Depth t - l) = 2 ^ (Depth t - l)"
  using tree_shapeD(2) [of t] by (intro shl1_small) linarith

lemma GetLeaf_leaf_at:
  "tree_shape t \<Longrightarrow> i < 2 ^ Depth t \<Longrightarrow> GetLeaf t (int i) = Inr (leaf_at t i)"
  by (auto simp: GetLeaf_def leaf_at_def EmptyLeaf_def index_def Let_def tree_shapeD int_less_pow
      not_le)

lemma GetLeaf_out_of_bound:
  "tree_shape t \<Longrightarrow> pos < 0 \<or> 2 ^ Depth t \<le> pos \<Longrightarrow> \<exists>m. GetLeaf t pos = Inl (Err m)"
  by (auto simp: GetLeaf_def Let_def tree_shapeD)

lemma getNode_node_at:
  assumes "tree_shape t" "l < Depth t" "j < 2 ^ (Depth t - l)" "1 \<le> l \<Longrightarrow> node_at t l j \<noteq> 0"
  shows "getNode t l (int j) = Inr (node_at t l j)"
proof (cases "l = 0")
  case True
  with assms show ?thesis by (simp add: getNode_def node_at_def GetLeaf_leaf_at)
next
  case False
  have "index (OccupiedNodes t) (int l - 1) = Inr (OccupiedNodes t ! (l - 1))"
    "index (EmptyNodes t) (int l - 1) = Inr (EmptyNodes t ! (l - 1))"
    using False assms(2) tree_shapeD(3,4) [OF assms(1)]
    by (auto simp: index_def nat_diff_distrib)
  with False assms int_less_pow [OF assms(3)] show ?thesis
    by (auto simp: getNode_def node_at_def shl1_of_shape index_def split: if_splits)
qed

text \<open>Reading an inner node panics only if it is zero.\<close>

lemma getNode_cases:
  assumes "tree_shape t" "l < Depth t" "j < 2 ^ (Depth t - l)"
  shows "getNode t l (int j) = Inr (node_at t l j) \<or> (1 \<le> l \<and> node_at t l j = 0 \<and> (\<exists>m. getNode t l (int j) = Inl (Panic m)))"
proof (cases "1 \<le> l \<and> node_at t l j = 0")
  case True
  have "index (OccupiedNodes t) (int l - 1) = Inr (OccupiedNodes t ! (l - 1))"
    "index (EmptyNodes t) (int l - 1) = Inr (EmptyNodes t ! (l - 1))"
    using True assms(2) tree_shapeD(3,4) [OF assms(1)] by (auto simp: index_def nat_diff_distrib)
  with True assms int_less_pow [OF assms(3)] show ?thesis
    by (auto simp: getNode_def node_at_def shl1_of_shape index_def split: if_splits)
qed (use getNode_node_at [OF assms] in blast)

lemma reserveLevel_nodes:
  assumes "tree_shape t" "1 \<le> l" "l < Depth t" "j < 2 ^ (Depth t - l)"
    "length (OccupiedNodes t ! (l - 1)) \<le> j"
  shows "reserveLevel t l (int j + 1) =
    Inr (t\<lparr>OccupiedNodes := (OccupiedNodes t)[l - 1 := OccupiedNodes t ! (l - 1) @
      replicate (Suc j - length (OccupiedNodes t ! (l - 1))) (EmptyNodes t ! (l - 1))]\<rparr>)"
proof -
  have "index (OccupiedNodes t) (int l - 1) = Inr (OccupiedNodes t ! (l - 1))"
    "index (EmptyNodes t) (int l - 1) = Inr (EmptyNodes t ! (l - 1))"
    using assms(2,3) tree_shapeD(3,4) [OF assms(1)]
    by (auto simp: index_def nat_diff_distrib)
  moreover have "int j + 1 \<le> 2 ^ (Depth t - l)"
    using int_less_pow [OF assms(4)] by linarith
  moreover have "nat (int j + 1 - int (length (OccupiedNodes t ! (l - 1)))) =
      Suc j - length (OccupiedNodes t ! (l - 1))"
    by simp
  ultimately show ?thesis
    using assms by (simp add: reserveLevel_def shl1_of_shape)
qed

lemma reserveLevel_leaves:
  assumes "tree_shape t" "j < 2 ^ Depth t" "length (OccupiedLeaves t) \<le> j"
  shows "reserveLevel t 0 (int j + 1) =
    Inr (t\<lparr>OccupiedLeaves := OccupiedLeaves t @ replicate (Suc j - length (OccupiedLeaves t)) 0\<rparr>)"
proof -
  have "int j + 1 \<le> 2 ^ Depth t" using int_less_pow [OF assms(2)] by linarith
  moreover have "nat (int j + 1 - int (length (OccupiedLeaves t))) = Suc j - length (OccupiedLeaves t)"
    by simp
  ultimately show ?thesis
    using assms tree_shapeD(1,2) [OF assms(1)] by (simp add: reserveLevel_def EmptyLeaf_def)
qed

text \<open>Writing one node changes that node only; the levels stay within their widths.\<close>

lemma updateNode_leaf:
  assumes "tree_shape t" "j < 2 ^ Depth t"
  obtains ls where "updateNode t 0 (int j) v = Inr (t\<lparr>OccupiedLeaves := ls\<rparr>)"
    "length ls \<le> 2 ^ Depth t" "\<And>k. (if k < length ls then ls ! k else 0) = ((leaf_at t)(j := v)) k"
proof -
  let ?ls = "OccupiedLeaves t"
  let ?ext = "?ls @ replicate (Suc j - length ?ls) 0"
  have "updateNode t 0 (int j) v = Inr (t\<lparr>OccupiedLeaves := ?ext[j := v]\<rparr>)"
    using assms tree_shapeD(1,2) [OF assms(1)] int_less_pow [OF assms(2)]
    by (cases "length ?ls \<le> j")
      (simp_all add: updateNode_def reserveLevel_leaves set_index_def list_update_append)
  moreover have "length (?ext[j := v]) \<le> 2 ^ Depth t"
    using assms(2) tree_shapeD(5) [OF assms(1)] by simp
  moreover have "(if k < length (?ext[j := v]) then ?ext[j := v] ! k else 0) = ((leaf_at t)(j := v)) k" for k
    by (auto simp: leaf_at_def nth_list_update nth_append)
  ultimately show thesis using that by blast
qed

lemma updateNode_inner:
  assumes "tree_shape t" "1 \<le> l" "l < Depth t" "j < 2 ^ (Depth t - l)"
  obtains ns where "updateNode t l (int j) v = Inr (t\<lparr>OccupiedNodes := (OccupiedNodes t)[l - 1 := ns]\<rparr>)"
    "length ns \<le> 2 ^ (Depth t - l)"
    "\<And>k. (if k < length ns then ns ! k else EmptyNodes t ! (l - 1)) = ((node_at t l)(j := v)) k"
proof -
  let ?ns = "OccupiedNodes t ! (l - 1)"
  let ?ext = "?ns @ replicate (Suc j - length ?ns) (EmptyNodes t ! (l - 1))"
  have ix: "l - 1 < length (OccupiedNodes t)"
    using assms(2,3) tree_shapeD(3) [OF assms(1)] by simp
  then have "index (OccupiedNodes t) (int l - 1) = Inr ?ns"
    using assms(2) by (simp add: index_def nat_diff_distrib)
  moreover have "index ((OccupiedNodes t)[l - 1 := x]) (int l - 1) = Inr x" for x
    using assms(2) ix by (simp add: index_def nat_diff_distrib)
  ultimately have "updateNode t l (int j) v =
      Inr (t\<lparr>OccupiedNodes := (OccupiedNodes t)[l - 1 := ?ext[j := v]]\<rparr>)"
    using assms int_less_pow [OF assms(4)]
    by (cases "length ?ns \<le> j")
      (simp_all add: updateNode_def reserveLevel_nodes shl1_of_shape set_index_def list_update_append)
  moreover have "length (?ext[j := v]) \<le> 2 ^ (Depth t - l)"
    using assms tree_shapeD(6) [OF assms(1-3)] by simp
  moreover have "(if k < length (?ext[j := v]) then ?ext[j := v] ! k else EmptyNodes t ! (l - 1)) =
      ((node_at t l)(j := v)) k" for k
    using assms(2) by (auto simp: node_at_def nth_list_update nth_append)
  ultimately show thesis using that by blast
qed

lemma updateNode_node_at:
  assumes "tree_shape t" "l < Depth t" "j < 2 ^ (Depth t - l)"
  obtains t' where "updateNode t l (int j) v = Inr t'" "tree_shape t'" "Depth t' = Depth t"
    "\<And>l' j'. l' < Depth t \<Longrightarrow> node_at t' l' j' = (if l' = l \<and> j' = j then v else node_at t l' j')"
proof (cases "l = 0")
  case True
  with assms(3) have "j < 2 ^ Depth t" by simp
  then obtain ls where ls: "updateNode t 0 (int j) v = Inr (t\<lparr>OccupiedLeaves := ls\<rparr>)"
    "length ls \<le> 2 ^ Depth t" "\<And>k. (if k < length ls then ls ! k else 0) = ((leaf_at t)(j := v)) k"
    using updateNode_leaf [OF assms(1)] by blast
  have "tree_shape (t\<lparr>OccupiedLeaves := ls\<rparr>)"
    using assms(1) ls(2) by (simp add: tree_shape_def)
  moreover have "node_at (t\<lparr>OccupiedLeaves := ls\<rparr>) l' j' =
      (if l' = l \<and> j' = j then v else node_at t l' j')" for l' j'
    using ls(3) [of j'] True by (auto simp: node_at_def leaf_at_def)
  ultimately show thesis using that ls(1) True by simp
next
  case False
  then have l: "1 \<le> l" by simp
  obtain ns where ns: "updateNode t l (int j) v = Inr (t\<lparr>OccupiedNodes := (OccupiedNodes t)[l - 1 := ns]\<rparr>)"
    "length ns \<le> 2 ^ (Depth t - l)"
    "\<And>k. (if k < length ns then ns ! k else EmptyNodes t ! (l - 1)) = ((node_at t l)(j := v)) k"
    using updateNode_inner [OF assms(1) l assms(2,3)] by blast
  let ?t = "t\<lparr>OccupiedNodes := (OccupiedNodes t)[l - 1 := ns]\<rparr>"
  have ix: "l - 1 < length (OccupiedNodes t)"
    using assms(2) l tree_shapeD(3) [OF assms(1)] by simp
  have "(OccupiedNodes t)[l - 1 := ns] ! (l' - 1) = (if l' = l then ns else OccupiedNodes t ! (l' - 1))"
    if "1 \<le> l'" for l'
    using that l ix by (auto simp: nth_list_update)
  then have "tree_shape ?t"
    using assms(1) ns(2) by (auto simp: tree_shape_def)
  moreover have "node_at ?t l' j' = (if l' = l \<and> j' = j then v else node_at t l' j')" for l' j'
    using ns(3) [of j'] l ix
    by (cases "l' = l") (auto simp: node_at_def leaf_at_def nth_list_update)
  ultimately show thesis using that ns(1) by simp
qed

subsection \<open>Correctness of the operations\<close>

text \<open>
  Halfway through \<open>Update\<close>, the levels below \<open>level\<close> hold the nodes over the new leaves \<open>g\<close> and the
  others still hold those over the old leaves \<open>f\<close>.
\<close>

definition nodes_between ::
  "('f::zero) koalabear \<Rightarrow> 'f tree \<Rightarrow> (nat \<Rightarrow> 'f octuplet) \<Rightarrow> (nat \<Rightarrow> 'f octuplet) \<Rightarrow> nat \<Rightarrow> bool" where
  "nodes_between kb t f g level \<longleftrightarrow>
     (\<forall>l j. l < Depth t \<and> j < 2 ^ (Depth t - l) \<longrightarrow>
        node_at t l j = mnode (hash2 kb) (if l < level then g else f) l j)"

lemma nodes_betweenD:
  "nodes_between kb t f g level \<Longrightarrow> l < Depth t \<Longrightarrow> j < 2 ^ (Depth t - l) \<Longrightarrow>
   node_at t l j = mnode (hash2 kb) (if l < level then g else f) l j"
  by (simp add: nodes_between_def)

lemma node_index_bound:
  fixes i d l :: nat
  assumes "i < 2 ^ d" "l < d"
  shows "i div 2 ^ l < 2 ^ (d - l)" "sib (i div 2 ^ l) < 2 ^ (d - l)"
proof -
  have d: "(2::nat) ^ d = 2 ^ (d - l) * 2 ^ l"
    using assms(2) by (simp flip: power_add)
  with assms(1) show *: "i div 2 ^ l < 2 ^ (d - l)"
    by (simp add: less_mult_imp_div_less)
  obtain k where "d - l = Suc k" using assms(2) by (metis Suc_diff_Suc)
  with * show "sib (i div 2 ^ l) < 2 ^ (d - l)" by (simp only: sib_bound)
qed

text \<open>Some inner node that is a sibling on the path of leaf \<open>i\<close> is zero: the sanity checks of the tree may panic on it.\<close>

definition zero_sibling :: "('f::zero) koalabear \<Rightarrow> (nat \<Rightarrow> 'f octuplet) \<Rightarrow> nat \<Rightarrow> nat \<Rightarrow> bool" where
  "zero_sibling kb f d i \<longleftrightarrow> (\<exists>l. 1 \<le> l \<and> l < d \<and> mnode (hash2 kb) f l (sib (i div 2 ^ l)) = 0)"

lemma sibling_upd: "mnode (hash2 kb) (f(i := v)) l (sib (i div 2 ^ l)) = mnode (hash2 kb) f l (sib (i div 2 ^ l))"
  by (rule mnode_upd_other) simp

lemma zero_sibling_upd [simp]: "zero_sibling kb (f(i := v)) d i = zero_sibling kb f d i"
  by (simp add: zero_sibling_def sibling_upd)

lemma Update_step:
  assumes "tree_shape t" "l < Depth t" "i < 2 ^ Depth t" "nodes_between kb t f (f(i := v)) l"
  obtains t' where
    "updateNode t l (int (i div 2 ^ l)) (mnode (hash2 kb) (f(i := v)) l (i div 2 ^ l)) = Inr t'"
    "tree_shape t'" "Depth t' = Depth t" "nodes_between kb t' f (f(i := v)) (Suc l)"
    "getNode t' l (int (sib (i div 2 ^ l))) = Inr (mnode (hash2 kb) (f(i := v)) l (sib (i div 2 ^ l))) \<or>
       zero_sibling kb f (Depth t) i \<and> (\<exists>m. getNode t' l (int (sib (i div 2 ^ l))) = Inl (Panic m))"
proof -
  let ?g = "f(i := v)" and ?j = "i div 2 ^ l" and ?h = "hash2 kb"
  have j: "?j < 2 ^ (Depth t - l)" and sj: "sib ?j < 2 ^ (Depth t - l)"
    using node_index_bound [OF assms(3,2)] by simp_all
  obtain t' where t': "updateNode t l (int ?j) (mnode ?h ?g l ?j) = Inr t'"
    "tree_shape t'" "Depth t' = Depth t"
    "\<And>l' j'. l' < Depth t \<Longrightarrow>
       node_at t' l' j' = (if l' = l \<and> j' = ?j then mnode ?h ?g l ?j else node_at t l' j')"
    using updateNode_node_at [OF assms(1,2) j] by blast
  have nb: "nodes_between kb t' f ?g (Suc l)"
    unfolding nodes_between_def
  proof (intro allI impI)
    fix l' j' :: nat
    assume b: "l' < Depth t' \<and> j' < 2 ^ (Depth t' - l')"
    then have "node_at t l' j' = mnode ?h (if l' < l then ?g else f) l' j'"
      using t'(3) by (intro nodes_betweenD [OF assms(4)]) simp_all
    moreover have "mnode ?h ?g l j' = mnode ?h f l j'" if "j' \<noteq> ?j"
      using that by (intro mnode_upd_other) simp
    ultimately show "node_at t' l' j' = mnode ?h (if l' < Suc l then ?g else f) l' j'"
      using b t'(3,4) by (auto simp: less_Suc_eq)
  qed
  have "node_at t' l (sib ?j) = mnode ?h ?g l (sib ?j)"
    using assms(2) t'(3) sj nodes_betweenD [OF nb, of l "sib ?j"] by simp
  then have "getNode t' l (int (sib ?j)) = Inr (mnode ?h ?g l (sib ?j)) \<or>
      zero_sibling kb f (Depth t) i \<and> (\<exists>m. getNode t' l (int (sib ?j)) = Inl (Panic m))"
    using getNode_cases [OF t'(2), of l "sib ?j"] assms(2) t'(3) sj
    by (auto simp: zero_sibling_def sibling_upd)
  then show thesis using that t'(1-3) nb by blast
qed

lemma Update_loop_correct:
  assumes "tree_shape t" "level + n = Depth t" "i < 2 ^ Depth t"
    "nodes_between kb t f (f(i := v)) level" "buffer hs = []"
  shows "(\<exists>t'. Update_loop kb hs level n t (int (i div 2 ^ level))
                (mnode (hash2 kb) (f(i := v)) level (i div 2 ^ level)) =
              Inr (t', 0, mnode (hash2 kb) (f(i := v)) (Depth t) 0) \<and>
           tree_shape t' \<and> Depth t' = Depth t \<and> nodes_between kb t' f (f(i := v)) (Depth t)) \<or>
    zero_sibling kb f (Depth t) i \<and> (\<exists>m. Update_loop kb hs level n t (int (i div 2 ^ level))
                (mnode (hash2 kb) (f(i := v)) level (i div 2 ^ level)) = Inl (Panic m))"
  using assms
proof (induction n arbitrary: hs level t)
  case 0
  then show ?case by auto
next
  case (Suc n)
  let ?g = "f(i := v)" and ?j = "i div 2 ^ level" and ?h = "hash2 kb"
  from Suc.prems have l: "level < Depth t" by simp
  obtain t1 where t1: "updateNode t level (int ?j) (mnode ?h ?g level ?j) = Inr t1"
    "tree_shape t1" "Depth t1 = Depth t" "nodes_between kb t1 f ?g (Suc level)"
    "getNode t1 level (int (sib ?j)) = Inr (mnode ?h ?g level (sib ?j)) \<or>
       zero_sibling kb f (Depth t) i \<and> (\<exists>m. getNode t1 level (int (sib ?j)) = Inl (Panic m))"
    using Update_step [OF Suc.prems(1) l Suc.prems(3,4)] by blast
  show ?case
  proof (cases "getNode t1 level (int (sib ?j)) = Inr (mnode ?h ?g level (sib ?j))")
    case True
    define nl where "nl = (if odd ?j then mnode ?h ?g level (sib ?j) else mnode ?h ?g level ?j)"
    define nr where "nr = (if odd ?j then mnode ?h ?g level ?j else mnode ?h ?g level (sib ?j))"
    have up: "?h nl nr = mnode ?h ?g (Suc level) (i div 2 ^ Suc level)"
      using mnode_parent [of ?h ?g level ?j]
      by (auto simp: nl_def nr_def div_mult2_eq power_Suc2 simp del: power_Suc mnode.simps)
    have ix: "?j div 2 = i div 2 ^ Suc level"
      by (simp add: div_mult2_eq power_Suc2 del: power_Suc)
    have e: "Update_loop kb hs level (Suc n) t (int ?j) (mnode ?h ?g level ?j) =
          Update_loop kb (snd (hashLR kb hs nl nr)) (Suc level) n t1 (int (i div 2 ^ Suc level))
            (mnode ?h ?g (Suc level) (i div 2 ^ Suc level))"
      using t1(1) True
      by (simp add: idx_bits hashLR_split [OF Suc.prems(5)] ix up [symmetric] nl_def nr_def
          del: power_Suc mnode.simps)
    have "buffer (snd (hashLR kb hs nl nr)) = []"
      by (rule hashLR_flushed [OF Suc.prems(5)])
    with Suc.prems(2,3) t1(2-4) show ?thesis
      unfolding e t1(3) [symmetric] by (intro Suc.IH) (simp_all add: fun_upd_def)
  next
    case False
    with t1(5) obtain m where m: "zero_sibling kb f (Depth t) i" "getNode t1 level (int (sib ?j)) = Inl (Panic m)"
      by blast
    have "Update_loop kb hs level (Suc n) t (int ?j) (mnode ?h ?g level ?j) = Inl (Panic m)"
      using t1(1) m(2) by (simp add: idx_bits del: fun_upd_apply)
    with m(1) show ?thesis by blast
  qed
qed

lemma tree_ok_nodes_between: "tree_ok kb t \<Longrightarrow> nodes_between kb t (leaf_at t) g 0"
  by (auto simp: tree_ok_def nodes_between_def node_at_def not_less_eq_eq
      simp flip: One_nat_def neq0_conv)

lemma leaf_at_beyond: "tree_shape t \<Longrightarrow> 2 ^ Depth t \<le> k \<Longrightarrow> leaf_at t k = 0"
  using tree_shapeD(5) [of t] by (simp add: leaf_at_def)

lemma set_Root_nodes [simp]:
  "leaf_at (t\<lparr>Root := r\<rparr>) = leaf_at t" "node_at (t\<lparr>Root := r\<rparr>) = node_at t"
  by (auto simp: leaf_at_def node_at_def fun_eq_iff)

text \<open>An update at a position of the tree changes that leaf and keeps every node the hash of its children, or it panics on
  a sibling that is zero.\<close>

lemma Update_correct:
  assumes "tree_ok kb t" "i < 2 ^ Depth t"
  shows "(\<exists>t'. Update kb t (int i) v = Inr t' \<and> tree_ok kb t' \<and> Depth t' = Depth t \<and>
           leaf_at t' = (leaf_at t)(i := v)) \<or>
    zero_sibling kb (leaf_at t) (Depth t) i \<and> (\<exists>m. Update kb t (int i) v = Inl (Panic m))"
proof -
  let ?f = "leaf_at t" and ?g = "(leaf_at t)(i := v)" and ?h = "hash2 kb"
  have sh: "tree_shape t" using assms(1) by (simp add: tree_ok_def)
  have in_range: "\<not> shl1 (Depth t) \<le> int i" using int_less_pow [OF assms(2)] tree_shapeD(2) [OF sh] by simp
  consider (ok) t1 where "Update_loop kb NewMDHasher 0 (Depth t) t (int i) v = Inr (t1, 0, mnode ?h ?g (Depth t) 0)"
      "tree_shape t1" "Depth t1 = Depth t" "nodes_between kb t1 ?f ?g (Depth t)"
    | (zero) m where "zero_sibling kb ?f (Depth t) i" "Update_loop kb NewMDHasher 0 (Depth t) t (int i) v = Inl (Panic m)"
    using Update_loop_correct [OF sh, of 0 "Depth t" i kb ?f v NewMDHasher]
      assms(2) tree_ok_nodes_between [OF assms(1)] by auto
  then show ?thesis
  proof cases
    case zero
    then show ?thesis using in_range by (auto simp: Update_def)
  next
    case ok
    note t1 = ok
    let ?t = "t1\<lparr>Root := mnode ?h ?g (Depth t) 0\<rparr>"
    have leaf: "leaf_at t1 k = ?g k" if "k < 2 ^ Depth t" for k
      using nodes_betweenD [OF t1(4), of 0 k] that t1(3) tree_shapeD(1) [OF sh]
      by (simp add: node_at_def)
    have node: "mnode ?h ?g l j = mnode ?h (leaf_at t1) l j"
      if "l \<le> Depth t" "j < 2 ^ (Depth t - l)" for l j
    proof (rule mnode_cong)
      fix k assume "k < (j + 1) * 2 ^ l"
      also have "\<dots> \<le> 2 ^ (Depth t - l) * 2 ^ l"
        using that(2) by (intro mult_right_mono) simp_all
      also have "\<dots> = 2 ^ Depth t" using that(1) by (simp flip: power_add)
      finally show "?g k = leaf_at t1 k" using leaf by simp
    qed
    have "tree_shape ?t" using t1(2) by (simp add: tree_shape_def)
    moreover have "node_at t1 l j = mnode ?h (leaf_at t1) l j"
      if "l < Depth t" "j < 2 ^ (Depth t - l)" for l j
      using nodes_betweenD [OF t1(4), of l j] node [of l j] that t1(3) by simp
    ultimately have "tree_ok kb ?t"
      using t1(3) node [of "Depth t" 0] by (simp add: tree_ok_def)
    moreover have "Update kb t (int i) v = Inr ?t"
      using t1(1) in_range by (simp add: Update_def)
    moreover have "leaf_at t1 k = ?g k" for k
      using leaf [of k] leaf_at_beyond [OF sh, of k] leaf_at_beyond [OF t1(2), of k] t1(3) assms(2)
      by (cases "k < 2 ^ Depth t") auto
    ultimately show ?thesis using t1(3) by auto
  qed
qed

lemma Prove_loop_correct:
  assumes "tree_ok kb t" "i < 2 ^ Depth t" "level + n = Depth t"
  shows "Prove_loop t level n (int (i div 2 ^ level)) =
      Inr (map (\<lambda>l. mnode (hash2 kb) (leaf_at t) l (sib (i div 2 ^ l))) [level..<Depth t], 0) \<or>
    zero_sibling kb (leaf_at t) (Depth t) i \<and> (\<exists>m. Prove_loop t level n (int (i div 2 ^ level)) = Inl (Panic m))"
  using assms(3)
proof (induction n arbitrary: level)
  case 0
  with assms(2) show ?case by simp
next
  case (Suc n)
  then have l: "level < Depth t" by simp
  have ix: "i div 2 ^ level div 2 = i div 2 ^ Suc level"
    by (simp add: div_mult2_eq power_Suc2 del: power_Suc)
  let ?s = "sib (i div 2 ^ level)"
  have b: "?s < 2 ^ (Depth t - level)" by (rule node_index_bound(2) [OF assms(2) l])
  have "node_at t level ?s = mnode (hash2 kb) (leaf_at t) level ?s"
    using nodes_betweenD [OF tree_ok_nodes_between [OF assms(1)] l b] by simp
  moreover have "tree_shape t" using assms(1) by (simp add: tree_ok_def)
  ultimately have "getNode t level (int ?s) = Inr (mnode (hash2 kb) (leaf_at t) level ?s) \<or>
      zero_sibling kb (leaf_at t) (Depth t) i \<and> (\<exists>m. getNode t level (int ?s) = Inl (Panic m))"
    using getNode_cases [of t level ?s] l b by (auto simp: zero_sibling_def)
  then show ?case
    using Suc.IH [of "Suc level"] Suc.prems by (auto simp: idx_bits ix upt_rec [of level] l simp del: power_Suc)
qed

lemma MustProve_cases:
  assumes "tree_ok kb t" "i < 2 ^ Depth t"
  shows "MustProve t (int i) = Inr \<lparr>Path = int i, Siblings = siblings (hash2 kb) (leaf_at t) (Depth t) i\<rparr> \<or>
    zero_sibling kb (leaf_at t) (Depth t) i \<and> (\<exists>m. MustProve t (int i) = Inl (Panic m))"
proof -
  have "Depth t \<le> 62" using assms(1) by (simp add: tree_ok_def tree_shape_def)
  then show ?thesis
    using Prove_loop_correct [OF assms, of 0 "Depth t"] int_less_pow [OF assms(2)]
    by (auto simp: MustProve_def Prove_def siblings_def)
qed

text \<open>The siblings of a position recover the root, whether the tree hands them out or panics.\<close>

lemma siblings_recover:
  assumes "i < 2 ^ d"
  shows "RecoverRoot kb \<lparr>Path = int i, Siblings = siblings (hash2 kb) f d i\<rparr> v = Inr (mnode (hash2 kb) (f(i := v)) d 0)"
  using assms by (simp add: RecoverRoot_climb climb_siblings_upd)

lemma Update_negative: "tree_shape t \<Longrightarrow> pos < 0 \<Longrightarrow> \<exists>m. Update kb t pos v = Inl (Panic m)"
  using tree_shapeD(1,2) [of t]
  by (cases "Depth t") (auto simp: Update_def updateNode_def set_index_def intro: order.strict_trans1)

subsection \<open>Construction\<close>

lemma empty_nodes_loop_correct:
  assumes "buffer hs = []" "prev = mnode (hash2 kb) (\<lambda>_. 0) l 0"
  shows "fst (empty_nodes_loop kb hs prev n) = map (\<lambda>k. mnode (hash2 kb) (\<lambda>_. 0) k 0) [Suc l..<Suc l + n] \<and>
    fst (snd (empty_nodes_loop kb hs prev n)) = mnode (hash2 kb) (\<lambda>_. 0) (l + n) 0 \<and>
    buffer (snd (snd (empty_nodes_loop kb hs prev n))) = []"
  using assms
proof (induction n arbitrary: hs prev l)
  case (Suc n)
  let ?h = "hash2 kb"
  have up: "?h prev prev = mnode ?h (\<lambda>_. 0) (Suc l) 0"
    using mnode_const [of ?h 0 l 1] Suc.prems(2) by simp
  have "buffer (snd (hashLR kb hs prev prev)) = []" by (rule hashLR_flushed [OF Suc.prems(1)])
  from Suc.IH [OF this up]
  show ?case
    using up hashLR_flushed(1) [OF Suc.prems(1), of kb prev prev]
    by (auto simp: split_beta Let_def upt_rec [of "Suc l"]
        simp del: mnode.simps upt_Suc)
qed simp

lemma NewEmptyTree_fields:
  assumes "d = (case depths of [] \<Rightarrow> 40 | x # _ \<Rightarrow> if 0 < x then nat x else 40)"
  shows "NewEmptyTree kb depths =
    \<lparr>Depth = d, Root = mnode (hash2 kb) (\<lambda>_. 0) d 0, OccupiedLeaves = [],
     OccupiedNodes = replicate (d - 1) [],
     EmptyNodes = map (\<lambda>k. mnode (hash2 kb) (\<lambda>_. 0) k 0) [1..<d]\<rparr>"
proof -
  let ?h = "hash2 kb"
  obtain ns pr hs where e: "empty_nodes_loop kb NewMDHasher 0 (d - 1) = (ns, pr, hs)"
    by (cases "empty_nodes_loop kb NewMDHasher 0 (d - 1)")
  have d: "1 \<le> d" using assms by (auto split: list.splits)
  have "ns = map (\<lambda>k. mnode ?h (\<lambda>_. 0) k 0) [1..<d]" "pr = mnode ?h (\<lambda>_. 0) (d - 1) 0" "buffer hs = []"
    using empty_nodes_loop_correct [of NewMDHasher 0 kb 0 "d - 1"] e d by (simp_all add: NewMDHasher_def)
  moreover from this have "fst (hashLR kb hs pr pr) = mnode ?h (\<lambda>_. 0) d 0"
    using hashLR_flushed(1) [of hs kb pr pr] mnode_const [of ?h 0 "d - 1" 1] d
    by (cases d) simp_all
  ultimately show ?thesis
    using e by (simp add: NewEmptyTree_def assms [symmetric] EmptyLeaf_def split_beta Let_def)
qed

lemma NewEmptyTree_ok:
  assumes "d = (case depths of [] \<Rightarrow> 40 | x # _ \<Rightarrow> if 0 < x then nat x else 40)" "d \<le> 62"
  shows "tree_ok kb (NewEmptyTree kb depths)" "Depth (NewEmptyTree kb depths) = d"
    "leaf_at (NewEmptyTree kb depths) = (\<lambda>_. 0)"
proof -
  have d: "1 \<le> d" using assms by (auto split: list.splits)
  show "Depth (NewEmptyTree kb depths) = d" and l: "leaf_at (NewEmptyTree kb depths) = (\<lambda>_. 0)"
    by (simp_all add: NewEmptyTree_fields [OF assms(1)] leaf_at_def fun_eq_iff)
  have "tree_shape (NewEmptyTree kb depths)"
    using d assms(2) by (auto simp: NewEmptyTree_fields [OF assms(1)] tree_shape_def)
  then show "tree_ok kb (NewEmptyTree kb depths)"
    unfolding tree_ok_def l
    by (auto simp: NewEmptyTree_fields [OF assms(1)] node_at_def
        intro: mnode_const [symmetric])
qed

subsection \<open>The tree as an authenticated vector\<close>

interpretation smt: authenticated_vector
  "tree_ok kb" Depth leaf_at Root "Update kb" MustProve "RecoverRoot kb" Path
  "\<lambda>t i. \<not> zero_sibling kb (leaf_at t) (Depth t) i" "hash2 kb" for kb
proof
  fix t t' :: "'a tree" and i :: nat and v p
  assume t: "tree_ok kb t" and i: "i < 2 ^ Depth t"
  show "tree_ok kb t' \<and> Depth t' = Depth t \<and> leaf_at t' = (leaf_at t)(i := v)" if "Update kb t (int i) v = Inr t'"
    using Update_correct [OF t i, of v] that by auto
  show "\<exists>t'. Update kb t (int i) v = Inr t'" if "\<not> zero_sibling kb (leaf_at t) (Depth t) i"
    using Update_correct [OF t i, of v] that by blast
  show "Path p = int i \<and> RecoverRoot kb p v = Inr (mnode (hash2 kb) ((leaf_at t)(i := v)) (Depth t) 0)"
    if "MustProve t (int i) = Inr p"
    using MustProve_cases [OF t i] that siblings_recover [OF i] by auto
  show "\<exists>p. MustProve t (int i) = Inr p" if "\<not> zero_sibling kb (leaf_at t) (Depth t) i"
    using MustProve_cases [OF t i] that by blast
qed (simp_all add: tree_ok_def)

subsection \<open>Inputs evaluated by a tree\<close>

definition tree_queries ::
  "('f::zero) koalabear \<Rightarrow> (nat \<Rightarrow> 'f octuplet) \<Rightarrow> nat \<Rightarrow> ('f octuplet \<times> 'f octuplet) set" where
  "tree_queries kb f d =
     (\<Union>l \<in> {..<d}. \<Union>j \<in> {..<2 ^ (d - Suc l)}.
        md_queries kb 0 [mnode (hash2 kb) f l (2 * j), mnode (hash2 kb) f l (2 * j + 1)])"

lemma tree_queriesI:
  "l < d \<Longrightarrow> j < 2 ^ (d - Suc l) \<Longrightarrow>
   md_queries kb 0 [mnode (hash2 kb) f l (2 * j), mnode (hash2 kb) f l (2 * j + 1)] \<subseteq> tree_queries kb f d"
  unfolding tree_queries_def by blast

lemma hash2_nonzero:
  "\<not> zero_digest kb Q \<Longrightarrow> md_queries kb 0 [l, r] \<subseteq> Q \<Longrightarrow> hash2 kb l r \<noteq> 0"
  using not_zero_digestD [of kb Q "CompressPoseidon2 kb 0 l" r] by (simp add: hash2_def)

text \<open>If no input of the tree compresses to zero, no sibling is zero.\<close>

lemma no_zero_sibling:
  assumes "\<not> zero_digest kb (tree_queries kb f d)" "i < 2 ^ d"
  shows "\<not> zero_sibling kb f d i"
proof -
  have "mnode (hash2 kb) f l (sib (i div 2 ^ l)) \<noteq> 0" if "1 \<le> l" "l < d" for l
  proof -
    obtain k where k: "l = Suc k" using \<open>1 \<le> l\<close> by (cases l) simp_all
    have "sib (i div 2 ^ l) < 2 ^ (d - Suc k)" using node_index_bound(2) [OF assms(2) that(2)] k by simp
    then show ?thesis
      using hash2_nonzero [OF assms(1) tree_queriesI [of k d "sib (i div 2 ^ l)"]] that(2) k by simp
  qed
  then show ?thesis by (auto simp: zero_sibling_def)
qed

end
