(* ===== verification/Types.thy ===== *)
theory Types
  imports Poseidon
begin

unbundle bit_operations_syntax

text \<open>
  The types the state accumulators store: \<open>full_bytes_32.go\<close>, \<open>ethaddress.go\<close> and
  \<open>account.go\<close> of \<open>src/prover/utils/types\<close>, with their \<open>WriteTo\<close> and \<open>ReadFrom\<close>.

  A \<open>WriteTo\<close> is a function of an arbitrary \<open>io.Writer\<close> (\<open>'s io_writer\<close>): it is instantiated with
  the hasher (\<open>hasher_io\<close>) when an object is hashed and with a byte buffer (\<open>buffer_io\<close>) when it is
  serialised. The readers consume the bytes of a \<open>bytes.Buffer\<close>. Each type is an interpretation of the
  locale \<open>writer_to\<close>, and each pair of reader and writer has a round trip.
\<close>

subsection \<open>Writers\<close>

definition buffer_io :: "byte list io_writer" where
  "buffer_io p s = (length p, None, s @ p)"

definition WriteInt64On64Bytes_io ::
  "'s io_writer \<Rightarrow> int \<Rightarrow> 's \<Rightarrow> (nat \<times> string option \<times> 's) result" where
  "WriteInt64On64Bytes_io w x s = rbind (WriteInt64On64Bytes x) (\<lambda>res. Inr (w res s))"

definition WriteInt64On32Bytes_io :: "'s io_writer \<Rightarrow> int \<Rightarrow> 's \<Rightarrow> nat \<times> string option \<times> 's" where
  "WriteInt64On32Bytes_io w x s =
     (let (_, _, s) = w (replicate (32 - 8) 0) s in w (PutUint64 x) s)"

definition WriteBigIntOn64Bytes_io ::
  "'s io_writer \<Rightarrow> int \<Rightarrow> 's \<Rightarrow> (nat \<times> string option \<times> 's) result" where
  "WriteBigIntOn64Bytes_io w b s = rbind (WriteBigIntOn64Bytes b) (\<lambda>res. Inr (w res s))"

definition WriteBigIntOn32Bytes_io ::
  "'s io_writer \<Rightarrow> int \<Rightarrow> 's \<Rightarrow> (nat \<times> string option \<times> 's) result" where
  "WriteBigIntOn32Bytes_io w b s = rbind (WriteBigIntOn32Bytes b) (\<lambda>res. Inr (w res s))"

definition octuplet_WriteTo ::
  "'f koalabear \<Rightarrow> 's io_writer \<Rightarrow> 'f octuplet \<Rightarrow> 's \<Rightarrow> nat \<times> string option \<times> 's" where
  "octuplet_WriteTo kb w e s = w (ToBytes kb e) s"

subsection \<open>Arrays of 32 and of 20 bytes\<close>

typedef FullBytes32 = "{b :: byte list. length b = 32}" morphisms bytes32 Array32
  by (rule exI [of _ "replicate 32 0"]) simp

typedef EthAddress = "{b :: byte list. length b = 20}" morphisms bytes20 Array20
  by (rule exI [of _ "replicate 20 0"]) simp

text \<open>\<open>var a [n]byte; copy(a[:], b)\<close>: longer inputs are cut, shorter ones keep the zeroes.\<close>

definition copy32 :: "byte list \<Rightarrow> FullBytes32" where
  "copy32 b = Array32 (take 32 (b @ replicate 32 0))"

definition copy20 :: "byte list \<Rightarrow> EthAddress" where
  "copy20 b = Array20 (take 20 (b @ replicate 20 0))"

lemma bytes_length [simp]: "length (bytes32 f) = 32" "length (bytes20 e) = 20"
  using bytes32 [of f] bytes20 [of e] by simp_all

lemma bytes32_copy32: "bytes32 (copy32 b) = take 32 (b @ replicate 32 0)"
  by (simp add: copy32_def Array32_inverse)

lemma bytes20_copy20: "bytes20 (copy20 b) = take 20 (b @ replicate 20 0)"
  by (simp add: copy20_def Array20_inverse)

lemma copy_bytes [simp]: "copy32 (bytes32 f) = f" "copy20 (bytes20 e) = e"
  by (simp_all add: copy32_def copy20_def bytes32_inverse bytes20_inverse)

definition FullBytes32_WriteTo ::
  "'s io_writer \<Rightarrow> FullBytes32 \<Rightarrow> 's \<Rightarrow> (nat \<times> string option \<times> 's) result" where
  "FullBytes32_WriteTo w f s =
     rbind (LeftPadded (bytes32 f)) (\<lambda>padded. let (_, _, s) = w padded s in Inr (64, None, s))"

definition Write1Word :: "'s io_writer \<Rightarrow> FullBytes32 \<Rightarrow> 's \<Rightarrow> nat \<times> string option \<times> 's" where
  "Write1Word w f s = w (bytes32 f) s"

text \<open>\<open>r.Read(buf[:])\<close> with the error dropped: the bytes that were there overwrite a prefix.\<close>

definition Read_into :: "byte list \<Rightarrow> byte list \<Rightarrow> byte list \<times> byte list" where
  "Read_into old r =
     (case buf_Read (length old) r of
        Inl _ \<Rightarrow> (old, r)
      | Inr (b, r') \<Rightarrow> (b @ drop (length b) old, r'))"

definition FullBytes32_ReadFrom :: "FullBytes32 \<Rightarrow> byte list \<Rightarrow> (FullBytes32 \<times> nat \<times> byte list) result" where
  "FullBytes32_ReadFrom f r =
     (let (buf, r) = Read_into (replicate 64 0) r
      in rbind (RemovePadding buf) (\<lambda>b. Inr (copy32 b, 64, r)))"

definition ReadPacked :: "FullBytes32 \<Rightarrow> byte list \<Rightarrow> FullBytes32 \<times> nat \<times> byte list" where
  "ReadPacked f r = (let (b, r) = Read_into (bytes32 f) r in (copy32 b, 32, r))"

definition AsFullBytes32 :: "byte list \<Rightarrow> FullBytes32 result" where
  "AsFullBytes32 b =
     (if length b < 32 then Inl (Panic ''cannot convert slice to array'') else Inr (copy32 b))"

definition LeftPadToFullBytes32 :: "byte list \<Rightarrow> FullBytes32 result" where
  "LeftPadToFullBytes32 b =
     (if length b > 32 then Inl (Panic ''the max is 32'')
      else Inr (copy32 (replicate (32 - length b) 0 @ b)))"

definition FullBytes32_IsZero :: "FullBytes32 \<Rightarrow> bool" where
  "FullBytes32_IsZero f = list_all (\<lambda>x. x = 0) (bytes32 f)"

definition EthAddress_WriteTo ::
  "'s io_writer \<Rightarrow> EthAddress \<Rightarrow> 's \<Rightarrow> (nat \<times> string option \<times> 's) result" where
  "EthAddress_WriteTo w e s =
     rbind (LeftPadded (bytes20 e)) (\<lambda>padded.
       let (n, err, s) = w padded s
       in if err \<noteq> None then Inl (Panic ''write failed'') else Inr (n, None, s))"

definition EthAddress_ReadFrom :: "EthAddress \<Rightarrow> byte list \<Rightarrow> (EthAddress \<times> nat \<times> byte list) result" where
  "EthAddress_ReadFrom e r =
     rbind (buf_Read 40 r) (\<lambda>(b, r').
       rbind (RemovePadding (b @ replicate (40 - length b) 0)) (\<lambda>unpadded.
         Inr (copy20 unpadded, length b, r')))"

subsection \<open>Accounts\<close>

record 'f Account =
  Nonce :: int
  Balance :: "int option"
  StorageRoot :: "'f octuplet"
  LineaCodeHash :: "'f octuplet"
  KeccakCodeHash :: FullBytes32
  CodeSize :: int

definition Account_writeTo ::
  "'f koalabear \<Rightarrow> 's io_writer \<Rightarrow> bool \<Rightarrow> 'f Account \<Rightarrow> 's \<Rightarrow> (nat \<times> string option \<times> 's) result" where
  "Account_writeTo kb w packed a s =
     rbind (WriteInt64On64Bytes_io w (Nonce a) s) (\<lambda>(n0, _, s).
     let balance = (case Balance a of None \<Rightarrow> 0 | Some b \<Rightarrow> b) in
     rbind (WriteBigIntOn64Bytes_io w balance s) (\<lambda>(n1, _, s).
     let (n2, _, s) = octuplet_WriteTo kb w (StorageRoot a) s;
         (n3, _, s) = octuplet_WriteTo kb w (LineaCodeHash a) s in
     rbind (if packed then Inr (Write1Word w (KeccakCodeHash a) s)
            else FullBytes32_WriteTo w (KeccakCodeHash a) s) (\<lambda>(n4, _, s).
     rbind (WriteInt64On64Bytes_io w (CodeSize a) s) (\<lambda>(n5, _, s).
       Inr (n0 + n1 + n2 + n3 + n4 + n5, None, s)))))"

definition Account_WriteTo ::
  "'f koalabear \<Rightarrow> 's io_writer \<Rightarrow> 'f Account \<Rightarrow> 's \<Rightarrow> (nat \<times> string option \<times> 's) result" where
  "Account_WriteTo kb w a s = Account_writeTo kb w False a s"

definition Account_readFrom ::
  "('f::zero) koalabear \<Rightarrow> bool \<Rightarrow> 'f Account \<Rightarrow> byte list \<Rightarrow> ('f Account \<times> nat \<times> byte list) result" where
  "Account_readFrom kb packed a r =
     rbind (ReadInt64On64Bytes r) (\<lambda>(nonce, r).
     rbind (ReadBigIntOn64Bytes r) (\<lambda>(balance, r).
     rbind (octuplet_ReadFrom kb r) (\<lambda>(storageRoot, r).
     rbind (octuplet_ReadFrom kb r) (\<lambda>(lineaCodeHash, r).
     rbind (if packed then Inr (ReadPacked (KeccakCodeHash a) r)
            else FullBytes32_ReadFrom (KeccakCodeHash a) r) (\<lambda>(keccakCodeHash, nK, r).
     rbind (ReadInt64On64Bytes r) (\<lambda>(codeSize, r).
       Inr (\<lparr>Nonce = nonce, Balance = Some balance, StorageRoot = storageRoot,
             LineaCodeHash = lineaCodeHash, KeccakCodeHash = keccakCodeHash,
             CodeSize = codeSize\<rparr>, 256 + nK, r)))))))"

definition writeToShomeiTraces ::
  "'f koalabear \<Rightarrow> 's io_writer \<Rightarrow> 'f Account \<Rightarrow> 's \<Rightarrow> (nat \<times> string option \<times> 's) result" where
  "writeToShomeiTraces kb w a s =
     (let balance = (case Balance a of None \<Rightarrow> 0 | Some b \<Rightarrow> b);
          (n0, e0, s) = WriteInt64On32Bytes_io w (Nonce a) s in
     rbind (WriteBigIntOn32Bytes_io w balance s) (\<lambda>(n1, e1, s).
     let (n2, e2, s) = octuplet_WriteTo kb w (StorageRoot a) s;
         (n3, e3, s) = octuplet_WriteTo kb w (LineaCodeHash a) s;
         (n4, e4, s) = Write1Word w (KeccakCodeHash a) s in
     rbind (WriteInt64On64Bytes_io w (CodeSize a) s) (\<lambda>(n5, e5, s).
       if list_ex (\<lambda>e. e \<noteq> None) [e0, e1, e2, e3, e4, e5]
       then Inr (0, Some ''writing account'', s)
       else Inr (n0 + n1 + n2 + n3 + n4 + n5, None, s))))"

definition readFromShomeiTraces ::
  "('f::zero) koalabear \<Rightarrow> 'f Account \<Rightarrow> byte list \<Rightarrow> ('f Account \<times> nat \<times> byte list) result" where
  "readFromShomeiTraces kb a r =
     rbind (ReadInt64On32Bytes r) (\<lambda>(nonce, r).
     rbind (ReadBigIntOn32Bytes r) (\<lambda>(balance, r).
     rbind (octuplet_ReadFrom kb r) (\<lambda>(storageRoot, r).
     rbind (octuplet_ReadFrom kb r) (\<lambda>(lineaCodeHash, r).
     let (keccakCodeHash, _, r) = ReadPacked (KeccakCodeHash a) r in
     rbind (ReadInt64On32Bytes r) (\<lambda>(codeSize, r).
       Inr (\<lparr>Nonce = nonce, Balance = Some balance, StorageRoot = storageRoot,
             LineaCodeHash = lineaCodeHash, KeccakCodeHash = keccakCodeHash,
             CodeSize = codeSize\<rparr>, 192, r))))))"

subsection \<open>Hashing\<close>

lemma canonical_ToBytes: "koala_ok kb \<Longrightarrow> canonical kb (ToBytes kb e)"
  by (simp add: ToBytes_def canonical_concat)

lemma elems_of_ToBytes: "koala_ok kb \<Longrightarrow> elems_of kb (ToBytes kb e) = oct_list e"
  by (simp add: ToBytes_def elems_of_concat)

lemma canonical_LeftPadded:
  assumes "koala_ok kb" "even (length b)"
  obtains p where "LeftPadded b = Inr p" "canonical kb p" "length p = 2 * length b"
    "RemovePadding p = Inr b"
proof -
  obtain p where p: "LeftPadded b = Inr p" "length p = 2 * length b" "RemovePadding p = Inr b"
    using LeftPadded_even [OF assms(2)] by blast
  with canonical_padded [OF assms p(1), of 0] show thesis using that by simp
qed

lemma canonical_WriteInt64On64Bytes:
  assumes "koala_ok kb" "WriteInt64On64Bytes x = Inr p"
  shows "canonical kb p"
proof -
  obtain q where q: "LeftPadded (be_bytes 8 x) = Inr q" "length q = 16"
    using LeftPadded_even [of "be_bytes 8 x"] by auto
  then have "p = replicate (4 * 12) 0 @ q"
    using assms(2) by (simp add: WriteInt64On64Bytes_def PutUint64_def LeftPadded48Zeros_def)
  then show ?thesis using canonical_padded [OF assms(1) _ q(1), of 12] by simp
qed

definition int64_elems :: "'f koalabear \<Rightarrow> int \<Rightarrow> 'f list" where
  "int64_elems kb x = elems_of kb (projr (WriteInt64On64Bytes x))"

lemma WriteInt64On64Bytes_hasher:
  assumes "koala_ok kb"
  shows "WriteInt64On64Bytes_io (hasher_io kb) x d = Inr (64, None, WriteElements d (int64_elems kb x))"
proof -
  obtain p where p: "WriteInt64On64Bytes x = Inr p" "length p = 64"
    using WriteInt64On64Bytes_total by blast
  then show ?thesis
    using hasher_io_canonical [OF assms canonical_WriteInt64On64Bytes [OF assms p(1)], of d]
    by (simp add: WriteInt64On64Bytes_io_def int64_elems_def)
qed

lemma length_int64_elems: "koala_ok kb \<Longrightarrow> length (int64_elems kb x) = 16"
  using WriteInt64On64Bytes_total [of x] canonical_WriteInt64On64Bytes [of kb x]
    canonical_length [of kb "projr (WriteInt64On64Bytes x)"]
  by (auto simp: int64_elems_def)

text \<open>The 64-byte format loses nothing of a 64-bit integer.\<close>

lemma WriteInt64On64Bytes_inject:
  assumes "WriteInt64On64Bytes x = Inr p" "WriteInt64On64Bytes y = Inr p" "is_int64 x" "is_int64 y"
  shows "x = y"
proof -
  obtain q where q: "WriteInt64On64Bytes x = Inr (replicate 48 0 @ q)" "RemovePadding q = Inr (be_bytes 8 x)"
    by (rule WriteInt64On64Bytes_format)
  obtain q' where q': "WriteInt64On64Bytes y = Inr (replicate 48 0 @ q')"
    "RemovePadding q' = Inr (be_bytes 8 y)"
    by (rule WriteInt64On64Bytes_format)
  have "be_value (be_bytes 8 x) = be_value (be_bytes 8 y)"
    using q q' assms(1,2) by simp
  then have "x mod 2 ^ 64 = y mod 2 ^ 64"
    by (simp add: be_value_be_bytes)
  then have "take_bit 64 x = take_bit 64 y"
    by (simp only: take_bit_eq_mod)
  then have "signed_take_bit 63 x = signed_take_bit 63 y"
    by (simp add: signed_take_bit_eq_iff_take_bit_eq)
  then show ?thesis
    using wrap64_id [OF assms(3)] wrap64_id [OF assms(4)] by (simp add: wrap64_def)
qed

lemma int64_elems_inject:
  assumes "koala_ok kb" "is_int64 x" "is_int64 y" "int64_elems kb x = int64_elems kb y"
  shows "x = y"
proof -
  obtain p q where p: "WriteInt64On64Bytes x = Inr p" and q: "WriteInt64On64Bytes y = Inr q"
    using WriteInt64On64Bytes_total by blast
  then have "p = q"
    using assms canonical_inject [of kb p q] canonical_WriteInt64On64Bytes [OF assms(1)]
    by (simp add: int64_elems_def)
  then show ?thesis using WriteInt64On64Bytes_inject p q assms(2,3) by blast
qed

interpretation octuplet_writer: writer_to
  "\<lambda>kb e d. Inr (octuplet_WriteTo kb (hasher_io kb) e d)" "\<lambda>_. oct_list" "\<lambda>_. True"
  by unfold_locales (simp add: writes_def octuplet_WriteTo_def hasher_io_ToBytes)

definition bytes32_elems :: "'f koalabear \<Rightarrow> FullBytes32 \<Rightarrow> 'f list" where
  "bytes32_elems kb f = elems_of kb (projr (LeftPadded (bytes32 f)))"

lemma FullBytes32_WriteTo_hasher:
  assumes "koala_ok kb"
  shows "FullBytes32_WriteTo (hasher_io kb) f d = Inr (64, None, WriteElements d (bytes32_elems kb f))"
proof -
  obtain p where "LeftPadded (bytes32 f) = Inr p" "canonical kb p" "length p = 2 * length (bytes32 f)"
    using canonical_LeftPadded [OF assms, of "bytes32 f"] by auto
  then show ?thesis
    by (simp add: FullBytes32_WriteTo_def bytes32_elems_def hasher_io_canonical [OF assms])
qed

interpretation fullbytes32_writer: writer_to
  "\<lambda>kb. FullBytes32_WriteTo (hasher_io kb)" bytes32_elems "\<lambda>_. True"
  by unfold_locales (simp add: writes_def FullBytes32_WriteTo_hasher)

definition bytes20_elems :: "'f koalabear \<Rightarrow> EthAddress \<Rightarrow> 'f list" where
  "bytes20_elems kb e = elems_of kb (projr (LeftPadded (bytes20 e)))"

lemma EthAddress_WriteTo_hasher:
  assumes "koala_ok kb"
  shows "EthAddress_WriteTo (hasher_io kb) e d = Inr (40, None, WriteElements d (bytes20_elems kb e))"
proof -
  obtain p where "LeftPadded (bytes20 e) = Inr p" "canonical kb p" "length p = 2 * length (bytes20 e)"
    using canonical_LeftPadded [OF assms, of "bytes20 e"] by auto
  then show ?thesis
    by (simp add: EthAddress_WriteTo_def bytes20_elems_def hasher_io_canonical [OF assms])
qed

interpretation ethaddress_writer: writer_to
  "\<lambda>kb. EthAddress_WriteTo (hasher_io kb)" bytes20_elems "\<lambda>_. True"
  by unfold_locales (simp add: writes_def EthAddress_WriteTo_hasher)

subsection \<open>Accounts: hashing and round trips\<close>

text \<open>A balance that \<open>big.Int.FillBytes\<close> can write on 32 bytes; the other accounts panic.\<close>

definition account_ok :: "'f Account \<Rightarrow> bool" where
  "account_ok a \<longleftrightarrow>
     is_int64 (Nonce a) \<and> is_int64 (CodeSize a) \<and>
     (case Balance a of None \<Rightarrow> True | Some b \<Rightarrow> 0 \<le> b \<and> b < 256 ^ 32)"

abbreviation balance_of :: "'f Account \<Rightarrow> int" where
  "balance_of a \<equiv> (case Balance a of None \<Rightarrow> 0 | Some b \<Rightarrow> b)"

lemma account_ok_balance: "account_ok a \<Longrightarrow> 0 \<le> balance_of a \<and> balance_of a < 256 ^ 32"
  by (auto simp: account_ok_def split: option.splits)

lemma WriteBigIntOn64Bytes_format:
  assumes "koala_ok kb" "0 \<le> b" "b < 256 ^ 32"
  obtains p where "WriteBigIntOn64Bytes b = Inr p" "length p = 64" "canonical kb p"
    "RemovePadding p = Inr (be_bytes 32 b)"
proof -
  obtain p where "LeftPadded (be_bytes 32 b) = Inr p" "canonical kb p"
    "length p = 2 * length (be_bytes 32 b)" "RemovePadding p = Inr (be_bytes 32 b)"
    using canonical_LeftPadded [OF assms(1), of "be_bytes 32 b"] by auto
  with assms(2,3) that [of p] show thesis
    by (simp add: WriteBigIntOn64Bytes_def FillBytes32_def)
qed

definition account_elems :: "'f koalabear \<Rightarrow> 'f Account \<Rightarrow> 'f list" where
  "account_elems kb a =
     int64_elems kb (Nonce a) @ elems_of kb (projr (WriteBigIntOn64Bytes (balance_of a))) @
     oct_list (StorageRoot a) @ oct_list (LineaCodeHash a) @
     bytes32_elems kb (KeccakCodeHash a) @ int64_elems kb (CodeSize a)"

lemma Account_WriteTo_hasher:
  assumes "koala_ok kb" "account_ok a"
  shows "Account_WriteTo kb (hasher_io kb) a d = Inr (320, None, WriteElements d (account_elems kb a))"
proof -
  obtain p where p: "WriteBigIntOn64Bytes (balance_of a) = Inr p" "length p = 64" "canonical kb p"
    using WriteBigIntOn64Bytes_format [OF assms(1)] account_ok_balance [OF assms(2)] by blast
  then show ?thesis
    by (simp add: Account_WriteTo_def Account_writeTo_def WriteInt64On64Bytes_hasher [OF assms(1)]
        WriteBigIntOn64Bytes_io_def octuplet_WriteTo_def hasher_io_ToBytes [OF assms(1)] Let_def
        FullBytes32_WriteTo_hasher [OF assms(1)] hasher_io_canonical [OF assms(1)] account_elems_def)
qed

interpretation account_writer: writer_to
  "\<lambda>kb. Account_WriteTo kb (hasher_io kb)" account_elems account_ok
  by unfold_locales (simp add: writes_def Account_WriteTo_hasher)

lemma Write_Read_rounds:
  "koala_ok kb \<Longrightarrow> octuplet_ReadFrom kb (ToBytes kb e @ r) = Inr (e, r)"
  "ReadPacked f (bytes32 g @ r) = (g, 32, r)"
proof -
  show "koala_ok kb \<Longrightarrow> octuplet_ReadFrom kb (ToBytes kb e @ r) = Inr (e, r)"
    using length_ToBytes [of kb e]
    by (auto simp: octuplet_ReadFrom_def buf_Read_def SetBytes_ToBytes)
  have "bytes32 g \<noteq> []" using bytes_length(1) [of g] by fastforce
  then show "ReadPacked f (bytes32 g @ r) = (g, 32, r)"
    by (simp add: ReadPacked_def Read_into_def buf_Read_def)
qed

lemma Read_padded_rounds:
  assumes "length p = 64" "RemovePadding p = Inr b"
  shows "ReadBigIntOn64Bytes (p @ r) = Inr (be_value b, r)"
    and "FullBytes32_ReadFrom f (p @ r) = Inr (copy32 b, 64, r)"
proof -
  have "p \<noteq> []" using assms(1) by auto
  then show "ReadBigIntOn64Bytes (p @ r) = Inr (be_value b, r)"
    "FullBytes32_ReadFrom f (p @ r) = Inr (copy32 b, 64, r)"
    using assms by (simp_all add: ReadBigIntOn64Bytes_def FullBytes32_ReadFrom_def Read_into_def
        buf_Read_def)
qed

lemma EthAddress_roundtrip:
  "\<exists>bs. EthAddress_WriteTo buffer_io e [] = Inr (40, None, bs) \<and>
        EthAddress_ReadFrom e0 (bs @ r) = Inr (e, 40, r)"
proof -
  obtain p where p: "LeftPadded (bytes20 e) = Inr p" "length p = 40" "RemovePadding p = Inr (bytes20 e)"
    using LeftPadded_even [of "bytes20 e"] by auto
  moreover from p(2) have "p \<noteq> []" by auto
  ultimately show ?thesis
    by (simp add: EthAddress_WriteTo_def EthAddress_ReadFrom_def buffer_io_def buf_Read_def)
qed

text \<open>The account that is read back: a \<open>nil\<close> balance has become zero.\<close>

definition account_norm :: "'f Account \<Rightarrow> 'f Account" where
  "account_norm a = a\<lparr>Balance := Some (balance_of a)\<rparr>"

lemma mod_int64: "0 \<le> x \<Longrightarrow> is_int64 x \<Longrightarrow> x mod 2 ^ 63 = x"
  by (simp add: is_int64_def)

lemma Account_roundtrip:
  assumes "koala_ok kb" "account_ok a" "0 \<le> Nonce a" "0 \<le> CodeSize a"
  shows "\<exists>n bs. Account_writeTo kb buffer_io packed a [] = Inr (n, None, bs) \<and> n = length bs \<and>
    Account_readFrom kb packed a0 (bs @ r) = Inr (account_norm a, length bs, r)"
proof -
  obtain pn where n: "WriteInt64On64Bytes (Nonce a) = Inr pn" "length pn = 64"
    using WriteInt64On64Bytes_total by blast
  obtain pc where c: "WriteInt64On64Bytes (CodeSize a) = Inr pc" "length pc = 64"
    using WriteInt64On64Bytes_total by blast
  obtain pb where b: "WriteBigIntOn64Bytes (balance_of a) = Inr pb" "length pb = 64"
    "RemovePadding pb = Inr (be_bytes 32 (balance_of a))"
    using WriteBigIntOn64Bytes_format [OF assms(1)] account_ok_balance [OF assms(2)] by metis
  obtain pk where k: "LeftPadded (bytes32 (KeccakCodeHash a)) = Inr pk" "length pk = 64"
    "RemovePadding pk = Inr (bytes32 (KeccakCodeHash a))"
    using LeftPadded_even [of "bytes32 (KeccakCodeHash a)"] by auto
  have v: "be_value (be_bytes 32 (balance_of a)) = balance_of a"
    using account_ok_balance [OF assms(2)] by (simp add: be_value_be_bytes)
  have i: "is_int64 (Nonce a)" "is_int64 (CodeSize a)"
    using assms(2) by (simp_all add: account_ok_def)
  note w = WriteInt64On64Bytes_io_def WriteBigIntOn64Bytes_io_def octuplet_WriteTo_def Write1Word_def
    FullBytes32_WriteTo_def buffer_io_def n(1) c(1) b(1) k(1)
  note rd = ReadInt64On64Bytes_Write [OF n(1)] ReadInt64On64Bytes_Write [OF c(1)]
    Read_padded_rounds(1) [OF b(2,3)] Read_padded_rounds(2) [OF k(2,3)]
    Write_Read_rounds(1) [OF assms(1)] Write_Read_rounds(2)
  show ?thesis
    using n(2) c(2) b(2) k(2) length_ToBytes [OF assms(1)] mod_int64 [OF assms(3) i(1)]
      mod_int64 [OF assms(4) i(2)] v
    by (cases packed) (simp_all add: Account_writeTo_def Account_readFrom_def w rd account_norm_def)
qed

text \<open>The Shomei format is not symmetric: \<open>CodeSize\<close> is written on 64 bytes and read on 32, and the
  first 32 of these are zeroes.\<close>

lemma ReadInt64On32Bytes_zeros:
  "ReadInt64On32Bytes (replicate 32 0 @ r) = Inr (0, r)"
  using be_value_zeros [of 32 "[]"] by (simp add: ReadInt64On32Bytes_def buf_Read_def is_int64_def)

lemma ReadInt64On32Bytes_Write:
  assumes "0 \<le> x" "is_int64 x"
  shows "ReadInt64On32Bytes (replicate 24 0 @ PutUint64 x @ r) = Inr (x, r)"
proof -
  have "be_value (replicate 24 0 @ be_bytes 8 x) = x"
    using assms by (simp add: be_value_be_bytes is_int64_def)
  then show ?thesis
    using assms(2) by (simp add: ReadInt64On32Bytes_def buf_Read_def PutUint64_def)
qed

lemma ReadBigIntOn32Bytes_Write:
  assumes "0 \<le> b" "b < 256 ^ 32"
  shows "ReadBigIntOn32Bytes (be_bytes 32 b @ r) = Inr (b, r)"
proof -
  have "be_bytes 32 b \<noteq> []"
    using length_be_bytes [of 32 b] by (metis list.size(3) zero_neq_numeral)
  then show ?thesis
    using assms by (simp add: ReadBigIntOn32Bytes_def buf_Read_def be_value_be_bytes)
qed

lemma Shomei_roundtrip_loses_CodeSize:
  assumes "koala_ok kb" "account_ok a" "0 \<le> Nonce a" "0 \<le> CodeSize a"
  shows "\<exists>n bs rest. writeToShomeiTraces kb buffer_io a [] = Inr (n, None, bs) \<and>
    readFromShomeiTraces kb a0 bs = Inr ((account_norm a)\<lparr>CodeSize := 0\<rparr>, 192, rest) \<and>
    length rest = 32"
proof -
  obtain q where q: "WriteInt64On64Bytes (CodeSize a) = Inr (replicate 48 0 @ q)" "length q = 16"
    using WriteInt64On64Bytes_format by metis
  have z: "replicate 48 0 @ q = replicate 32 (0 :: byte) @ replicate 16 0 @ q"
    by (simp flip: replicate_add append_assoc)
  have b: "0 \<le> balance_of a" "balance_of a < 256 ^ 32"
    using account_ok_balance [OF assms(2)] by simp_all
  then have fb: "FillBytes32 (balance_of a) = Inr (be_bytes 32 (balance_of a))"
    by (simp add: FillBytes32_def)
  have i: "is_int64 (Nonce a)" using assms(2) by (simp add: account_ok_def)
  note w = WriteInt64On32Bytes_io_def WriteBigIntOn32Bytes_io_def WriteInt64On64Bytes_io_def
    octuplet_WriteTo_def Write1Word_def buffer_io_def WriteBigIntOn32Bytes_def fb q(1)
  note rd = ReadInt64On32Bytes_Write [OF assms(3) i] ReadBigIntOn32Bytes_Write [OF b]
    Write_Read_rounds(1) [OF assms(1)] Write_Read_rounds(2) ReadInt64On32Bytes_zeros
  show ?thesis
    by (simp add: writeToShomeiTraces_def readFromShomeiTraces_def w z rd account_norm_def q(2)
        del: replicate_add)
qed

end
