(* ===== verification/Collections.thy ===== *)
theory Collections
  imports Prelude "HOL-Library.AList"
begin

text \<open>
  The generic map wrapper \<open>collection.Mapping\<close> of \<open>src/prover/utils/collection/mapping.go\<close>.

  A Go map is an association list with distinct keys. Go ranges over a map in an unspecified
  order, so every operation that ranges takes a function \<open>perm\<close> that orders the keys;
  \<open>is_order\<close> says that it lists each key once, and nothing else is known of it.

  The locale \<open>kv_store\<close> is the interface of a key-value store to its clients, and \<open>Mapping\<close> is an
  interpretation of it. Its lemmas say that a linear scan for the only entry that satisfies a
  property, and one for the extremal entry, do not depend on the order.
\<close>

subsection \<open>Operations\<close>

type_synonym ('k, 'v) Mapping = "('k \<times> 'v) list"

definition NewMapping :: "('k, 'v) Mapping" where
  "NewMapping = []"

definition MustGet :: "('k, 'v) Mapping \<Rightarrow> 'k \<Rightarrow> 'v result" where
  "MustGet kv key =
     (case map_of kv key of None \<Rightarrow> Inl (Panic ''Entry does not exists'') | Some res \<Rightarrow> Inr res)"

definition TryGet :: "('k, 'v) Mapping \<Rightarrow> 'k \<Rightarrow> 'v option" where
  "TryGet kv key = map_of kv key"

definition InsertNew :: "('k, 'v) Mapping \<Rightarrow> 'k \<Rightarrow> 'v \<Rightarrow> ('k, 'v) Mapping result" where
  "InsertNew kv key v =
     (if map_of kv key \<noteq> None then Inl (Panic ''Entry already found'')
      else Inr (AList.update key v kv))"

definition Mapping_Update :: "('k, 'v) Mapping \<Rightarrow> 'k \<Rightarrow> 'v \<Rightarrow> ('k, 'v) Mapping" where
  "Mapping_Update kv key v = AList.update key v kv"

definition ListAllKeys :: "('k list \<Rightarrow> 'k list) \<Rightarrow> ('k, 'v) Mapping \<Rightarrow> 'k list" where
  "ListAllKeys perm kv = perm (map fst kv)"

definition MustExists :: "('k, 'v) Mapping \<Rightarrow> 'k list \<Rightarrow> unit result" where
  "MustExists kv keys =
     (if list_all (\<lambda>key. map_of kv key \<noteq> None) keys then Inr ()
      else Inl (Panic ''MustExists : assertion failed''))"

definition IterateFunc ::
  "('k list \<Rightarrow> 'k list) \<Rightarrow> ('k, 'v) Mapping \<Rightarrow> ('s \<Rightarrow> 'k \<Rightarrow> 'v \<Rightarrow> 's) \<Rightarrow> 's \<Rightarrow> 's" where
  "IterateFunc perm kv f s =
     foldl (\<lambda>s k. case map_of kv k of None \<Rightarrow> s | Some v \<Rightarrow> f s k v) s (perm (map fst kv))"

fun Exists :: "('k, 'v) Mapping \<Rightarrow> 'k list \<Rightarrow> bool" where
  "Exists kv [] = True"
| "Exists kv (k # ks) = (if map_of kv k = None then False else Exists kv ks)"

definition ListValues :: "('k list \<Rightarrow> 'k list) \<Rightarrow> ('k, 'v) Mapping \<Rightarrow> 'v list" where
  "ListValues perm kv = List.map_filter (map_of kv) (perm (map fst kv))"

definition Del :: "('k, 'v) Mapping \<Rightarrow> 'k \<Rightarrow> ('k, 'v) Mapping result" where
  "Del kv k = rbind (MustGet kv k) (\<lambda>_. Inr (AList.delete k kv))"

definition TryDel :: "('k, 'v) Mapping \<Rightarrow> 'k \<Rightarrow> (bool \<times> ('k, 'v) Mapping) result" where
  "TryDel kv k =
     (let found = Exists kv [k]
      in if found then rbind (MustGet kv k) (\<lambda>_. Inr (found, AList.delete k kv))
         else Inr (found, kv))"

definition Mapping_Len :: "('k list \<Rightarrow> 'k list) \<Rightarrow> ('k, 'v) Mapping \<Rightarrow> nat" where
  "Mapping_Len perm kv = length (ListAllKeys perm kv)"

definition Mapping_Clone :: "('k list \<Rightarrow> 'k list) \<Rightarrow> ('k, 'v) Mapping \<Rightarrow> ('k, 'v) Mapping result" where
  "Mapping_Clone perm kv =
     foldM (\<lambda>res k. rbind (MustGet kv k) (\<lambda>v. InsertNew res k v)) NewMapping (perm (map fst kv))"

subsection \<open>Orders\<close>

definition is_order :: "('k list \<Rightarrow> 'k list) \<Rightarrow> bool" where
  "is_order perm \<longleftrightarrow> (\<forall>xs. distinct xs \<longrightarrow> distinct (perm xs) \<and> set (perm xs) = set xs)"

definition mapping_ok :: "('k, 'v) Mapping \<Rightarrow> bool" where
  "mapping_ok kv \<longleftrightarrow> distinct (map fst kv)"

lemma is_orderD:
  "is_order perm \<Longrightarrow> distinct xs \<Longrightarrow> distinct (perm xs)"
  "is_order perm \<Longrightarrow> distinct xs \<Longrightarrow> set (perm xs) = set xs"
  by (simp_all add: is_order_def)

lemma is_order_id [simp]: "is_order (\<lambda>xs. xs)"
  by (simp add: is_order_def)

lemma is_order_rev [simp]: "is_order rev"
  by (simp add: is_order_def)

lemma ListAllKeys_dom:
  "is_order perm \<Longrightarrow> mapping_ok kv \<Longrightarrow> distinct (ListAllKeys perm kv)"
  "is_order perm \<Longrightarrow> mapping_ok kv \<Longrightarrow> set (ListAllKeys perm kv) = dom (map_of kv)"
  by (simp_all add: ListAllKeys_def mapping_ok_def is_orderD dom_map_of_conv_image_fst)

subsection \<open>The interface of a store to its clients\<close>

locale kv_store =
  fixes valid :: "'m \<Rightarrow> bool"
    and get :: "'m \<Rightarrow> 'k \<Rightarrow> 'v option"
    and put :: "'m \<Rightarrow> 'k \<Rightarrow> 'v \<Rightarrow> 'm"
    and remove :: "'m \<Rightarrow> 'k \<Rightarrow> 'm result"
    and keys :: "('k list \<Rightarrow> 'k list) \<Rightarrow> 'm \<Rightarrow> 'k list"
  assumes put_law: "valid m \<Longrightarrow> valid (put m k v) \<and> get (put m k v) = (get m)(k \<mapsto> v)"
    and remove_law: "valid m \<Longrightarrow> get m k \<noteq> None \<Longrightarrow>
      \<exists>m'. remove m k = Inr m' \<and> valid m' \<and> get m' = (get m)(k := None)"
    and remove_missing: "valid m \<Longrightarrow> get m k = None \<Longrightarrow> \<not> returns (remove m k)"
    and keys_law: "valid m \<Longrightarrow> is_order perm \<Longrightarrow>
      distinct (keys perm m) \<and> set (keys perm m) = dom (get m)"
begin

lemma finite_dom: "valid m \<Longrightarrow> finite (dom (get m))"
  using keys_law [of m "\<lambda>xs. xs"] by (metis List.finite_set is_order_id)

text \<open>Scanning for the entry that satisfies a property.\<close>

lemma find_None:
  "valid m \<Longrightarrow> is_order perm \<Longrightarrow>
   find P (keys perm m) = None \<longleftrightarrow> (\<forall>k v. get m k = Some v \<longrightarrow> \<not> P k)"
  using keys_law [of m perm] by (auto simp: find_None_iff)

lemma find_unique:
  assumes "valid m" "is_order perm" "get m k = Some v" "P k"
    "\<And>k' v'. get m k' = Some v' \<Longrightarrow> P k' \<Longrightarrow> k' = k"
  shows "find P (keys perm m) = Some k"
proof -
  have "find P (keys perm m) \<noteq> None"
    using find_None [OF assms(1,2)] assms(3,4) by blast
  then obtain k' where k': "find P (keys perm m) = Some k'" by blast
  then have "P k'" "k' \<in> dom (get m)"
    using keys_law [OF assms(1,2)] by (auto simp: find_Some_iff)
  with k' assms(5) show ?thesis by auto
qed

text \<open>Two iteration orders find the same entry.\<close>

lemma find_order_independent:
  assumes "valid m" "is_order perm" "is_order perm'"
    "\<And>k k' v v'. get m k = Some v \<Longrightarrow> P k \<Longrightarrow> get m k' = Some v' \<Longrightarrow> P k' \<Longrightarrow> k' = k"
  shows "find P (keys perm m) = find P (keys perm' m)"
proof (cases "find P (keys perm m)")
  case None
  then show ?thesis using find_None assms(1-3) by metis
next
  case (Some k)
  then have "P k" "k \<in> dom (get m)"
    using keys_law [OF assms(1,2)] by (auto simp: find_Some_iff)
  then show ?thesis
    using find_unique [OF assms(1,3)] assms(4) Some by (metis domD)
qed

end

lemma mapping_laws:
  assumes "mapping_ok kv"
  shows "mapping_ok (Mapping_Update kv k v)" "map_of (Mapping_Update kv k v) = (map_of kv)(k \<mapsto> v)"
    "map_of kv k \<noteq> None \<Longrightarrow>
       \<exists>kv'. Del kv k = Inr kv' \<and> mapping_ok kv' \<and> map_of kv' = (map_of kv)(k := None)"
  using assms
  by (auto simp: mapping_ok_def Mapping_Update_def Del_def MustGet_def update_conv' distinct_update
      delete_conv' distinct_delete)

interpretation mapping: kv_store mapping_ok TryGet Mapping_Update Del ListAllKeys
  by unfold_locales
    (auto simp: Mapping_Update_def update_conv' distinct_update TryGet_def [abs_def] Del_def MustGet_def ListAllKeys_dom delete_conv'
      mapping_ok_def distinct_delete)

subsection \<open>Derived operations\<close>

lemma mapping_ok_New [simp]: "mapping_ok NewMapping"
  by (simp add: mapping_ok_def NewMapping_def)

lemma InsertNew_fresh:
  "mapping_ok kv \<Longrightarrow> map_of kv k = None \<Longrightarrow>
   \<exists>kv'. InsertNew kv k v = Inr kv' \<and> mapping_ok kv' \<and> map_of kv' = (map_of kv)(k \<mapsto> v)"
  using mapping_laws(1,2) [of kv k v] by (simp add: InsertNew_def Mapping_Update_def)

lemma MustGet_iff: "MustGet kv k = Inr v \<longleftrightarrow> map_of kv k = Some v"
  by (auto simp: MustGet_def split: option.splits)

lemma Exists_iff: "Exists kv ks \<longleftrightarrow> set ks \<subseteq> dom (map_of kv)"
  by (induction ks) (auto split: if_splits)

lemma TryDel_map:
  assumes "mapping_ok kv"
  shows "\<exists>kv'. TryDel kv k = Inr (map_of kv k \<noteq> None, kv') \<and> mapping_ok kv' \<and>
               map_of kv' = (map_of kv)(k := None)"
  using mapping_laws(3) [OF assms, of k] assms
  by (auto simp: TryDel_def Del_def MustGet_def Let_def split: option.splits)

lemma Mapping_Len_card:
  "is_order perm \<Longrightarrow> mapping_ok kv \<Longrightarrow> Mapping_Len perm kv = card (dom (map_of kv))"
  using ListAllKeys_dom [of perm kv] by (simp add: Mapping_Len_def flip: distinct_card)

lemma Clone_loop:
  assumes "distinct ks" "set ks \<subseteq> dom (map_of kv)" "mapping_ok res" "set ks \<inter> dom (map_of res) = {}"
  shows "\<exists>res'. foldM (\<lambda>res k. rbind (MustGet kv k) (\<lambda>v. InsertNew res k v)) res ks = Inr res' \<and>
    mapping_ok res' \<and> map_of res' = map_of res ++ (map_of kv |` set ks)"
  using assms
proof (induction ks arbitrary: res)
  case (Cons k ks)
  then obtain v where v: "map_of kv k = Some v" by auto
  have "map_of res k = None" using Cons.prems(4) by auto
  then obtain res1 where r: "InsertNew res k v = Inr res1" "mapping_ok res1"
    "map_of res1 = (map_of res)(k \<mapsto> v)"
    using InsertNew_fresh [OF Cons.prems(3)] by blast
  have "set ks \<inter> dom (map_of res1) = {}" using r(3) Cons.prems(1,4) by auto
  then obtain res' where "foldM (\<lambda>res k. rbind (MustGet kv k) (\<lambda>v. InsertNew res k v)) res1 ks = Inr res'"
    "mapping_ok res'" "map_of res' = map_of res1 ++ (map_of kv |` set ks)"
    using Cons.IH [of res1] Cons.prems r(2) by auto
  moreover have "map_of res1 ++ (map_of kv |` set ks) = map_of res ++ (map_of kv |` set (k # ks))"
    using r(3) v Cons.prems(1) by (auto simp: map_add_def restrict_map_def fun_eq_iff split: option.splits)
  ultimately show ?case using v r(1) by (auto simp: MustGet_def)
qed simp

lemma Mapping_Clone_map:
  assumes "is_order perm" "mapping_ok kv"
  shows "\<exists>kv'. Mapping_Clone perm kv = Inr kv' \<and> mapping_ok kv' \<and> map_of kv' = map_of kv"
proof -
  have "distinct (perm (map fst kv))" "set (perm (map fst kv)) = dom (map_of kv)"
    using ListAllKeys_dom [OF assms] by (simp_all add: ListAllKeys_def)
  moreover have "map_of kv |` dom (map_of kv) = map_of kv"
    by (auto simp: restrict_map_def fun_eq_iff domIff)
  ultimately show ?thesis
    using Clone_loop [of "perm (map fst kv)" kv NewMapping]
    by (auto simp: Mapping_Clone_def NewMapping_def mapping_ok_def)
qed

end
