(* ===== verification/Accumulator.thy ===== *)
theory Accumulator
  imports Smt Types Collections
begin

text \<open>
  The state accumulator of \<open>src/prover/crypto/state-management/accumulator\<close>: a key-value map whose
  entries are leaves of a sparse Merkle tree, chained in the order of their hashed keys. This
  theory holds the definitions, in the order of the files \<open>leafopening.go\<close>, \<open>proverstate.go\<close>,
  \<open>verifierstate.go\<close>, \<open>insertion.go\<close>, \<open>deletion.go\<close>, \<open>update.go\<close>, \<open>readzero.go\<close> and
  \<open>readnonzero.go\<close>.

  The generic parameters \<open>K\<close> and \<open>V\<close> of the code are type variables; the record \<open>env\<close> holds
  what the code gets from outside: the imported field, the \<open>WriteTo\<close> methods and the zero values of
  \<open>K\<close> and \<open>V\<close>, and the order in which the runtime ranges over a map at a given call. A verifier
  method returns its state and the error, because it may have changed the state before failing; a
  panic is a failure of the whole call.
\<close>

record ('f, 'k, 'v) env =
  koala :: "'f koalabear"
  writeK :: "('f, 'k) writer"
  writeV :: "('f, 'v) writer"
  zeroK :: 'k
  zeroV :: 'v
  iter :: "nat \<Rightarrow> int list \<Rightarrow> int list"

definition hashK :: "(('f::zero), 'k, 'v) env \<Rightarrow> 'k \<Rightarrow> 'f octuplet result" where
  "hashK E k = hash (koala E) (writeK E) k"

definition hashV :: "(('f::zero), 'k, 'v) env \<Rightarrow> 'v \<Rightarrow> 'f octuplet result" where
  "hashV E v = hash (koala E) (writeV E) v"

text \<open>\<open>if err != nil { utils.Panic(...) }\<close>\<close>

fun or_panic :: "string \<Rightarrow> 'a result \<Rightarrow> 'a result" where
  "or_panic m (Inl (Err _)) = Inl (Panic m)"
| "or_panic m r = r"

text \<open>\<open>x, _ := f()\<close>: the error is dropped and \<open>x\<close> is what \<open>f\<close> returned with it.\<close>

fun or_default :: "'a \<Rightarrow> 'a result \<Rightarrow> 'a result" where
  "or_default x (Inl (Err _)) = Inr x"
| "or_default x r = r"

subsection \<open>Leaf openings\<close>

record 'f LeafOpening =
  Prev :: int
  Next :: int
  HKey :: "'f octuplet"
  HVal :: "'f octuplet"

record ('f, 'k, 'v) KVOpeningTuple =
  tup_LeafOpening :: "'f LeafOpening"
  tup_Key :: 'k
  tup_Value :: 'v

definition LeafOpening_WriteTo ::
  "('f::zero) koalabear \<Rightarrow> 's io_writer \<Rightarrow> 'f LeafOpening \<Rightarrow> 's \<Rightarrow> (nat \<times> string option \<times> 's) result" where
  "LeafOpening_WriteTo kb w leaf s =
     rbind (WriteInt64On64Bytes_io w (Prev leaf) s) (\<lambda>(n0, _, s).
     rbind (WriteInt64On64Bytes_io w (Next leaf) s) (\<lambda>(n1, _, s).
     let (n2, _, s) = octuplet_WriteTo kb w (HKey leaf) s;
         (n3, _, s) = octuplet_WriteTo kb w (HVal leaf) s;
         total = n0 + n1 + n2 + n3
     in if total \<noteq> 192 then Inl (Panic ''bad size'') else Inr (total, None, s)))"

definition LeafOpening_Hash :: "('f::zero) koalabear \<Rightarrow> 'f LeafOpening \<Rightarrow> 'f octuplet result" where
  "LeafOpening_Hash kb leaf = hash kb (LeafOpening_WriteTo kb (hasher_io kb)) leaf"

definition Head :: "('f::zero) LeafOpening" where
  "Head = \<lparr>Prev = 0, Next = 1, HKey = 0, HVal = 0\<rparr>"

definition Tail :: "('f::comm_ring_1) LeafOpening" where
  "Tail = \<lparr>Prev = 0, Next = 1, HKey = MaxKoalaOctuplet, HVal = 0\<rparr>"

definition HeadOrTail :: "('f::comm_ring_1) LeafOpening \<Rightarrow> bool" where
  "HeadOrTail leaf \<longleftrightarrow> IsMaxOctuplet (HKey leaf) \<or> HKey leaf = 0"

definition CheckAndLeaf ::
  "(('f::comm_ring_1), 'k, 'v) env \<Rightarrow> ('f, 'k, 'v) KVOpeningTuple \<Rightarrow> 'f octuplet result" where
  "CheckAndLeaf E t =
     (if HeadOrTail (tup_LeafOpening t) then LeafOpening_Hash (koala E) (tup_LeafOpening t)
      else rbind (hashK E (tup_Key t)) (\<lambda>hk.
        if HKey (tup_LeafOpening t) \<noteq> hk then Inl (Err ''inconsistent key and leaf openings'')
        else rbind (hashV E (tup_Value t)) (\<lambda>hv.
          if HVal (tup_LeafOpening t) \<noteq> hv then Inl (Err ''inconsistent val and leaf opening'')
          else LeafOpening_Hash (koala E) (tup_LeafOpening t))))"

definition LeafOpening_CopyWithPrev :: "'f LeafOpening \<Rightarrow> int \<Rightarrow> 'f LeafOpening" where
  "LeafOpening_CopyWithPrev leaf prev = leaf\<lparr>Prev := prev\<rparr>"

definition LeafOpening_CopyWithNext :: "'f LeafOpening \<Rightarrow> int \<Rightarrow> 'f LeafOpening" where
  "LeafOpening_CopyWithNext leaf next = leaf\<lparr>Next := next\<rparr>"

definition MatchValue :: "('f::zero) koalabear \<Rightarrow> 'f LeafOpening \<Rightarrow> ('f, 'v) writer \<Rightarrow> 'v \<Rightarrow> bool result" where
  "MatchValue kb l wt v = rbind (hash kb wt v) (\<lambda>hval. Inr (HVal l = hval))"

definition MatchKey :: "('f::zero) koalabear \<Rightarrow> 'f LeafOpening \<Rightarrow> ('f, 'k) writer \<Rightarrow> 'k \<Rightarrow> bool result" where
  "MatchKey kb l wt k = rbind (hash kb wt k) (\<lambda>hkey. Inr (HKey l = hkey))"

definition CopyWithPrev :: "('f, 'k, 'v) KVOpeningTuple \<Rightarrow> int \<Rightarrow> ('f, 'k, 'v) KVOpeningTuple" where
  "CopyWithPrev t prev = t\<lparr>tup_LeafOpening := (tup_LeafOpening t)\<lparr>Prev := prev\<rparr>\<rparr>"

definition CopyWithNext :: "('f, 'k, 'v) KVOpeningTuple \<Rightarrow> int \<Rightarrow> ('f, 'k, 'v) KVOpeningTuple" where
  "CopyWithNext t next = t\<lparr>tup_LeafOpening := (tup_LeafOpening t)\<lparr>Next := next\<rparr>\<rparr>"

definition CopyWithVal ::
  "(('f::zero), 'k, 'v) env \<Rightarrow> ('f, 'k, 'v) KVOpeningTuple \<Rightarrow> 'v \<Rightarrow> ('f, 'k, 'v) KVOpeningTuple result" where
  "CopyWithVal E t val =
     rbind (hashV E val) (\<lambda>hv.
       Inr (t\<lparr>tup_Value := val, tup_LeafOpening := (tup_LeafOpening t)\<lparr>HVal := hv\<rparr>\<rparr>))"

subsection \<open>The prover state\<close>

record ('f, 'k, 'v) ProverState =
  ps_Location :: string
  ps_NextFreeNode :: int
  ps_Tree :: "'f tree"
  ps_Data :: "(int, ('f, 'k, 'v) KVOpeningTuple) Mapping"

definition InitializeProverState ::
  "(('f::comm_ring_1), 'k, 'v) env \<Rightarrow> string \<Rightarrow> ('f, 'k, 'v) ProverState result" where
  "InitializeProverState E location =
     (let tree = NewEmptyTree (koala E) [] in
      rbind (LeafOpening_Hash (koala E) Head) (\<lambda>hh.
      rbind (Update (koala E) tree 0 hh) (\<lambda>tree.
      rbind (LeafOpening_Hash (koala E) Tail) (\<lambda>ht.
      rbind (Update (koala E) tree 1 ht) (\<lambda>tree.
      let zero = \<lparr>tup_LeafOpening = Head, tup_Key = zeroK E, tup_Value = zeroV E\<rparr> in
      rbind (InsertNew NewMapping 0 zero) (\<lambda>data.
      rbind (InsertNew data 1 (zero\<lparr>tup_LeafOpening := Tail\<rparr>)) (\<lambda>data.
        Inr \<lparr>ps_Location = location, ps_NextFreeNode = 2, ps_Tree = tree, ps_Data = data\<rparr>)))))))"

definition SubTreeRoot :: "('f, 'k, 'v) ProverState \<Rightarrow> 'f octuplet" where
  "SubTreeRoot s = Root (ps_Tree s)"

fun FindKey_loop ::
  "'f octuplet \<Rightarrow> (int, ('f, 'k, 'v) KVOpeningTuple) Mapping \<Rightarrow> int list \<Rightarrow> (int \<times> bool) result" where
  "FindKey_loop hkey data [] = Inr (0, False)"
| "FindKey_loop hkey data (i # is) =
     rbind (MustGet data i) (\<lambda>t.
       if hkey = HKey (tup_LeafOpening t) then Inr (i, True) else FindKey_loop hkey data is)"

definition FindKey ::
  "(('f::zero), 'k, 'v) env \<Rightarrow> ('f, 'k, 'v) ProverState \<Rightarrow> 'k \<Rightarrow> (int \<times> bool) result" where
  "FindKey E s k =
     rbind (hashK E k) (\<lambda>hkey.
       FindKey_loop hkey (ps_Data s) (ListAllKeys (iter E 0) (ps_Data s)))"

definition State_ListAllKeys ::
  "(('f::{comm_ring_1, linorder}), 'k, 'v) env \<Rightarrow> ('f, 'k, 'v) ProverState \<Rightarrow> 'k list result" where
  "State_ListAllKeys E s =
     foldM (\<lambda>containedKeys i.
       rbind (MustGet (ps_Data s) i) (\<lambda>tuple.
         if \<not> (Cmp (HKey (tup_LeafOpening tuple)) 0 = 0 \<or>
               Cmp (HKey (tup_LeafOpening tuple)) MaxKoalaOctuplet = 0)
         then Inr (containedKeys @ [tup_Key tuple]) else Inr containedKeys))
       [] (ListAllKeys (iter E 2) (ps_Data s))"

fun findSandwich_loop ::
  "('f::linorder) octuplet \<Rightarrow> (int, ('f, 'k, 'v) KVOpeningTuple) Mapping \<Rightarrow> int list \<Rightarrow>
   'f octuplet \<times> int \<Rightarrow> 'f octuplet \<times> int \<Rightarrow> (('f octuplet \<times> int) \<times> ('f octuplet \<times> int)) result" where
  "findSandwich_loop hkey data [] low high = Inr (low, high)"
| "findSandwich_loop hkey data (i # is) (hminus, iminus) (hplus, iplus) =
     rbind (MustGet data i) (\<lambda>t.
       let curHkey = HKey (tup_LeafOpening t); c = Cmp curHkey hkey in
       if c = 0 then Inl (Panic ''Found a perfect match'')
       else if c = 1 then
         findSandwich_loop hkey data is (hminus, iminus)
           (if Cmp curHkey hplus = -1 then (curHkey, i) else (hplus, iplus))
       else
         findSandwich_loop hkey data is
           (if Cmp curHkey hminus = 1 then (curHkey, i) else (hminus, iminus)) (hplus, iplus))"

definition findSandwich ::
  "(('f::{comm_ring_1, linorder}), 'k, 'v) env \<Rightarrow> ('f, 'k, 'v) ProverState \<Rightarrow> 'k \<Rightarrow> (int \<times> int) result" where
  "findSandwich E s k =
     rbind (hashK E k) (\<lambda>hkey.
     rbind (findSandwich_loop hkey (ps_Data s) (ListAllKeys (iter E 1) (ps_Data s))
              (0, 0) (MaxKoalaOctuplet, 1)) (\<lambda>((hminus, iminus), (hplus, iplus)).
       if iminus = iplus then Inl (Panic ''iplus, iminus'') else Inr (iminus, iplus)))"

definition upsertTuple ::
  "(('f::comm_ring_1), 'k, 'v) env \<Rightarrow> ('f, 'k, 'v) ProverState \<Rightarrow> int \<Rightarrow>
   ('f, 'k, 'v) KVOpeningTuple \<Rightarrow> ('f proof_rec \<times> ('f, 'k, 'v) ProverState) result" where
  "upsertTuple E s i tuple =
     rbind (or_panic ''illegal tuple'' (CheckAndLeaf E tuple)) (\<lambda>leaf.
     rbind (case TryGet (ps_Data s) i of
              None \<Rightarrow> Inr ()
            | Some old \<Rightarrow>
                rbind (or_panic ''illegal old tuple'' (CheckAndLeaf E old)) (\<lambda>_.
                let lo = tup_LeafOpening old; ln = tup_LeafOpening tuple in
                rbind (require (HKey lo = HKey ln) (Panic ''cannot change the key'')) (\<lambda>_.
                let numChanges = (if HVal lo \<noteq> HVal ln then 1 else 0) + (if Prev lo \<noteq> Prev ln then 1 else 0)
                      + (if Next lo \<noteq> Next ln then (1::nat) else 0)
                in if numChanges \<noteq> 1 then Inl (Panic ''illegal change'') else Inr ()))) (\<lambda>_.
     let data = Mapping_Update (ps_Data s) i tuple in
     rbind (Update (koala E) (ps_Tree s) i leaf) (\<lambda>tree.
     rbind (MustProve tree i) (\<lambda>p.
       Inr (p, s\<lparr>ps_Data := data, ps_Tree := tree\<rparr>)))))"

definition rmTuple ::
  "(('f::comm_ring_1), 'k, 'v) env \<Rightarrow> ('f, 'k, 'v) ProverState \<Rightarrow> int \<Rightarrow>
   ('f proof_rec \<times> ('f, 'k, 'v) ProverState) result" where
  "rmTuple E s i =
     rbind (MustExists (ps_Data s) [i]) (\<lambda>_.
     rbind (Del (ps_Data s) i) (\<lambda>data.
     rbind (Update (koala E) (ps_Tree s) i EmptyLeaf) (\<lambda>tree.
     rbind (MustProve tree i) (\<lambda>p.
       Inr (p, s\<lparr>ps_Data := data, ps_Tree := tree\<rparr>)))))"

text \<open>The bytes hashed by both \<open>TopRoot\<close> methods; the errors of the two writes are dropped.\<close>

definition top_root_digest :: "('f::zero) koalabear \<Rightarrow> int \<Rightarrow> 'f octuplet \<Rightarrow> byte list result" where
  "top_root_digest kb nextFreeNode subTreeRoot =
     rbind (WriteInt64On64Bytes_io (hasher_io kb) nextFreeNode NewMDHasher) (\<lambda>(_, _, hasher).
     let (_, _, hasher) = octuplet_WriteTo kb (hasher_io kb) subTreeRoot hasher in
     rbind (Sum kb hasher []) (\<lambda>(digest, _). Inr digest))"

definition ProverState_TopRoot ::
  "(('f::zero), 'k, 'v) env \<Rightarrow> ('f, 'k, 'v) ProverState \<Rightarrow> 'f octuplet result" where
  "ProverState_TopRoot E s =
     rbind (top_root_digest (koala E) (ps_NextFreeNode s) (SubTreeRoot s)) (\<lambda>bytes32.
       or_panic ''invalid digest'' (BytesToKoalaOctuplet (koala E) bytes32))"

subsection \<open>The verifier state\<close>

record 'f VerifierState =
  vs_Location :: string
  vs_NextFreeNode :: int
  vs_SubTreeRoot :: "'f octuplet"

definition VerifierState_of :: "('f, 'k, 'v) ProverState \<Rightarrow> 'f VerifierState" where
  "VerifierState_of p =
     \<lparr>vs_Location = ps_Location p, vs_NextFreeNode = ps_NextFreeNode p,
      vs_SubTreeRoot = Root (ps_Tree p)\<rparr>"

definition updateCheckRoot ::
  "('f::zero) koalabear \<Rightarrow> 'f proof_rec \<Rightarrow> 'f octuplet \<Rightarrow> 'f octuplet \<Rightarrow> 'f octuplet \<Rightarrow> 'f octuplet result" where
  "updateCheckRoot kb p root old new =
     rbind (Verify kb p old root) (\<lambda>_. or_default 0 (RecoverRoot kb p new))"

definition VerifierState_TopRoot :: "('f::zero) koalabear \<Rightarrow> 'f VerifierState \<Rightarrow> 'f octuplet result" where
  "VerifierState_TopRoot kb v =
     rbind (top_root_digest kb (vs_NextFreeNode v) (vs_SubTreeRoot v)) (MustBytesToKoalaOctuplet kb)"

definition deferCheckUpdateRoot ::
  "('f::zero) koalabear \<Rightarrow> 'f proof_rec \<Rightarrow> 'f octuplet \<Rightarrow> 'f octuplet \<Rightarrow> 'f octuplet \<Rightarrow>
   'f ProvedClaim list \<Rightarrow> ('f ProvedClaim list \<times> 'f octuplet) result" where
  "deferCheckUpdateRoot kb p root old new appendTo =
     rbind (or_panic ''cannot recover root'' (RecoverRoot kb p new)) (\<lambda>newRoot.
       Inr (appendTo @ [\<lparr>claim_Proof = p, claim_Root = root, claim_Leaf = old\<rparr>,
                        \<lparr>claim_Proof = p, claim_Root = newRoot, claim_Leaf = new\<rparr>], newRoot))"

text \<open>An error return of a verifier method that has not changed its state yet.\<close>

fun audit :: "'s \<Rightarrow> ('s \<times> string option) result \<Rightarrow> ('s \<times> string option) result" where
  "audit v (Inl (Err m)) = Inr (v, Some m)"
| "audit v r = r"

subsection \<open>Insertions\<close>

record ('f, 'k, 'v) InsertionTrace =
  it_Type :: int
  it_Location :: string
  it_NewNextFreeNode :: int
  it_OldSubRoot :: "'f octuplet"
  it_NewSubRoot :: "'f octuplet"
  it_ProofMinus :: "'f proof_rec"
  it_ProofNew :: "'f proof_rec"
  it_ProofPlus :: "'f proof_rec"
  it_Key :: 'k
  it_Val :: 'v
  it_OldOpenMinus :: "'f LeafOpening"
  it_OldOpenPlus :: "'f LeafOpening"

definition InsertAndProve ::
  "(('f::{comm_ring_1, linorder}), 'k, 'v) env \<Rightarrow> ('f, 'k, 'v) ProverState \<Rightarrow> 'k \<Rightarrow> 'v \<Rightarrow>
   (('f, 'k, 'v) InsertionTrace \<times> ('f, 'k, 'v) ProverState) result" where
  "InsertAndProve E p key val =
     rbind (FindKey E p key) (\<lambda>(_, found).
     rbind (require (\<not> found) (Panic ''called insert, but the key was present'')) (\<lambda>_.
     rbind (findSandwich E p key) (\<lambda>(iMinus, iPlus).
     rbind (MustGet (ps_Data p) iMinus) (\<lambda>tupleMinus.
     rbind (MustGet (ps_Data p) iPlus) (\<lambda>tuplePlus.
     let oldSubRoot = SubTreeRoot p; newNextFreeNode = wrap64 (ps_NextFreeNode p + 1);
         iInserted = ps_NextFreeNode p;
         newTupleMinus = CopyWithNext tupleMinus iInserted in
     rbind (upsertTuple E p iMinus newTupleMinus) (\<lambda>(proofMinus, p).
     rbind (hashK E key) (\<lambda>hk.
     rbind (hashV E val) (\<lambda>hv.
     let insertedTuple = \<lparr>tup_LeafOpening = \<lparr>Prev = iMinus, Next = iPlus, HKey = hk, HVal = hv\<rparr>,
                          tup_Key = key, tup_Value = val\<rparr> in
     rbind (upsertTuple E p iInserted insertedTuple) (\<lambda>(proofNew, p).
     let newTuplePlus = CopyWithPrev tuplePlus iInserted in
     rbind (upsertTuple E p iPlus newTuplePlus) (\<lambda>(proofPlus, p).
     let p = p\<lparr>ps_NextFreeNode := wrap64 (ps_NextFreeNode p + 1)\<rparr> in
       Inr (\<lparr>it_Type = 0, it_Location = ps_Location p, it_NewNextFreeNode = newNextFreeNode,
             it_OldSubRoot = oldSubRoot, it_NewSubRoot = SubTreeRoot p,
             it_ProofMinus = proofMinus, it_ProofNew = proofNew, it_ProofPlus = proofPlus,
             it_Key = key, it_Val = val,
             it_OldOpenMinus = tup_LeafOpening tupleMinus,
             it_OldOpenPlus = tup_LeafOpening tuplePlus\<rparr>, p)))))))))))"

definition VerifyInsertion ::
  "(('f::{comm_ring_1, linorder}), 'k, 'v) env \<Rightarrow> 'f VerifierState \<Rightarrow> ('f, 'k, 'v) InsertionTrace \<Rightarrow>
   ('f VerifierState \<times> string option) result" where
  "VerifyInsertion E v trace = audit v (
     rbind (require (vs_Location v = it_Location trace) (Err ''inconsistent location'')) (\<lambda>_.
     rbind (require (vs_SubTreeRoot v = it_OldSubRoot trace) (Err ''inconsistent root'')) (\<lambda>_.
     let iMinus = Path (it_ProofMinus trace); iInserted = Path (it_ProofNew trace);
         iPlus = Path (it_ProofPlus trace) in
     rbind (require (iInserted = vs_NextFreeNode v) (Err ''writing in the wrong place'')) (\<lambda>_.
     rbind (require (\<not> (Next (it_OldOpenMinus trace) \<noteq> iPlus \<or> Prev (it_OldOpenPlus trace) \<noteq> iMinus))
              (Err ''bad sandwich prev and next do not point to each other'')) (\<lambda>_.
     rbind (hashK E (it_Key trace)) (\<lambda>hkey.
     rbind (require (\<not> (Cmp hkey (HKey (it_OldOpenMinus trace)) < 1 \<or>
                        Cmp hkey (HKey (it_OldOpenPlus trace)) > -1)) (Err ''sandwich is incorrect'')) (\<lambda>_.
     let currentRoot = it_OldSubRoot trace in
     rbind (LeafOpening_Hash (koala E) (it_OldOpenMinus trace)) (\<lambda>oldLeafMinus.
     rbind (LeafOpening_Hash (koala E) (LeafOpening_CopyWithNext (it_OldOpenMinus trace) (vs_NextFreeNode v)))
       (\<lambda>newLeafMinus.
     rbind (updateCheckRoot (koala E) (it_ProofMinus trace) currentRoot oldLeafMinus newLeafMinus)
       (\<lambda>currentRoot.
     rbind (hashV E (it_Val trace)) (\<lambda>hval.
     rbind (LeafOpening_Hash (koala E) \<lparr>Prev = Path (it_ProofMinus trace), Next = Path (it_ProofPlus trace),
              HKey = hkey, HVal = hval\<rparr>) (\<lambda>newLeaf.
     rbind (updateCheckRoot (koala E) (it_ProofNew trace) currentRoot EmptyLeaf newLeaf) (\<lambda>currentRoot.
     rbind (LeafOpening_Hash (koala E) (it_OldOpenPlus trace)) (\<lambda>oldLeafPlus.
     rbind (LeafOpening_Hash (koala E) (LeafOpening_CopyWithPrev (it_OldOpenPlus trace) iInserted))
       (\<lambda>newLeafPlus.
     rbind (updateCheckRoot (koala E) (it_ProofPlus trace) currentRoot oldLeafPlus newLeafPlus)
       (\<lambda>currentRoot.
     rbind (require (currentRoot = it_NewSubRoot trace) (Err ''inconsistent root'')) (\<lambda>_.
     let v = v\<lparr>vs_SubTreeRoot := currentRoot, vs_NextFreeNode := wrap64 (vs_NextFreeNode v + 1)\<rparr> in
       if vs_NextFreeNode v \<noteq> it_NewNextFreeNode trace
       then Inr (v, Some ''inconsistent next free node'')
       else Inr (v, None))))))))))))))))))"

definition InsertionTrace_DeferMerkleChecks ::
  "(('f::zero), 'k, 'v) env \<Rightarrow> ('f, 'k, 'v) InsertionTrace \<Rightarrow> 'f ProvedClaim list \<Rightarrow>
   'f ProvedClaim list result" where
  "InsertionTrace_DeferMerkleChecks E trace appendTo =
     (let iInserted = Path (it_ProofNew trace) in
     rbind (hashK E (it_Key trace)) (\<lambda>hkey.
     let currentRoot = it_OldSubRoot trace in
     rbind (LeafOpening_Hash (koala E) (it_OldOpenMinus trace)) (\<lambda>oldLeafMinus.
     rbind (LeafOpening_Hash (koala E)
              (LeafOpening_CopyWithNext (it_OldOpenMinus trace) (Path (it_ProofNew trace)))) (\<lambda>newLeafMinus.
     rbind (deferCheckUpdateRoot (koala E) (it_ProofMinus trace) currentRoot oldLeafMinus newLeafMinus appendTo)
       (\<lambda>(appendTo, currentRoot).
     rbind (hashV E (it_Val trace)) (\<lambda>hval.
     rbind (LeafOpening_Hash (koala E) \<lparr>Prev = Path (it_ProofMinus trace), Next = Path (it_ProofPlus trace),
              HKey = hkey, HVal = hval\<rparr>) (\<lambda>newLeaf.
     rbind (deferCheckUpdateRoot (koala E) (it_ProofNew trace) currentRoot EmptyLeaf newLeaf appendTo)
       (\<lambda>(appendTo, currentRoot).
     rbind (LeafOpening_Hash (koala E) (it_OldOpenPlus trace)) (\<lambda>oldLeafPlus.
     rbind (LeafOpening_Hash (koala E) (LeafOpening_CopyWithPrev (it_OldOpenPlus trace) iInserted))
       (\<lambda>newLeafPlus.
     rbind (deferCheckUpdateRoot (koala E) (it_ProofPlus trace) currentRoot oldLeafPlus newLeafPlus appendTo)
       (\<lambda>(appendTo, _). Inr appendTo)))))))))))"

definition InsertionTrace_HKey ::
  "(('f::zero), 'k, 'v) env \<Rightarrow> ('f, 'k, 'v) InsertionTrace \<Rightarrow> 'f octuplet result" where
  "InsertionTrace_HKey E trace = hashK E (it_Key trace)"

definition InsertionTrace_RWInt :: "('f, 'k, 'v) InsertionTrace \<Rightarrow> int" where
  "InsertionTrace_RWInt trace = 1"

subsection \<open>Deletions\<close>

record ('f, 'k, 'v) DeletionTrace =
  dt_Type :: int
  dt_Location :: string
  dt_NewNextFreeNode :: int
  dt_OldSubRoot :: "'f octuplet"
  dt_NewSubRoot :: "'f octuplet"
  dt_ProofMinus :: "'f proof_rec"
  dt_ProofDeleted :: "'f proof_rec"
  dt_ProofPlus :: "'f proof_rec"
  dt_Key :: 'k
  dt_OldOpenMinus :: "'f LeafOpening"
  dt_DeletedOpen :: "'f LeafOpening"
  dt_OldOpenPlus :: "'f LeafOpening"
  dt_DeletedValue :: 'v

definition DeleteAndProve ::
  "(('f::{comm_ring_1, linorder}), 'k, 'v) env \<Rightarrow> ('f, 'k, 'v) ProverState \<Rightarrow> 'k \<Rightarrow>
   (('f, 'k, 'v) DeletionTrace \<times> ('f, 'k, 'v) ProverState) result" where
  "DeleteAndProve E p key =
     rbind (FindKey E p key) (\<lambda>(i, found).
     rbind (require found (Panic ''called delete, but the key was not present'')) (\<lambda>_.
     rbind (MustGet (ps_Data p) i) (\<lambda>tuple.
     let iMinus = Prev (tup_LeafOpening tuple); iPlus = Next (tup_LeafOpening tuple) in
     rbind (MustGet (ps_Data p) iMinus) (\<lambda>tupleMinus.
     rbind (MustGet (ps_Data p) iPlus) (\<lambda>tuplePlus.
     let oldSubRoot = SubTreeRoot p; newTupleMinus = CopyWithNext tupleMinus iPlus in
     rbind (upsertTuple E p iMinus newTupleMinus) (\<lambda>(proofMinus, p).
     rbind (rmTuple E p i) (\<lambda>(proofDeleted, p).
     let newTuplePlus = CopyWithPrev tuplePlus iMinus in
     rbind (upsertTuple E p iPlus newTuplePlus) (\<lambda>(proofPlus, p).
       Inr (\<lparr>dt_Type = 0, dt_Location = ps_Location p, dt_NewNextFreeNode = ps_NextFreeNode p,
             dt_OldSubRoot = oldSubRoot, dt_NewSubRoot = SubTreeRoot p,
             dt_ProofMinus = proofMinus, dt_ProofDeleted = proofDeleted, dt_ProofPlus = proofPlus,
             dt_Key = key, dt_OldOpenMinus = tup_LeafOpening tupleMinus,
             dt_DeletedOpen = tup_LeafOpening tuple, dt_OldOpenPlus = tup_LeafOpening tuplePlus,
             dt_DeletedValue = tup_Value tuple\<rparr>, p)))))))))"

definition VerifyDeletion ::
  "(('f::zero), 'k, 'v) env \<Rightarrow> 'f VerifierState \<Rightarrow> ('f, 'k, 'v) DeletionTrace \<Rightarrow>
   ('f VerifierState \<times> string option) result" where
  "VerifyDeletion E v trace = audit v (
     rbind (require (vs_Location v = dt_Location trace) (Err ''inconsistent location'')) (\<lambda>_.
     rbind (require (vs_SubTreeRoot v = dt_OldSubRoot trace) (Err ''inconsistent root'')) (\<lambda>_.
     rbind (hashV E (dt_DeletedValue trace)) (\<lambda>hVal.
     rbind (require (hVal = HVal (dt_DeletedOpen trace))
              (Err ''the deleted value does not match the hVal of the opening'')) (\<lambda>_.
     let iMinus = Path (dt_ProofMinus trace); iDeleted = Path (dt_ProofDeleted trace);
         iPlus = Path (dt_ProofPlus trace) in
     rbind (require (\<not> (Next (dt_OldOpenMinus trace) \<noteq> iDeleted \<or> Prev (dt_DeletedOpen trace) \<noteq> iMinus))
              (Err ''bad sandwich prev and next do not point to each other'')) (\<lambda>_.
     rbind (require (\<not> (Next (dt_DeletedOpen trace) \<noteq> iPlus \<or> Prev (dt_OldOpenPlus trace) \<noteq> iDeleted))
              (Err ''bad sandwich prev and next do not point to each other'')) (\<lambda>_.
     rbind (MatchKey (koala E) (dt_DeletedOpen trace) (writeK E) (dt_Key trace)) (\<lambda>match.
     rbind (require match (Err ''deleting the wrong leaf'')) (\<lambda>_.
     let currentRoot = dt_OldSubRoot trace in
     rbind (LeafOpening_Hash (koala E) (dt_OldOpenMinus trace)) (\<lambda>oldLeafMinus.
     rbind (LeafOpening_Hash (koala E) (LeafOpening_CopyWithNext (dt_OldOpenMinus trace) iPlus))
       (\<lambda>newLeafMinus.
     rbind (updateCheckRoot (koala E) (dt_ProofMinus trace) currentRoot oldLeafMinus newLeafMinus)
       (\<lambda>currentRoot.
     rbind (LeafOpening_Hash (koala E) (dt_DeletedOpen trace)) (\<lambda>deletedLeaf.
     rbind (updateCheckRoot (koala E) (dt_ProofDeleted trace) currentRoot deletedLeaf EmptyLeaf)
       (\<lambda>currentRoot.
     rbind (LeafOpening_Hash (koala E) (dt_OldOpenPlus trace)) (\<lambda>oldLeafPlus.
     rbind (LeafOpening_Hash (koala E) (LeafOpening_CopyWithPrev (dt_OldOpenPlus trace) iMinus))
       (\<lambda>newLeafPlus.
     rbind (updateCheckRoot (koala E) (dt_ProofPlus trace) currentRoot oldLeafPlus newLeafPlus)
       (\<lambda>currentRoot.
     rbind (require (currentRoot = dt_NewSubRoot trace) (Err ''inconsistent root'')) (\<lambda>_.
     rbind (require (vs_NextFreeNode v = dt_NewNextFreeNode trace)
              (Err ''inconsistent NextFreeNode'')) (\<lambda>_.
       Inr (v\<lparr>vs_SubTreeRoot := currentRoot\<rparr>, None))))))))))))))))))))"

definition DeletionTrace_DeferMerkleChecks ::
  "(('f::zero), 'k, 'v) env \<Rightarrow> ('f, 'k, 'v) DeletionTrace \<Rightarrow> 'f ProvedClaim list \<Rightarrow>
   'f ProvedClaim list result" where
  "DeletionTrace_DeferMerkleChecks E trace appendTo =
     (let currentRoot = dt_OldSubRoot trace; iMinus = Path (dt_ProofMinus trace);
          iPlus = Path (dt_ProofPlus trace) in
     rbind (LeafOpening_Hash (koala E) (dt_OldOpenMinus trace)) (\<lambda>oldLeafMinus.
     rbind (LeafOpening_Hash (koala E) (LeafOpening_CopyWithNext (dt_OldOpenMinus trace) iPlus))
       (\<lambda>newLeafMinus.
     rbind (deferCheckUpdateRoot (koala E) (dt_ProofMinus trace) currentRoot oldLeafMinus newLeafMinus appendTo)
       (\<lambda>(appendTo, currentRoot).
     rbind (LeafOpening_Hash (koala E) (dt_DeletedOpen trace)) (\<lambda>deletedLeaf.
     rbind (deferCheckUpdateRoot (koala E) (dt_ProofDeleted trace) currentRoot deletedLeaf EmptyLeaf appendTo)
       (\<lambda>(appendTo, currentRoot).
     rbind (LeafOpening_Hash (koala E) (dt_OldOpenPlus trace)) (\<lambda>oldLeafPlus.
     rbind (LeafOpening_Hash (koala E) (LeafOpening_CopyWithPrev (dt_OldOpenPlus trace) iMinus))
       (\<lambda>newLeafPlus.
     rbind (deferCheckUpdateRoot (koala E) (dt_ProofPlus trace) currentRoot oldLeafPlus newLeafPlus appendTo)
       (\<lambda>(appendTo, _). Inr appendTo)))))))))"

definition DeletionTrace_HKey :: "('f, 'k, 'v) DeletionTrace \<Rightarrow> 'f octuplet" where
  "DeletionTrace_HKey trace = HKey (dt_DeletedOpen trace)"

definition DeletionTrace_RWInt :: "('f, 'k, 'v) DeletionTrace \<Rightarrow> int" where
  "DeletionTrace_RWInt trace = 1"

subsection \<open>Updates\<close>

record ('f, 'k, 'v) UpdateTrace =
  ut_Type :: int
  ut_Location :: string
  ut_Key :: 'k
  ut_OldValue :: 'v
  ut_NewValue :: 'v
  ut_NewNextFreeNode :: int
  ut_OldSubRoot :: "'f octuplet"
  ut_NewSubRoot :: "'f octuplet"
  ut_OldOpening :: "'f LeafOpening"
  ut_Proof :: "'f proof_rec"

definition UpdateAndProve ::
  "(('f::{comm_ring_1, linorder}), 'k, 'v) env \<Rightarrow> ('f, 'k, 'v) ProverState \<Rightarrow> 'k \<Rightarrow> 'v \<Rightarrow>
   (('f, 'k, 'v) UpdateTrace \<times> ('f, 'k, 'v) ProverState) result" where
  "UpdateAndProve E p key newVal =
     rbind (FindKey E p key) (\<lambda>(i, found).
     rbind (require found (Panic ''called update, but the key was not present'')) (\<lambda>_.
     rbind (MustGet (ps_Data p) i) (\<lambda>tuple.
     rbind (hashK E key) (\<lambda>h1.
     rbind (hashK E (tup_Key tuple)) (\<lambda>h2.
     rbind (require (h1 = h2) (Panic ''sanity-check : the key mismatched'')) (\<lambda>_.
     let oldRoot = SubTreeRoot p; oldOpening = tup_LeafOpening tuple; oldValue = tup_Value tuple;
         tuple = tuple\<lparr>tup_Value := newVal\<rparr> in
     rbind (hashV E (tup_Value tuple)) (\<lambda>hv.
     let tuple = tuple\<lparr>tup_LeafOpening := (tup_LeafOpening tuple)\<lparr>HVal := hv\<rparr>\<rparr>;
         data = Mapping_Update (ps_Data p) i tuple in
     rbind (LeafOpening_Hash (koala E) (tup_LeafOpening tuple)) (\<lambda>newLeaf.
     rbind (Update (koala E) (ps_Tree p) i newLeaf) (\<lambda>tree.
     let p = p\<lparr>ps_Data := data, ps_Tree := tree\<rparr> in
     rbind (MustProve (ps_Tree p) i) (\<lambda>pr.
       Inr (\<lparr>ut_Type = 0, ut_Location = ps_Location p, ut_Key = tup_Key tuple,
             ut_OldValue = oldValue, ut_NewValue = newVal,
             ut_NewNextFreeNode = ps_NextFreeNode p, ut_OldSubRoot = oldRoot,
             ut_NewSubRoot = SubTreeRoot p, ut_OldOpening = oldOpening, ut_Proof = pr\<rparr>, p)))))))))))"

definition UpdateVerify ::
  "(('f::comm_ring_1), 'k, 'v) env \<Rightarrow> 'f VerifierState \<Rightarrow> ('f, 'k, 'v) UpdateTrace \<Rightarrow>
   ('f VerifierState \<times> string option) result" where
  "UpdateVerify E v trace = audit v (
     rbind (require (vs_Location v = ut_Location trace) (Err ''inconsistent location'')) (\<lambda>_.
     rbind (require (vs_SubTreeRoot v = ut_OldSubRoot trace) (Err ''inconsistent root'')) (\<lambda>_.
     let tuple = \<lparr>tup_LeafOpening = ut_OldOpening trace, tup_Key = ut_Key trace,
                  tup_Value = ut_OldValue trace\<rparr> in
     rbind (CheckAndLeaf E tuple) (\<lambda>leaf.
     rbind (Verify (koala E) (ut_Proof trace) leaf (ut_OldSubRoot trace)) (\<lambda>_.
     rbind (hashV E (ut_NewValue trace)) (\<lambda>hv.
     let newTuple = tuple\<lparr>tup_LeafOpening := (tup_LeafOpening tuple)\<lparr>HVal := hv\<rparr>\<rparr> in
     rbind (LeafOpening_Hash (koala E) (tup_LeafOpening newTuple)) (\<lambda>newLeaf.
     rbind (updateCheckRoot (koala E) (ut_Proof trace) (ut_OldSubRoot trace) leaf newLeaf) (\<lambda>newRoot.
     rbind (require (newRoot = ut_NewSubRoot trace) (Err ''new root does not match'')) (\<lambda>_.
     rbind (require (vs_NextFreeNode v = ut_NewNextFreeNode trace)
              (Err ''inconsistent NextFreeNode'')) (\<lambda>_.
       Inr (v\<lparr>vs_SubTreeRoot := ut_NewSubRoot trace\<rparr>, None)))))))))))"

definition UpdateTrace_DeferMerkleChecks ::
  "(('f::comm_ring_1), 'k, 'v) env \<Rightarrow> ('f, 'k, 'v) UpdateTrace \<Rightarrow> 'f ProvedClaim list \<Rightarrow>
   'f ProvedClaim list result" where
  "UpdateTrace_DeferMerkleChecks E trace appendTo =
     (let tuple = \<lparr>tup_LeafOpening = ut_OldOpening trace, tup_Key = ut_Key trace,
                   tup_Value = ut_OldValue trace\<rparr> in
     rbind (or_default 0 (CheckAndLeaf E tuple)) (\<lambda>leaf.
     rbind (hashV E (ut_NewValue trace)) (\<lambda>hv.
     let newTuple = tuple\<lparr>tup_LeafOpening := (tup_LeafOpening tuple)\<lparr>HVal := hv\<rparr>\<rparr> in
     rbind (LeafOpening_Hash (koala E) (tup_LeafOpening newTuple)) (\<lambda>newLeaf.
     rbind (deferCheckUpdateRoot (koala E) (ut_Proof trace) (ut_OldSubRoot trace) leaf newLeaf appendTo)
       (\<lambda>(appendTo, _). Inr appendTo)))))"

definition UpdateTrace_HKey ::
  "(('f::zero), 'k, 'v) env \<Rightarrow> ('f, 'k, 'v) UpdateTrace \<Rightarrow> 'f octuplet result" where
  "UpdateTrace_HKey E trace = hashK E (ut_Key trace)"

definition UpdateTrace_RWInt :: "('f, 'k, 'v) UpdateTrace \<Rightarrow> int" where
  "UpdateTrace_RWInt trace = 1"

subsection \<open>Reads of absent keys\<close>

record ('f, 'k) ReadZeroTrace =
  rz_Type :: int
  rz_Location :: string
  rz_Key :: 'k
  rz_SubRoot :: "'f octuplet"
  rz_NextFreeNode :: int
  rz_OpeningMinus :: "'f LeafOpening"
  rz_OpeningPlus :: "'f LeafOpening"
  rz_ProofMinus :: "'f proof_rec"
  rz_ProofPlus :: "'f proof_rec"

definition ReadZeroAndProve ::
  "(('f::{comm_ring_1, linorder}), 'k, 'v) env \<Rightarrow> ('f, 'k, 'v) ProverState \<Rightarrow> 'k \<Rightarrow>
   ('f, 'k) ReadZeroTrace result" where
  "ReadZeroAndProve E p key =
     rbind (FindKey E p key) (\<lambda>(_, found).
     rbind (require (\<not> found) (Panic ''called read-zero, but the key was present'')) (\<lambda>_.
     rbind (findSandwich E p key) (\<lambda>(iMinus, iPlus).
     rbind (MustGet (ps_Data p) iMinus) (\<lambda>dataMinus.
     rbind (MustGet (ps_Data p) iPlus) (\<lambda>dataPlus.
     rbind (MustProve (ps_Tree p) iMinus) (\<lambda>proofMinus.
     rbind (MustProve (ps_Tree p) iPlus) (\<lambda>proofPlus.
       Inr \<lparr>rz_Type = 0, rz_Location = ps_Location p, rz_Key = key, rz_SubRoot = SubTreeRoot p,
            rz_NextFreeNode = ps_NextFreeNode p,
            rz_OpeningMinus = tup_LeafOpening dataMinus, rz_OpeningPlus = tup_LeafOpening dataPlus,
            rz_ProofMinus = proofMinus, rz_ProofPlus = proofPlus\<rparr>)))))))"

definition ReadZeroVerify ::
  "(('f::{comm_ring_1, linorder}), 'k, 'v) env \<Rightarrow> 'f VerifierState \<Rightarrow> ('f, 'k) ReadZeroTrace \<Rightarrow>
   ('f VerifierState \<times> string option) result" where
  "ReadZeroVerify E v trace = audit v (
     rbind (require (vs_Location v = rz_Location trace) (Err ''inconsistent location'')) (\<lambda>_.
     rbind (require (vs_SubTreeRoot v = rz_SubRoot trace) (Err ''inconsistent root'')) (\<lambda>_.
     let iMinus = Path (rz_ProofMinus trace); iPlus = Path (rz_ProofPlus trace) in
     rbind (require (\<not> (Next (rz_OpeningMinus trace) \<noteq> iPlus \<or> Prev (rz_OpeningPlus trace) \<noteq> iMinus))
              (Err ''bad sandwich prev and next do not point to each other'')) (\<lambda>_.
     rbind (hashK E (rz_Key trace)) (\<lambda>hkey.
     rbind (require (\<not> (Cmp hkey (HKey (rz_OpeningMinus trace)) < 1 \<or>
                        Cmp hkey (HKey (rz_OpeningPlus trace)) > -1)) (Err ''sandwich is incorrect'')) (\<lambda>_.
     rbind (LeafOpening_Hash (koala E) (rz_OpeningMinus trace)) (\<lambda>leafMinus.
     rbind (Verify (koala E) (rz_ProofMinus trace) leafMinus (rz_SubRoot trace)) (\<lambda>_.
     rbind (LeafOpening_Hash (koala E) (rz_OpeningPlus trace)) (\<lambda>leafPlus.
     rbind (Verify (koala E) (rz_ProofPlus trace) leafPlus (rz_SubRoot trace)) (\<lambda>_.
     rbind (require (vs_NextFreeNode v = rz_NextFreeNode trace)
              (Err ''inconsistent NextFreeNode'')) (\<lambda>_.
       Inr (v, None))))))))))))"

definition ReadZeroTrace_DeferMerkleChecks ::
  "(('f::zero), 'k, 'v) env \<Rightarrow> ('f, 'k) ReadZeroTrace \<Rightarrow> 'f ProvedClaim list \<Rightarrow>
   'f ProvedClaim list result" where
  "ReadZeroTrace_DeferMerkleChecks E trace appendTo =
     rbind (LeafOpening_Hash (koala E) (rz_OpeningMinus trace)) (\<lambda>leafMinus.
     rbind (LeafOpening_Hash (koala E) (rz_OpeningPlus trace)) (\<lambda>leafPlus.
     let appendTo = appendTo @ [\<lparr>claim_Proof = rz_ProofMinus trace, claim_Root = rz_SubRoot trace,
                                 claim_Leaf = leafMinus\<rparr>]
     in Inr (appendTo @ [\<lparr>claim_Proof = rz_ProofPlus trace, claim_Root = rz_SubRoot trace,
                          claim_Leaf = leafPlus\<rparr>])))"

definition ReadZeroTrace_HKey ::
  "(('f::zero), 'k, 'v) env \<Rightarrow> ('f, 'k) ReadZeroTrace \<Rightarrow> 'f octuplet result" where
  "ReadZeroTrace_HKey E trace = hashK E (rz_Key trace)"

definition ReadZeroTrace_RWInt :: "('f, 'k) ReadZeroTrace \<Rightarrow> int" where
  "ReadZeroTrace_RWInt trace = 0"

subsection \<open>Reads of present keys\<close>

record ('f, 'k, 'v) ReadNonZeroTrace =
  rnz_Type :: int
  rnz_Location :: string
  rnz_NextFreeNode :: int
  rnz_Key :: 'k
  rnz_Value :: 'v
  rnz_SubRoot :: "'f octuplet"
  rnz_LeafOpening :: "'f LeafOpening"
  rnz_Proof :: "'f proof_rec"

definition ReadNonZeroAndProve ::
  "(('f::{comm_ring_1, linorder}), 'k, 'v) env \<Rightarrow> ('f, 'k, 'v) ProverState \<Rightarrow> 'k \<Rightarrow>
   ('f, 'k, 'v) ReadNonZeroTrace result" where
  "ReadNonZeroAndProve E p key =
     rbind (FindKey E p key) (\<lambda>(i, found).
     rbind (require found (Panic ''called read-non-zero, but the key was not present'')) (\<lambda>_.
     rbind (MustGet (ps_Data p) i) (\<lambda>tuple.
     rbind (hashK E key) (\<lambda>h1.
     rbind (hashK E (tup_Key tuple)) (\<lambda>h2.
     rbind (require (h1 = h2) (Panic ''sanity-check : the key mismatched'')) (\<lambda>_.
     rbind (MustProve (ps_Tree p) i) (\<lambda>pr.
       Inr \<lparr>rnz_Type = 0, rnz_Location = ps_Location p, rnz_NextFreeNode = ps_NextFreeNode p,
            rnz_Key = tup_Key tuple, rnz_Value = tup_Value tuple, rnz_SubRoot = SubTreeRoot p,
            rnz_LeafOpening = tup_LeafOpening tuple, rnz_Proof = pr\<rparr>)))))))"

definition ReadNonZeroVerify ::
  "(('f::comm_ring_1), 'k, 'v) env \<Rightarrow> 'f VerifierState \<Rightarrow> ('f, 'k, 'v) ReadNonZeroTrace \<Rightarrow>
   ('f VerifierState \<times> string option) result" where
  "ReadNonZeroVerify E v trace = audit v (
     rbind (require (vs_Location v = rnz_Location trace) (Err ''inconsistent location'')) (\<lambda>_.
     rbind (require (vs_SubTreeRoot v = rnz_SubRoot trace) (Err ''inconsistent root'')) (\<lambda>_.
     let tuple = \<lparr>tup_LeafOpening = rnz_LeafOpening trace, tup_Key = rnz_Key trace,
                  tup_Value = rnz_Value trace\<rparr> in
     rbind (CheckAndLeaf E tuple) (\<lambda>leaf.
     rbind (Verify (koala E) (rnz_Proof trace) leaf (rnz_SubRoot trace)) (\<lambda>_.
     rbind (require (vs_NextFreeNode v = rnz_NextFreeNode trace)
              (Err ''inconsistent NextFreeNode'')) (\<lambda>_.
       Inr (v, None)))))))"

definition ReadNonZeroTrace_DeferMerkleChecks ::
  "(('f::comm_ring_1), 'k, 'v) env \<Rightarrow> ('f, 'k, 'v) ReadNonZeroTrace \<Rightarrow> 'f ProvedClaim list \<Rightarrow>
   'f ProvedClaim list result" where
  "ReadNonZeroTrace_DeferMerkleChecks E trace appendTo =
     (let tuple = \<lparr>tup_LeafOpening = rnz_LeafOpening trace, tup_Key = rnz_Key trace,
                   tup_Value = rnz_Value trace\<rparr> in
     rbind (or_default 0 (CheckAndLeaf E tuple)) (\<lambda>leaf.
       Inr (appendTo @ [\<lparr>claim_Proof = rnz_Proof trace, claim_Root = rnz_SubRoot trace,
                         claim_Leaf = leaf\<rparr>])))"

definition ReadNonZeroTrace_HKey ::
  "(('f::zero), 'k, 'v) env \<Rightarrow> ('f, 'k, 'v) ReadNonZeroTrace \<Rightarrow> 'f octuplet result" where
  "ReadNonZeroTrace_HKey E trace = hashK E (rnz_Key trace)"

definition ReadNonZeroTrace_RWInt :: "('f, 'k, 'v) ReadNonZeroTrace \<Rightarrow> int" where
  "ReadNonZeroTrace_RWInt trace = 0"

end
