(* ===== verification/Linked.thy ===== *)
theory Linked
  imports Prelude
begin

text \<open>
  Sorted doubly linked lists laid over a finite set of positions. The accumulator keeps its leaves
  in such a list, in the order of their hashed keys: \<open>adjacent\<close> says that two positions are
  neighbours in that order, and \<open>linked\<close> that the stored links are exactly the neighbours.
\<close>

definition adjacent :: "'i set \<Rightarrow> ('i \<Rightarrow> 'a::linorder) \<Rightarrow> 'i \<Rightarrow> 'i \<Rightarrow> bool" where
  "adjacent S key i j \<longleftrightarrow>
     i \<in> S \<and> j \<in> S \<and> key i < key j \<and> (\<forall>m\<in>S. key m \<le> key i \<or> key j \<le> key m)"

definition linked :: "'i set \<Rightarrow> ('i \<Rightarrow> 'a::linorder) \<Rightarrow> ('i \<Rightarrow> 'i) \<Rightarrow> ('i \<Rightarrow> 'i) \<Rightarrow> bool" where
  "linked S key prev next \<longleftrightarrow>
     finite S \<and> inj_on key S \<and> (\<forall>i j. adjacent S key i j \<longrightarrow> next i = j \<and> prev j = i)"

lemma linkedD:
  assumes "linked S key prev next"
  shows "finite S" "inj_on key S" "adjacent S key i j \<Longrightarrow> next i = j" "adjacent S key i j \<Longrightarrow> prev j = i"
  using assms by (auto simp: linked_def)

lemma adjacentI:
  "i \<in> S \<Longrightarrow> j \<in> S \<Longrightarrow> key i < key j \<Longrightarrow> (\<And>m. m \<in> S \<Longrightarrow> key i < key m \<Longrightarrow> key j \<le> key m) \<Longrightarrow>
   adjacent S key i j"
  unfolding adjacent_def by (auto simp: not_less [symmetric])

lemma adjacentD:
  assumes "adjacent S key i j"
  shows "i \<in> S" "j \<in> S" "key i < key j" "m \<in> S \<Longrightarrow> key i < key m \<Longrightarrow> key j \<le> key m"
    "m \<in> S \<Longrightarrow> key m < key j \<Longrightarrow> key m \<le> key i"
  using assms by (auto simp: adjacent_def)

lemma adjacent_succ:
  assumes "finite S" "i \<in> S" "m \<in> S" "key i < key m"
  obtains j where "adjacent S key i j"
proof -
  let ?up = "{j \<in> S. key i < key j}"
  have f: "finite (key ` ?up)" and "key ` ?up \<noteq> {}" using assms by auto
  then have "Min (key ` ?up) \<in> key ` ?up" by (rule Min_in)
  then obtain j where j: "j \<in> S" "key i < key j" "key j = Min (key ` ?up)" by auto
  have "key j \<le> key k" if "k \<in> S" "key i < key k" for k
    using that f j(3) by simp
  with j assms(2) show thesis by (intro that [of j] adjacentI) auto
qed

lemma adjacent_pred:
  assumes "finite S" "i \<in> S" "m \<in> S" "key m < key i"
  obtains j where "adjacent S key j i"
proof -
  let ?dn = "{j \<in> S. key j < key i}"
  have f: "finite (key ` ?dn)" and "key ` ?dn \<noteq> {}" using assms by auto
  then have "Max (key ` ?dn) \<in> key ` ?dn" by (rule Max_in)
  then obtain j where j: "j \<in> S" "key j < key i" "key j = Max (key ` ?dn)" by auto
  have "key k \<le> key j" if "k \<in> S" "key k < key i" for k
    using that f j(3) by simp
  with j assms(2) show thesis by (intro that [of j] adjacentI) (auto simp: not_le [symmetric])
qed

text \<open>The links of a node that is not the first or the last are its neighbours.\<close>

lemma linked_next:
  assumes "linked S key prev next" "i \<in> S" "m \<in> S" "key i < key m"
  shows "adjacent S key i (next i)"
  using adjacent_succ [OF linkedD(1) [OF assms(1)] assms(2-4)] linkedD(3) [OF assms(1)] by metis

lemma linked_prev:
  assumes "linked S key prev next" "i \<in> S" "m \<in> S" "key m < key i"
  shows "adjacent S key (prev i) i"
  using adjacent_pred [OF linkedD(1) [OF assms(1)] assms(2-4)] linkedD(4) [OF assms(1)] by metis

lemma linked_cong:
  assumes "\<And>i. i \<in> S \<Longrightarrow> key i = key' i \<and> prev i = prev' i \<and> next i = next' i"
    "linked S key prev next"
  shows "linked S key' prev' next'"
  using assms unfolding linked_def adjacent_def inj_on_def by auto

lemma adjacent_neq: "adjacent S key i j \<Longrightarrow> i \<noteq> j"
  by (auto simp: adjacent_def)

text \<open>A key that falls strictly between two nodes linked to each other is in no node.\<close>

lemma adjacent_gap: "adjacent S key i j \<Longrightarrow> key i < k \<Longrightarrow> k < key j \<Longrightarrow> m \<in> S \<Longrightarrow> key m \<noteq> k"
  unfolding adjacent_def by (metis leD)

subsection \<open>Insertion and removal\<close>

lemma adjacent_insert:
  assumes "inj_on key S" "adjacent S key a b" "n \<notin> S" "key a < k" "k < key b"
    "adjacent (insert n S) (key(n := k)) i j"
  shows "(i = a \<and> j = n) \<or> (i = n \<and> j = b) \<or>
    (adjacent S key i j \<and> i \<noteq> a \<and> j \<noteq> b \<and> i \<noteq> n \<and> j \<noteq> n)"
proof -
  note ab = adjacentD [OF assms(2)] and ij = adjacentD [OF assms(6)]
  have bn: "b \<noteq> n" "a \<noteq> n" using ab(1,2) assms(3) by auto
  consider "i = n" | "j = n" "i \<noteq> n" | "i \<noteq> n" "j \<noteq> n" by blast
  then show ?thesis
  proof cases
    case 1
    then have j: "j \<in> S" "k < key j" "j \<noteq> n" using ij(2,3) assms(3) by (auto split: if_splits)
    then have "key b \<le> key j" "key j \<le> key b"
      using ab(4) [of j] assms(4,5) ij(4) [of b] ab(2) bn 1 by auto
    then have "j = b" using inj_onD [OF assms(1)] j(1) ab(2) by (metis order.antisym)
    with 1 show ?thesis by simp
  next
    case 2
    then have i: "i \<in> S" "key i < k" using ij(1,3) by auto
    then have "key i \<le> key a" "key a \<le> key i"
      using ab(5) [of i] assms(4,5) ij(5) [of a] ab(1) bn 2 by auto
    then have "i = a" using inj_onD [OF assms(1)] i(1) ab(1) by (metis order.antisym)
    with 2 show ?thesis by simp
  next
    case 3
    then have "i \<in> S" "j \<in> S" "key i < key j" using ij(1-3) by auto
    moreover have "key j \<le> key m" if "m \<in> S" "key i < key m" for m
    proof -
      have "m \<noteq> n" using that(1) assms(3) by auto
      with ij(4) [of m] that 3 show ?thesis by simp
    qed
    ultimately have "adjacent S key i j" by (intro adjacentI)
    moreover have "k \<le> key i \<or> key j \<le> k" using ij(4) [of n] 3 by (auto simp: not_less [symmetric])
    ultimately show ?thesis
      using 3 ab(4) [of j] ab(5) [of i] adjacentD(1-3) [of S key i j] assms(4,5) by force
  qed
qed

lemma linked_insert:
  assumes "linked S key prev next" "adjacent S key a b" "n \<notin> S" "key a < k" "k < key b"
  shows "linked (insert n S) (key(n := k)) (prev(n := a, b := n)) (next(a := n, n := b))"
  unfolding linked_def
proof (intro conjI allI impI)
  note ab = adjacentD [OF assms(2)] and l = linkedD [OF assms(1)]
  show "finite (insert n S)" using l(1) by simp
  have "key m \<noteq> k" if "m \<in> S" for m
    using adjacent_gap [OF assms(2,4,5) that] .
  then show "inj_on (key(n := k)) (insert n S)"
    using l(2) assms(3) by (auto simp: inj_on_def)
  fix i j assume "adjacent (insert n S) (key(n := k)) i j"
  from adjacent_insert [OF l(2) assms(2-5) this] ab(1,2) assms(3)
  show "(next(a := n, n := b)) i = j" "(prev(n := a, b := n)) j = i"
    using l(3,4) [of i j] by auto
qed

lemma linked_remove:
  assumes "linked S key prev next" "adjacent S key a i" "adjacent S key i b"
  shows "linked (S - {i}) key (prev(b := a)) (next(a := b))"
  unfolding linked_def
proof (intro conjI allI impI)
  note ai = adjacentD [OF assms(2)] and ib = adjacentD [OF assms(3)] and l = linkedD [OF assms(1)]
  show "finite (S - {i})" "inj_on key (S - {i})" using l(1,2) by (auto simp: inj_on_def)
  fix x y assume "adjacent (S - {i}) key x y"
  note xy = adjacentD [OF this]
  have "adjacent S key x y \<or> (x = a \<and> y = b)"
  proof (cases "key x < key i \<and> key i < key y")
    case True
    then have "key x = key a" "key y = key b"
      using xy(4) [of b] xy(5) [of a] ai ib xy(1-3) adjacent_neq [OF assms(2)] adjacent_neq [OF assms(3)]
      by (auto intro!: order.antisym)
    then show ?thesis using inj_onD [OF l(2)] xy(1,2) ai(1) ib(2) by auto
  next
    case False
    then have "adjacent S key x y"
      using xy by (intro adjacentI) (auto, metis not_less order.strict_iff_order)
    then show ?thesis ..
  qed
  moreover have "x \<noteq> a" "y \<noteq> b" if "adjacent S key x y"
    using that xy(1,2) l(3,4) [of x y] l(3) [OF assms(2)] l(4) [OF assms(3)] by auto
  ultimately show "(next(a := b)) x = y" "(prev(b := a)) y = x"
    using l(3,4) [of x y] by auto
qed

end
