(* ===== verification/AccumulatorState.thy ===== *)
theory AccumulatorState
  imports Accumulator Linked
begin

text \<open>
  The invariant of the prover state and the behaviour of its building blocks: hashes of leaf
  openings, the linear scans \<open>FindKey\<close> and \<open>findSandwich\<close>, \<open>upsertTuple\<close> and \<open>rmTuple\<close>.

  \<^item> \<open>synced\<close> relates the tree and the data: each leaf of the tree is the hash of the opening
    stored at its position, or zero.
  \<^item> \<open>prover_ok\<close> adds that the openings form a doubly linked list sorted by hashed key between the
    two sentinels, and that each entry carries the hashes of its key and its value.
  \<^item> \<open>contents\<close> is the abstract state: the map from hashed keys to keys and values.
\<close>

subsection \<open>The environment\<close>

definition env_ok :: "(('f::{comm_ring_1, linorder}), 'k, 'v) env \<Rightarrow> bool" where
  "env_ok E \<longleftrightarrow> koala_ok (koala E) \<and> (\<forall>n. is_order (iter E n))"

definition hashableK :: "('f, 'k, 'v) env \<Rightarrow> 'k \<Rightarrow> bool" where
  "hashableK E k \<longleftrightarrow> (\<exists>es. writes (koala E) (writeK E) k es)"

definition hashableV :: "('f, 'k, 'v) env \<Rightarrow> 'v \<Rightarrow> bool" where
  "hashableV E v \<longleftrightarrow> (\<exists>es. writes (koala E) (writeV E) v es)"

definition hk :: "(('f::zero), 'k, 'v) env \<Rightarrow> 'k \<Rightarrow> 'f octuplet" where
  "hk E k = projr (hashK E k)"

definition hv :: "(('f::zero), 'k, 'v) env \<Rightarrow> 'v \<Rightarrow> 'f octuplet" where
  "hv E v = projr (hashV E v)"

text \<open>The hash of a key must not be that of a sentinel.\<close>

definition key_ok :: "(('f::comm_ring_1), 'k, 'v) env \<Rightarrow> 'k \<Rightarrow> bool" where
  "key_ok E k \<longleftrightarrow> hashableK E k \<and> hk E k \<noteq> 0 \<and> hk E k \<noteq> MaxKoalaOctuplet"

lemma env_okD:
  assumes "env_ok E"
  shows "koala_ok (koala E)" "is_order (iter E n)"
  using assms by (simp_all add: env_ok_def)

lemma hashK_total: "env_ok E \<Longrightarrow> hashableK E k \<Longrightarrow> hashK E k = Inr (hk E k)"
  by (auto simp: hashableK_def hk_def hashK_def env_okD(1) hash_writes)

lemma hashV_total: "env_ok E \<Longrightarrow> hashableV E v \<Longrightarrow> hashV E v = Inr (hv E v)"
  by (auto simp: hashableV_def hv_def hashV_def env_okD(1) hash_writes)

lemma key_ok_bounds:
  assumes "env_ok E" "key_ok E k"
  shows "0 < hk E k" "hk E k < MaxKoalaOctuplet"
  using koala_ok_bounds [OF env_okD(1) [OF assms(1)], of "hk E k"] assms(2)
  by (auto simp: key_ok_def order.strict_iff_order)

subsection \<open>Hashes of leaf openings\<close>

definition leaf_elems :: "'f koalabear \<Rightarrow> 'f LeafOpening \<Rightarrow> 'f list" where
  "leaf_elems kb o' =
     int64_elems kb (Prev o') @ int64_elems kb (Next o') @ oct_list (HKey o') @ oct_list (HVal o')"

definition leaf_hash :: "('f::zero) koalabear \<Rightarrow> 'f LeafOpening \<Rightarrow> 'f octuplet" where
  "leaf_hash kb o' = HashVec kb (leaf_elems kb o')"

lemma LeafOpening_WriteTo_hasher:
  "koala_ok kb \<Longrightarrow>
   LeafOpening_WriteTo kb (hasher_io kb) leaf d = Inr (192, None, WriteElements d (leaf_elems kb leaf))"
  by (simp add: LeafOpening_WriteTo_def WriteInt64On64Bytes_hasher octuplet_WriteTo_def
      hasher_io_ToBytes leaf_elems_def)

interpretation leaf_writer: writer_to
  "\<lambda>kb. LeafOpening_WriteTo kb (hasher_io kb)" leaf_elems "\<lambda>_. True"
  by unfold_locales (simp add: writes_def LeafOpening_WriteTo_hasher)

lemma LeafOpening_Hash_total: "koala_ok kb \<Longrightarrow> LeafOpening_Hash kb leaf = Inr (leaf_hash kb leaf)"
  by (simp add: LeafOpening_Hash_def leaf_hash_def leaf_writer.hash_elems)

lemma length_leaf_elems: "koala_ok kb \<Longrightarrow> length (leaf_elems kb leaf) = 48"
  by (simp add: leaf_elems_def length_int64_elems)

lemma leaf_hash_blocks:
  assumes "koala_ok kb"
  obtains es where "leaf_elems kb leaf = concat (map oct_list es)" "length es = 6"
    "leaf_hash kb leaf = foldl (CompressPoseidon2 kb) 0 es"
proof -
  obtain es where es: "leaf_elems kb leaf = concat (map oct_list es)"
    using blocks_of_list [of "leaf_elems kb leaf"] length_leaf_elems [OF assms] by auto
  moreover have "length es * 8 = 48"
    using length_leaf_elems [OF assms, of leaf] by (simp add: es length_concat_const [OF length_oct_list])
  ultimately show thesis
    using that by (simp add: leaf_hash_def HashVec_sum_loop sum_loop_blocks)
qed

subsection \<open>The invariant\<close>

abbreviation key_at :: "(int \<rightharpoonup> ('f, 'k, 'v) KVOpeningTuple) \<Rightarrow> int \<Rightarrow> 'f octuplet" where
  "key_at D i \<equiv> HKey (tup_LeafOpening (the (D i)))"

abbreviation prev_at :: "(int \<rightharpoonup> ('f, 'k, 'v) KVOpeningTuple) \<Rightarrow> int \<Rightarrow> int" where
  "prev_at D i \<equiv> Prev (tup_LeafOpening (the (D i)))"

abbreviation next_at :: "(int \<rightharpoonup> ('f, 'k, 'v) KVOpeningTuple) \<Rightarrow> int \<Rightarrow> int" where
  "next_at D i \<equiv> Next (tup_LeafOpening (the (D i)))"

abbreviation data :: "('f, 'k, 'v) ProverState \<Rightarrow> int \<rightharpoonup> ('f, 'k, 'v) KVOpeningTuple" where
  "data s \<equiv> map_of (ps_Data s)"

definition leaf_of ::
  "('f::zero) koalabear \<Rightarrow> (int \<rightharpoonup> ('f, 'k, 'v) KVOpeningTuple) \<Rightarrow> int \<Rightarrow> 'f octuplet" where
  "leaf_of kb D i = (case D i of None \<Rightarrow> 0 | Some t \<Rightarrow> leaf_hash kb (tup_LeafOpening t))"

definition synced :: "(('f::zero), 'k, 'v) env \<Rightarrow> ('f, 'k, 'v) ProverState \<Rightarrow> bool" where
  "synced E s \<longleftrightarrow>
     mapping_ok (ps_Data s) \<and> tree_ok (koala E) (ps_Tree s) \<and> Depth (ps_Tree s) = 40 \<and>
     (\<forall>i < 2 ^ 40. leaf_at (ps_Tree s) i = leaf_of (koala E) (data s) (int i))"

definition entry_ok :: "(('f::comm_ring_1), 'k, 'v) env \<Rightarrow> ('f, 'k, 'v) KVOpeningTuple \<Rightarrow> bool" where
  "entry_ok E t \<longleftrightarrow>
     key_ok E (tup_Key t) \<and> hashableV E (tup_Value t) \<and>
     HKey (tup_LeafOpening t) = hk E (tup_Key t) \<and> HVal (tup_LeafOpening t) = hv E (tup_Value t)"

definition chain_ok ::
  "(('f::{comm_ring_1, linorder}), 'k, 'v) env \<Rightarrow> (int \<rightharpoonup> ('f, 'k, 'v) KVOpeningTuple) \<Rightarrow> int \<Rightarrow> bool" where
  "chain_ok E D n \<longleftrightarrow>
     2 \<le> n \<and> n \<le> 2 ^ 40 \<and> dom D \<subseteq> {0..<n} \<and>
     0 \<in> dom D \<and> key_at D 0 = 0 \<and> prev_at D 0 = 0 \<and>
     1 \<in> dom D \<and> key_at D 1 = MaxKoalaOctuplet \<and> next_at D 1 = 1 \<and>
     (\<forall>i t. D i = Some t \<and> i \<noteq> 0 \<and> i \<noteq> 1 \<longrightarrow> entry_ok E t) \<and>
     linked (dom D) (key_at D) (prev_at D) (next_at D)"

definition prover_ok ::
  "(('f::{comm_ring_1, linorder}), 'k, 'v) env \<Rightarrow> ('f, 'k, 'v) ProverState \<Rightarrow> bool" where
  "prover_ok E s \<longleftrightarrow> synced E s \<and> chain_ok E (data s) (ps_NextFreeNode s)"

definition contents ::
  "(('f::comm_ring_1), 'k, 'v) ProverState \<Rightarrow> 'f octuplet \<rightharpoonup> 'k \<times> 'v" where
  "contents s =
     map_of (map (\<lambda>(i, t). (HKey (tup_LeafOpening t), (tup_Key t, tup_Value t)))
       (filter (\<lambda>(i, t). \<not> HeadOrTail (tup_LeafOpening t)) (ps_Data s)))"

lemma chain_okD:
  assumes "chain_ok E D n"
  shows "2 \<le> n" "n \<le> 2 ^ 40" "i \<in> dom D \<Longrightarrow> 0 \<le> i \<and> i < n" "0 \<in> dom D" "1 \<in> dom D"
    "key_at D 0 = 0" "key_at D 1 = MaxKoalaOctuplet"
    "D i = Some t \<Longrightarrow> i \<noteq> 0 \<Longrightarrow> i \<noteq> 1 \<Longrightarrow> entry_ok E t"
    "linked (dom D) (key_at D) (prev_at D) (next_at D)"
  using assms by (auto simp: chain_ok_def)

lemma chain_ends:
  assumes "chain_ok E D n"
  shows "prev_at D 0 = 0" "next_at D 1 = 1" "dom D \<subseteq> {0..<n}"
  using assms by (simp_all add: chain_ok_def)

lemma chain_okI:
  assumes "2 \<le> n" "n \<le> 2 ^ 40" "dom D \<subseteq> {0..<n}" "0 \<in> dom D" "1 \<in> dom D"
    "key_at D 0 = 0" "key_at D 1 = MaxKoalaOctuplet" "prev_at D 0 = 0" "next_at D 1 = 1"
    "\<And>i t. D i = Some t \<Longrightarrow> i \<noteq> 0 \<Longrightarrow> i \<noteq> 1 \<Longrightarrow> entry_ok E t"
    "linked (dom D) (key_at D) (prev_at D) (next_at D)"
  shows "chain_ok E D n"
  unfolding chain_ok_def using assms by blast

lemma prover_okD:
  assumes "prover_ok E s"
  shows "synced E s" "chain_ok E (data s) (ps_NextFreeNode s)" "mapping_ok (ps_Data s)"
  using assms by (simp_all add: prover_ok_def synced_def)

lemma HeadOrTail_iff: "HeadOrTail o' \<longleftrightarrow> HKey o' = 0 \<or> HKey o' = MaxKoalaOctuplet"
  by (auto simp: HeadOrTail_def IsMaxOctuplet_iff)

lemma entry_ok_not_sentinel: "entry_ok E t \<Longrightarrow> \<not> HeadOrTail (tup_LeafOpening t)"
  by (auto simp: entry_ok_def key_ok_def HeadOrTail_iff)

text \<open>Position 0 is the only one with the key of the head, position 1 the only one with that of the
  tail.\<close>

lemma chain_sentinels:
  assumes "chain_ok E D n" "D i = Some t"
  shows "HeadOrTail (tup_LeafOpening t) \<longleftrightarrow> i = 0 \<or> i = 1"
  using assms(2) chain_okD(6,7) [OF assms(1)] chain_okD(8) [OF assms]
    entry_ok_not_sentinel [of E t]
  by (auto simp: HeadOrTail_iff)

lemma CheckAndLeaf_entry:
  assumes "env_ok E" "entry_ok E t \<or> HeadOrTail (tup_LeafOpening t)"
  shows "CheckAndLeaf E t = Inr (leaf_hash (koala E) (tup_LeafOpening t))"
  using assms
  by (auto simp: CheckAndLeaf_def entry_ok_def key_ok_def hashK_total hashV_total
      LeafOpening_Hash_total env_okD(1))

subsection \<open>The scans\<close>

lemma FindKey_loop_find:
  "set is \<subseteq> dom (map_of kv) \<Longrightarrow>
   FindKey_loop hkey kv is =
     Inr (case find (\<lambda>i. key_at (map_of kv) i = hkey) is of None \<Rightarrow> (0, False) | Some i \<Rightarrow> (i, True))"
  by (induction "is") (auto simp: MustGet_def)

lemma FindKey_find:
  assumes "env_ok E" "hashableK E k" "mapping_ok (ps_Data s)"
  shows "FindKey E s k =
    Inr (case find (\<lambda>i. key_at (data s) i = hk E k) (ListAllKeys (iter E 0) (ps_Data s)) of
           None \<Rightarrow> (0, False) | Some i \<Rightarrow> (i, True))"
  using FindKey_loop_find [of "ListAllKeys (iter E 0) (ps_Data s)" "ps_Data s" "hk E k"]
    ListAllKeys_dom(2) [OF env_okD(2) [OF assms(1)] assms(3)]
  by (simp add: FindKey_def hashK_total [OF assms(1,2)])

text \<open>The scan finds the only position that holds the key, whatever the iteration order.\<close>

lemma FindKey_present:
  assumes "env_ok E" "hashableK E k" "prover_ok E s" "data s i = Some t"
    "HKey (tup_LeafOpening t) = hk E k"
  shows "FindKey E s k = Inr (i, True)"
proof -
  have m: "mapping_ok (ps_Data s)" by (rule prover_okD(3) [OF assms(3)])
  have inj: "inj_on (key_at (data s)) (dom (data s))"
    by (rule linkedD(2) [OF chain_okD(9) [OF prover_okD(2) [OF assms(3)]]])
  have "find (\<lambda>i. key_at (data s) i = hk E k) (ListAllKeys (iter E 0) (ps_Data s)) = Some i"
  proof (rule mapping.find_unique [OF m env_okD(2) [OF assms(1)]])
    show "TryGet (ps_Data s) i = Some t" using assms(4) by (simp add: TryGet_def)
    show "key_at (data s) i = hk E k" using assms(4,5) by simp
    fix i' t' assume "TryGet (ps_Data s) i' = Some t'" "key_at (data s) i' = hk E k"
    then show "i' = i"
      using assms(4,5) by (intro inj_onD [OF inj]) (auto simp: TryGet_def)
  qed
  then show ?thesis by (simp add: FindKey_find [OF assms(1,2) m])
qed

lemma FindKey_absent:
  assumes "env_ok E" "hashableK E k" "prover_ok E s"
    "\<And>i t. data s i = Some t \<Longrightarrow> HKey (tup_LeafOpening t) \<noteq> hk E k"
  shows "FindKey E s k = Inr (0, False)"
proof -
  have m: "mapping_ok (ps_Data s)" by (rule prover_okD(3) [OF assms(3)])
  have "find (\<lambda>i. key_at (data s) i = hk E k) (ListAllKeys (iter E 0) (ps_Data s)) = None"
    using mapping.find_None [OF m env_okD(2) [OF assms(1)]] assms(4) by (auto simp: TryGet_def)
  then show ?thesis by (simp add: FindKey_find [OF assms(1,2) m])
qed

lemma findSandwich_loop_bounds:
  assumes "set is \<subseteq> dom (map_of kv)" "\<And>i. i \<in> set is \<Longrightarrow> key_at (map_of kv) i \<noteq> hkey"
    "hm < hkey" "hkey < hp"
  shows "\<exists>hm' im' hp' ip'.
    findSandwich_loop hkey kv is (hm, im) (hp, ip) = Inr ((hm', im'), (hp', ip')) \<and>
    hm \<le> hm' \<and> hm' < hkey \<and> hkey < hp' \<and> hp' \<le> hp \<and>
    ((hm', im') = (hm, im) \<or> im' \<in> set is \<and> hm' = key_at (map_of kv) im') \<and>
    ((hp', ip') = (hp, ip) \<or> ip' \<in> set is \<and> hp' = key_at (map_of kv) ip') \<and>
    (\<forall>i \<in> set is. key_at (map_of kv) i \<le> hm' \<or> hp' \<le> key_at (map_of kv) i)"
  using assms
proof (induction "is" arbitrary: hm im hp ip)
  case (Cons i "is")
  let ?k = "key_at (map_of kv) i"
  from Cons.prems(1) obtain t where t: "map_of kv i = Some t" by auto
  from Cons.prems(2) [of i] t have ne: "HKey (tup_LeafOpening t) \<noteq> hkey" by auto
  define hm1 im1 hp1 ip1 where
    "hm1 = (if ?k < hkey \<and> hm < ?k then ?k else hm)"
    and "im1 = (if ?k < hkey \<and> hm < ?k then i else im)"
    and "hp1 = (if hkey < ?k \<and> ?k < hp then ?k else hp)"
    and "ip1 = (if hkey < ?k \<and> ?k < hp then i else ip)"
  note d = hm1_def im1_def hp1_def ip1_def
  have step: "findSandwich_loop hkey kv (i # is) (hm, im) (hp, ip) =
      findSandwich_loop hkey kv is (hm1, im1) (hp1, ip1)"
    using t ne by (auto simp: MustGet_def Let_def d)
  have b: "hm1 < hkey" "hkey < hp1" "hm \<le> hm1" "hp1 \<le> hp" "?k \<le> hm1 \<or> hp1 \<le> ?k"
    using Cons.prems(3,4) t ne by (auto simp: d)
  obtain hm' im' hp' ip' where r:
    "findSandwich_loop hkey kv is (hm1, im1) (hp1, ip1) = Inr ((hm', im'), (hp', ip'))"
    "hm1 \<le> hm'" "hm' < hkey" "hkey < hp'" "hp' \<le> hp1"
    "(hm', im') = (hm1, im1) \<or> im' \<in> set is \<and> hm' = key_at (map_of kv) im'"
    "(hp', ip') = (hp1, ip1) \<or> ip' \<in> set is \<and> hp' = key_at (map_of kv) ip'"
    "\<forall>i \<in> set is. key_at (map_of kv) i \<le> hm' \<or> hp' \<le> key_at (map_of kv) i"
    using Cons.IH [OF _ _ b(1,2), of im1 ip1] Cons.prems(1,2) by auto
  have "(hm', im') = (hm, im) \<or> im' \<in> set (i # is) \<and> hm' = key_at (map_of kv) im'"
    using r(6) by (auto simp: d)
  moreover have "(hp', ip') = (hp, ip) \<or> ip' \<in> set (i # is) \<and> hp' = key_at (map_of kv) ip'"
    using r(7) by (auto simp: d)
  moreover have "\<forall>j \<in> set (i # is). key_at (map_of kv) j \<le> hm' \<or> hp' \<le> key_at (map_of kv) j"
    using b(5) r(2,5,8) by auto
  moreover have "hm \<le> hm'" "hp' \<le> hp" using r(2,5) b(3,4) by auto
  ultimately show ?case
    unfolding step r(1) using r(3,4)
    by (intro exI [of _ hm'] exI [of _ im'] exI [of _ hp'] exI [of _ ip']) simp
qed simp

text \<open>For an absent key the scan returns the two neighbours it falls between.\<close>

lemma findSandwich_adjacent:
  assumes "env_ok E" "key_ok E k" "prover_ok E s"
    "\<And>i t. data s i = Some t \<Longrightarrow> HKey (tup_LeafOpening t) \<noteq> hk E k"
  obtains a b where "findSandwich E s k = Inr (a, b)" "adjacent (dom (data s)) (key_at (data s)) a b"
    "key_at (data s) a < hk E k" "hk E k < key_at (data s) b"
proof -
  let ?D = "data s"
  have m: "mapping_ok (ps_Data s)" and c: "chain_ok E ?D (ps_NextFreeNode s)"
    by (rule prover_okD [OF assms(3)])+
  let ?is = "ListAllKeys (iter E 1) (ps_Data s)"
  have set: "set ?is = dom ?D" by (rule ListAllKeys_dom(2) [OF env_okD(2) [OF assms(1)] m])
  then have sub: "set ?is \<subseteq> dom ?D" by simp
  have ne: "key_at ?D i \<noteq> hk E k" if "i \<in> set ?is" for i
    using that set assms(4) by auto
  have b: "0 < hk E k" "hk E k < MaxKoalaOctuplet" by (rule key_ok_bounds [OF assms(1,2)])+
  obtain hm im hp ip where r:
    "findSandwich_loop (hk E k) (ps_Data s) ?is (0, 0) (MaxKoalaOctuplet, 1) = Inr ((hm, im), (hp, ip))"
    "hm < hk E k" "hk E k < hp"
    "(hm, im) = (0, 0) \<or> im \<in> set ?is \<and> hm = key_at ?D im"
    "(hp, ip) = (MaxKoalaOctuplet, 1) \<or> ip \<in> set ?is \<and> hp = key_at ?D ip"
    "\<forall>i \<in> set ?is. key_at ?D i \<le> hm \<or> hp \<le> key_at ?D i"
    using findSandwich_loop_bounds [OF sub ne b, of 0 1] by blast
  have im: "im \<in> dom ?D" "hm = key_at ?D im" using r(4) chain_okD(4,6) [OF c] set by auto
  have ip: "ip \<in> dom ?D" "hp = key_at ?D ip" using r(5) chain_okD(5,7) [OF c] set by auto
  have "adjacent (dom ?D) (key_at ?D) im ip"
    unfolding adjacent_def using im ip r(2,3,6) set order.strict_trans [OF r(2,3)] by auto
  moreover have "findSandwich E s k = Inr (im, ip)"
    using r(1) adjacent_neq [OF calculation] assms(2)
    by (simp add: findSandwich_def hashK_total [OF assms(1)] key_ok_def)
  ultimately show thesis using that r(2,3) im ip by auto
qed

subsection \<open>Writing and erasing a leaf\<close>

lemma synced_leaf:
  "synced E s \<Longrightarrow> i < 2 ^ 40 \<Longrightarrow> leaf_at (ps_Tree s) i = leaf_of (koala E) (data s) (int i)"
  by (simp add: synced_def)

text \<open>The leaves of the tree of a state, and the inputs evaluated for its tree and its openings.\<close>

definition leaf_queries :: "('f::zero) koalabear \<Rightarrow> 'f LeafOpening \<Rightarrow> ('f octuplet \<times> 'f octuplet) set" where
  "leaf_queries kb lo = md_queries kb 0 (blocks8 (leaf_elems kb lo))"

definition leaves :: "('f::zero) koalabear \<Rightarrow> (int \<rightharpoonup> ('f, 'k, 'v) KVOpeningTuple) \<Rightarrow> nat \<Rightarrow> 'f octuplet" where
  "leaves kb D i = (if i < 2 ^ 40 then leaf_of kb D (int i) else 0)"

definition state_queries ::
  "('f::zero) koalabear \<Rightarrow> (int \<rightharpoonup> ('f, 'k, 'v) KVOpeningTuple) \<Rightarrow> ('f octuplet \<times> 'f octuplet) set" where
  "state_queries kb D =
     tree_queries kb (leaves kb D) 40 \<union> (\<Union>t \<in> ran D. leaf_queries kb (tup_LeafOpening t))"

lemma leaves_upd:
  "i < 2 ^ 40 \<Longrightarrow> leaves kb (D(int i := x)) = (leaves kb D)(i := leaf_of kb (D(int i := x)) (int i))"
  by (auto simp: leaves_def leaf_of_def fun_eq_iff)

lemma synced_leaves:
  assumes "synced E s"
  shows "leaf_at (ps_Tree s) = leaves (koala E) (data s)"
proof
  fix i
  have "length (OccupiedLeaves (ps_Tree s)) \<le> 2 ^ 40"
    using assms by (auto simp: synced_def tree_ok_def tree_shape_def)
  then show "leaf_at (ps_Tree s) i = leaves (koala E) (data s) i"
    using synced_leaf [OF assms, of i] by (cases "i < 2 ^ 40") (simp_all add: leaves_def leaf_at_def)
qed

lemma synced_readable:
  assumes "synced E s" "j < 2 ^ 40" "\<not> zero_digest (koala E) (state_queries (koala E) (data s))"
  shows "\<not> zero_sibling (koala E) (leaf_at (ps_Tree s)) (Depth (ps_Tree s)) j"
proof -
  have "Depth (ps_Tree s) = 40" using assms(1) by (simp add: synced_def)
  then show ?thesis
    using assms(2,3) unfolding synced_leaves [OF assms(1)] by (intro no_zero_sibling) (simp_all add: state_queries_def)
qed

definition one_change :: "'f LeafOpening \<Rightarrow> 'f LeafOpening \<Rightarrow> bool" where
  "one_change a b \<longleftrightarrow>
     HKey a = HKey b \<and>
     ((if HVal a \<noteq> HVal b then 1 else 0) + (if Prev a \<noteq> Prev b then 1 else 0) +
      (if Next a \<noteq> Next b then (1::nat) else 0)) = 1"

text \<open>One audited change of a leaf: the proof replays the old root from the old leaf and the new root
  from the new leaf.\<close>

definition replays ::
  "('f::zero) koalabear \<Rightarrow> 'f proof_rec \<Rightarrow> 'f octuplet \<Rightarrow> 'f octuplet \<Rightarrow> 'f octuplet \<Rightarrow> 'f octuplet \<Rightarrow> bool" where
  "replays kb p r old r' new \<longleftrightarrow> RecoverRoot kb p old = Inr r \<and> RecoverRoot kb p new = Inr r'"

definition leaf_step ::
  "(('f::zero), 'k, 'v) env \<Rightarrow> ('f, 'k, 'v) ProverState \<Rightarrow> int \<Rightarrow> ('f, 'k, 'v) KVOpeningTuple option \<Rightarrow>
   'f proof_rec \<Rightarrow> ('f, 'k, 'v) ProverState \<Rightarrow> bool" where
  "leaf_step E s i x p s' \<longleftrightarrow>
     synced E s' \<and> data s' = (data s)(i := x) \<and> ps_NextFreeNode s' = ps_NextFreeNode s \<and>
     ps_Location s' = ps_Location s \<and> Path p = i \<and>
     replays (koala E) p (SubTreeRoot s) (leaf_of (koala E) (data s) i)
       (SubTreeRoot s') (leaf_of (koala E) (data s') i)"

lemma leaf_stepD:
  assumes "leaf_step E s i x p s'"
  shows "synced E s'" "data s' = (data s)(i := x)" "ps_NextFreeNode s' = ps_NextFreeNode s"
    "ps_Location s' = ps_Location s" "Path p = i"
    "replays (koala E) p (SubTreeRoot s) (leaf_of (koala E) (data s) i)
       (SubTreeRoot s') (leaf_of (koala E) (data s') i)"
  using assms unfolding leaf_step_def by blast+

text \<open>Writing a leaf and proving it: one audited change, or a panic accounted for by an input that compresses to zero.\<close>

lemma tree_step:
  assumes "synced E s" "0 \<le> i" "i < 2 ^ 40" "mapping_ok kv" "map_of kv = (data s)(i := x)"
    "leaf_of (koala E) (map_of kv) i = v"
  shows "(\<exists>tree p. Update (koala E) (ps_Tree s) i v = Inr tree \<and> MustProve tree i = Inr p \<and>
      leaf_step E s i x p (s\<lparr>ps_Data := kv, ps_Tree := tree\<rparr>)) \<or>
    zero_panic (koala E) (state_queries (koala E) (data s))
      (rbind (Update (koala E) (ps_Tree s) i v) (\<lambda>tree. MustProve tree i))"
proof -
  let ?kb = "koala E"
  obtain j where j: "i = int j" "j < 2 ^ 40" using assms(2,3) nonneg_int_cases [of i] by auto
  have ok: "tree_ok ?kb (ps_Tree s)" "Depth (ps_Tree s) = 40" "j < 2 ^ Depth (ps_Tree s)"
    using assms(1) j(2) by (simp_all add: synced_def)
  show ?thesis
  proof (cases "\<exists>tree p. Update ?kb (ps_Tree s) i v = Inr tree \<and> MustProve tree i = Inr p")
    case True
    then obtain tree p where t: "Update ?kb (ps_Tree s) (int j) v = Inr tree" "MustProve tree (int j) = Inr p"
      using j(1) by blast
    note u = smt.update_law [OF ok(1,3) t(1)] and r = smt.update_replay [OF ok(1,3) t]
    have "leaf_at tree n = leaf_of ?kb (map_of kv) (int n)" if "n < 2 ^ 40" for n
      using u synced_leaf [OF assms(1) that] assms(5,6) j by (auto simp: leaf_of_def)
    then have "synced E (s\<lparr>ps_Data := kv, ps_Tree := tree\<rparr>)"
      using u ok(2) assms(4) by (simp add: synced_def)
    then have "leaf_step E s i x p (s\<lparr>ps_Data := kv, ps_Tree := tree\<rparr>)"
      using r j synced_leaf [OF assms(1) j(2)] assms(5,6) by (simp add: leaf_step_def replays_def SubTreeRoot_def)
    with t j(1) show ?thesis by blast
  next
    case False
    then have "zero_sibling ?kb (leaf_at (ps_Tree s)) (Depth (ps_Tree s)) j"
      using smt.update_prove_total [OF ok(1,3)] j(1) by metis
    then have z: "zero_digest ?kb (state_queries ?kb (data s))" using synced_readable [OF assms(1) j(2)] by blast
    consider m where "Update ?kb (ps_Tree s) i v = Inl (Panic m)"
      | tree m where "Update ?kb (ps_Tree s) i v = Inr tree" "MustProve tree i = Inl (Panic m)"
      using False Update_correct [OF ok(1,3), of v] MustProve_cases [of ?kb _ j] ok(3) j(1) by metis
    then show ?thesis using z by cases (auto intro: zero_panicI)
  qed
qed

lemma upsertTuple_correct:
  assumes "env_ok E" "synced E s" "0 \<le> i" "i < 2 ^ 40"
    "entry_ok E t \<or> HeadOrTail (tup_LeafOpening t)"
    "\<And>old. data s i = Some old \<Longrightarrow>
       (entry_ok E old \<or> HeadOrTail (tup_LeafOpening old)) \<and>
       one_change (tup_LeafOpening old) (tup_LeafOpening t)"
  shows "(\<exists>p s'. upsertTuple E s i t = Inr (p, s') \<and> leaf_step E s i (Some t) p s') \<or>
    zero_panic (koala E) (state_queries (koala E) (data s)) (upsertTuple E s i t)"
proof -
  let ?v = "leaf_hash (koala E) (tup_LeafOpening t)" and ?kv = "Mapping_Update (ps_Data s) i t"
  have m: "mapping_ok (ps_Data s)" using assms(2) by (simp add: synced_def)
  have kv: "mapping_ok ?kv" "map_of ?kv = (data s)(i := Some t)" by (rule mapping_laws [OF m])+
  then have v: "leaf_of (koala E) (map_of ?kv) i = ?v" by (simp add: leaf_of_def)
  have "upsertTuple E s i t =
      rbind (Update (koala E) (ps_Tree s) i ?v) (\<lambda>tree. rbind (MustProve tree i) (\<lambda>p.
        Inr (p, s\<lparr>ps_Data := ?kv, ps_Tree := tree\<rparr>)))"
    using CheckAndLeaf_entry [OF assms(1,5)] assms(6) CheckAndLeaf_entry [OF assms(1)]
    by (auto simp: upsertTuple_def TryGet_def one_change_def Let_def split: option.splits)
  then show ?thesis
    using tree_step [OF assms(2-4) kv v] by (auto simp: zero_panic_def rbind_Inl_iff)
qed

lemma rmTuple_correct:
  assumes "synced E s" "0 \<le> i" "i < 2 ^ 40" "data s i = Some t"
  shows "(\<exists>p s'. rmTuple E s i = Inr (p, s') \<and> leaf_step E s i None p s') \<or>
    zero_panic (koala E) (state_queries (koala E) (data s)) (rmTuple E s i)"
proof -
  have m: "mapping_ok (ps_Data s)" using assms(1) by (simp add: synced_def)
  obtain kv where kv: "Del (ps_Data s) i = Inr kv" "mapping_ok kv" "map_of kv = (data s)(i := None)"
    using mapping_laws(3) [OF m] assms(4) by blast
  then have v: "leaf_of (koala E) (map_of kv) i = EmptyLeaf" by (simp add: leaf_of_def EmptyLeaf_def)
  have "rmTuple E s i =
      rbind (Update (koala E) (ps_Tree s) i EmptyLeaf) (\<lambda>tree. rbind (MustProve tree i) (\<lambda>p.
        Inr (p, s\<lparr>ps_Data := kv, ps_Tree := tree\<rparr>)))"
    using kv(1) assms(4) by (simp add: rmTuple_def MustExists_def)
  then show ?thesis
    using tree_step [OF assms(1-3) kv(2,3) v] by (auto simp: zero_panic_def rbind_Inl_iff)
qed

end
