(* ===== verification/AccumulatorCorrect.thy ===== *)
theory AccumulatorCorrect
  imports AccumulatorState
begin

text \<open>
  Completeness of the accumulator: on a state that satisfies the invariant, each of the five
  operations returns, keeps the invariant, changes the abstract contents as a map operation would,
  and produces a trace that the verifier accepts and that brings the verifier to the snapshot of the
  new prover state. The verifier methods are first characterised by the conditions they accept, which
  the soundness theory uses too.
\<close>

subsection \<open>What the verifier accepts\<close>

text \<open>Whether a proof recovers a root does not depend on the leaf, so the error that \<open>updateCheckRoot\<close> drops
  is covered by the verification before it.\<close>

lemma RecoverRoot_any_leaf:
  assumes "RecoverRoot kb p old = Inr r"
  obtains r' where "RecoverRoot kb p new = Inr r'"
  using RecoverRoot_Inr [OF assms] RecoverRoot_climb by metis

lemma updateCheckRoot_iff: "updateCheckRoot kb p r old new = Inr r' \<longleftrightarrow> replays kb p r old r' new"
proof (cases "RecoverRoot kb p old = Inr r")
  case True
  obtain x where "RecoverRoot kb p new = Inr x" by (rule RecoverRoot_any_leaf [OF True])
  with True show ?thesis by (auto simp: updateCheckRoot_def replays_def result_simps Verify_Inr_iff)
qed (auto simp: updateCheckRoot_def replays_def result_simps Verify_Inr_iff)

lemma audit_accepts: "audit v r = Inr (v', None) \<longleftrightarrow> r = Inr (v', None)"
  by (cases "(v, r)" rule: audit.cases) auto

definition insertion_valid ::
  "(('f::{comm_ring_1, linorder}), 'k, 'v) env \<Rightarrow> 'f VerifierState \<Rightarrow> ('f, 'k, 'v) InsertionTrace \<Rightarrow>
   'f octuplet \<Rightarrow> 'f octuplet \<Rightarrow> bool" where
  "insertion_valid E v tr h w \<longleftrightarrow>
     vs_Location v = it_Location tr \<and> vs_SubTreeRoot v = it_OldSubRoot tr \<and>
     Path (it_ProofNew tr) = vs_NextFreeNode v \<and>
     Next (it_OldOpenMinus tr) = Path (it_ProofPlus tr) \<and>
     Prev (it_OldOpenPlus tr) = Path (it_ProofMinus tr) \<and>
     HKey (it_OldOpenMinus tr) < h \<and> h < HKey (it_OldOpenPlus tr) \<and>
     (\<exists>r1 r2.
       replays (koala E) (it_ProofMinus tr) (it_OldSubRoot tr) (leaf_hash (koala E) (it_OldOpenMinus tr))
         r1 (leaf_hash (koala E) ((it_OldOpenMinus tr)\<lparr>Next := vs_NextFreeNode v\<rparr>)) \<and>
       replays (koala E) (it_ProofNew tr) r1 0 r2
         (leaf_hash (koala E) \<lparr>Prev = Path (it_ProofMinus tr), Next = Path (it_ProofPlus tr),
            HKey = h, HVal = w\<rparr>) \<and>
       replays (koala E) (it_ProofPlus tr) r2 (leaf_hash (koala E) (it_OldOpenPlus tr))
         (it_NewSubRoot tr) (leaf_hash (koala E) ((it_OldOpenPlus tr)\<lparr>Prev := vs_NextFreeNode v\<rparr>))) \<and>
     wrap64 (vs_NextFreeNode v + 1) = it_NewNextFreeNode tr"

lemma VerifyInsertion_accepts:
  assumes "koala_ok (koala E)"
  shows "VerifyInsertion E v tr = Inr (v', None) \<longleftrightarrow>
    (\<exists>h w. hashK E (it_Key tr) = Inr h \<and> hashV E (it_Val tr) = Inr w \<and> insertion_valid E v tr h w) \<and>
    v' = v\<lparr>vs_SubTreeRoot := it_NewSubRoot tr, vs_NextFreeNode := wrap64 (vs_NextFreeNode v + 1)\<rparr>"
  unfolding VerifyInsertion_def audit_accepts
  by (auto simp: result_simps Let_def LeafOpening_Hash_total [OF assms] updateCheckRoot_iff
      insertion_valid_def LeafOpening_CopyWithNext_def LeafOpening_CopyWithPrev_def EmptyLeaf_def
      not_le) blast+

definition deletion_valid ::
  "(('f::{comm_ring_1, linorder}), 'k, 'v) env \<Rightarrow> 'f VerifierState \<Rightarrow> ('f, 'k, 'v) DeletionTrace \<Rightarrow>
   'f octuplet \<Rightarrow> 'f octuplet \<Rightarrow> bool" where
  "deletion_valid E v tr h w \<longleftrightarrow>
     vs_Location v = dt_Location tr \<and> vs_SubTreeRoot v = dt_OldSubRoot tr \<and>
     HVal (dt_DeletedOpen tr) = w \<and> HKey (dt_DeletedOpen tr) = h \<and>
     Next (dt_OldOpenMinus tr) = Path (dt_ProofDeleted tr) \<and>
     Prev (dt_DeletedOpen tr) = Path (dt_ProofMinus tr) \<and>
     Next (dt_DeletedOpen tr) = Path (dt_ProofPlus tr) \<and>
     Prev (dt_OldOpenPlus tr) = Path (dt_ProofDeleted tr) \<and>
     (\<exists>r1 r2.
       replays (koala E) (dt_ProofMinus tr) (dt_OldSubRoot tr) (leaf_hash (koala E) (dt_OldOpenMinus tr))
         r1 (leaf_hash (koala E) ((dt_OldOpenMinus tr)\<lparr>Next := Path (dt_ProofPlus tr)\<rparr>)) \<and>
       replays (koala E) (dt_ProofDeleted tr) r1 (leaf_hash (koala E) (dt_DeletedOpen tr)) r2 0 \<and>
       replays (koala E) (dt_ProofPlus tr) r2 (leaf_hash (koala E) (dt_OldOpenPlus tr))
         (dt_NewSubRoot tr) (leaf_hash (koala E) ((dt_OldOpenPlus tr)\<lparr>Prev := Path (dt_ProofMinus tr)\<rparr>))) \<and>
     vs_NextFreeNode v = dt_NewNextFreeNode tr"

lemma VerifyDeletion_accepts:
  assumes "koala_ok (koala E)"
  shows "VerifyDeletion E v tr = Inr (v', None) \<longleftrightarrow>
    (\<exists>h w. hashK E (dt_Key tr) = Inr h \<and> hashV E (dt_DeletedValue tr) = Inr w \<and>
           deletion_valid E v tr h w) \<and>
    v' = v\<lparr>vs_SubTreeRoot := dt_NewSubRoot tr\<rparr>"
  unfolding VerifyDeletion_def audit_accepts
  by (auto simp: result_simps Let_def LeafOpening_Hash_total [OF assms] updateCheckRoot_iff
      deletion_valid_def LeafOpening_CopyWithNext_def LeafOpening_CopyWithPrev_def EmptyLeaf_def
      MatchKey_def hashK_def)

lemma CheckAndLeaf_accepts:
  assumes "koala_ok (koala E)"
  shows "CheckAndLeaf E t = Inr leaf \<longleftrightarrow>
    leaf = leaf_hash (koala E) (tup_LeafOpening t) \<and>
    (HeadOrTail (tup_LeafOpening t) \<or>
     hashK E (tup_Key t) = Inr (HKey (tup_LeafOpening t)) \<and>
     hashV E (tup_Value t) = Inr (HVal (tup_LeafOpening t)))"
  by (auto simp: CheckAndLeaf_def result_simps LeafOpening_Hash_total [OF assms] split: if_splits)

definition opens ::
  "(('f::comm_ring_1), 'k, 'v) env \<Rightarrow> 'f LeafOpening \<Rightarrow> 'k \<Rightarrow> 'v \<Rightarrow> bool" where
  "opens E lo k v \<longleftrightarrow> HeadOrTail lo \<or> hashK E k = Inr (HKey lo) \<and> hashV E v = Inr (HVal lo)"

lemma UpdateVerify_accepts:
  assumes "koala_ok (koala E)"
  shows "UpdateVerify E v tr = Inr (v', None) \<longleftrightarrow>
    vs_Location v = ut_Location tr \<and> vs_SubTreeRoot v = ut_OldSubRoot tr \<and>
    opens E (ut_OldOpening tr) (ut_Key tr) (ut_OldValue tr) \<and>
    (\<exists>w. hashV E (ut_NewValue tr) = Inr w \<and>
      replays (koala E) (ut_Proof tr) (ut_OldSubRoot tr) (leaf_hash (koala E) (ut_OldOpening tr))
        (ut_NewSubRoot tr) (leaf_hash (koala E) ((ut_OldOpening tr)\<lparr>HVal := w\<rparr>))) \<and>
    vs_NextFreeNode v = ut_NewNextFreeNode tr \<and>
    v' = v\<lparr>vs_SubTreeRoot := ut_NewSubRoot tr\<rparr>"
  unfolding UpdateVerify_def audit_accepts
  by (auto simp: result_simps Let_def LeafOpening_Hash_total [OF assms] updateCheckRoot_iff
      CheckAndLeaf_accepts [OF assms] opens_def Verify_Inr_iff replays_def)

lemma ReadZeroVerify_accepts:
  assumes "koala_ok (koala E)"
  shows "ReadZeroVerify E v tr = Inr (v', None) \<longleftrightarrow>
    vs_Location v = rz_Location tr \<and> vs_SubTreeRoot v = rz_SubRoot tr \<and>
    Next (rz_OpeningMinus tr) = Path (rz_ProofPlus tr) \<and>
    Prev (rz_OpeningPlus tr) = Path (rz_ProofMinus tr) \<and>
    (\<exists>h. hashK E (rz_Key tr) = Inr h \<and> HKey (rz_OpeningMinus tr) < h \<and> h < HKey (rz_OpeningPlus tr)) \<and>
    RecoverRoot (koala E) (rz_ProofMinus tr) (leaf_hash (koala E) (rz_OpeningMinus tr)) = Inr (rz_SubRoot tr) \<and>
    RecoverRoot (koala E) (rz_ProofPlus tr) (leaf_hash (koala E) (rz_OpeningPlus tr)) = Inr (rz_SubRoot tr) \<and>
    vs_NextFreeNode v = rz_NextFreeNode tr \<and> v' = v"
  unfolding ReadZeroVerify_def audit_accepts
  by (auto simp: result_simps Let_def LeafOpening_Hash_total [OF assms] Verify_Inr_iff not_le)

lemma ReadNonZeroVerify_accepts:
  assumes "koala_ok (koala E)"
  shows "ReadNonZeroVerify E v tr = Inr (v', None) \<longleftrightarrow>
    vs_Location v = rnz_Location tr \<and> vs_SubTreeRoot v = rnz_SubRoot tr \<and>
    opens E (rnz_LeafOpening tr) (rnz_Key tr) (rnz_Value tr) \<and>
    RecoverRoot (koala E) (rnz_Proof tr) (leaf_hash (koala E) (rnz_LeafOpening tr)) = Inr (rnz_SubRoot tr) \<and>
    vs_NextFreeNode v = rnz_NextFreeNode tr \<and> v' = v"
  unfolding ReadNonZeroVerify_def audit_accepts
  by (auto simp: result_simps Let_def CheckAndLeaf_accepts [OF assms] Verify_Inr_iff opens_def)

subsection \<open>The abstract contents\<close>

lemma contents_iff:
  assumes "prover_ok E s"
  shows "contents s h = Some (k, v) \<longleftrightarrow>
    (\<exists>i t. data s i = Some t \<and> i \<noteq> 0 \<and> i \<noteq> 1 \<and> HKey (tup_LeafOpening t) = h \<and>
           tup_Key t = k \<and> tup_Value t = v)"
proof -
  let ?D = "data s" and ?kv = "ps_Data s"
  let ?f = "\<lambda>(i, t). (HKey (tup_LeafOpening t), (tup_Key t, tup_Value t))"
  let ?P = "\<lambda>(i, t). \<not> HeadOrTail (tup_LeafOpening t)"
  have c: "chain_ok E ?D (ps_NextFreeNode s)" and m: "distinct (map fst ?kv)"
    using prover_okD [OF assms] by (simp_all add: mapping_ok_def)
  have inj: "inj_on (key_at ?D) (dom ?D)" by (rule linkedD(2) [OF chain_okD(9) [OF c]])
  have mem: "(i, t) \<in> set ?kv \<longleftrightarrow> ?D i = Some t" for i t
    using m by (simp add: map_of_eq_Some_iff)
  have "inj_on (fst \<circ> ?f) (set (filter ?P ?kv))"
  proof (rule inj_onI, clarsimp simp: mem)
    fix i t i' t'
    assume a: "?D i = Some t" "?D i' = Some t'" "HKey (tup_LeafOpening t) = HKey (tup_LeafOpening t')"
    then have "i = i'" by (intro inj_onD [OF inj]) auto
    with a show "i = i' \<and> t = t'" by simp
  qed
  then have "distinct (map fst (map ?f (filter ?P ?kv)))"
    using m by (simp add: distinct_map)
  then have "contents s h = Some (k, v) \<longleftrightarrow> (h, (k, v)) \<in> set (map ?f (filter ?P ?kv))"
    unfolding contents_def by (rule map_of_eq_Some_iff)
  also have "\<dots> \<longleftrightarrow> (\<exists>i t. ?D i = Some t \<and> \<not> HeadOrTail (tup_LeafOpening t) \<and>
      HKey (tup_LeafOpening t) = h \<and> tup_Key t = k \<and> tup_Value t = v)"
    by (auto simp: mem image_iff)
  finally show ?thesis using chain_sentinels [OF c] by auto
qed

lemma contents_None:
  assumes "prover_ok E s"
  shows "contents s h = None \<longleftrightarrow>
    (\<forall>i t. data s i = Some t \<and> i \<noteq> 0 \<and> i \<noteq> 1 \<longrightarrow> HKey (tup_LeafOpening t) \<noteq> h)"
  using contents_iff [OF assms, of h] by (metis (no_types, opaque_lifting) not_None_eq prod.exhaust)

text \<open>What the contents depend on: the key hash, key and value of each position.\<close>

definition view :: "(int \<rightharpoonup> ('f, 'k, 'v) KVOpeningTuple) \<Rightarrow> int \<rightharpoonup> 'f octuplet \<times> 'k \<times> 'v" where
  "view D i = map_option (\<lambda>t. (HKey (tup_LeafOpening t), tup_Key t, tup_Value t)) (D i)"

lemma contents_view:
  "prover_ok E s \<Longrightarrow>
   contents s h = Some (k, v) \<longleftrightarrow> (\<exists>i. i \<noteq> 0 \<and> i \<noteq> 1 \<and> view (data s) i = Some (h, k, v))"
  by (auto simp: contents_iff view_def)

lemma map_pair_eqI:
  assumes "\<And>x y z. m x = Some (y, z) \<longleftrightarrow> m' x = Some (y, z)"
  shows "m = m'"
proof
  fix x show "m x = m' x"
    using assms [of x] by (metis option.exhaust surj_pair)
qed

lemma view_unique:
  assumes "prover_ok E s" "view (data s) i = Some (h, kv)" "view (data s) j = Some (h, kv')"
  shows "i = j"
proof -
  have "inj_on (key_at (data s)) (dom (data s))"
    by (rule linkedD(2) [OF chain_okD(9) [OF prover_okD(2) [OF assms(1)]]])
  then show ?thesis by (rule inj_onD) (use assms(2,3) in \<open>auto simp: view_def\<close>)
qed

lemma contents_put:
  assumes "prover_ok E s" "prover_ok E s'" "view (data s') = (view (data s))(i \<mapsto> (h, k, v))"
    "i \<noteq> 0" "i \<noteq> 1" "\<And>h' kv. view (data s) i = Some (h', kv) \<Longrightarrow> h' = h"
  shows "contents s' = (contents s)(h \<mapsto> (k, v))"
proof (rule map_pair_eqI)
  fix h' k' v'
  have i: "view (data s') i = Some (h, k, v)" using assms(3) by simp
  show "contents s' h' = Some (k', v') \<longleftrightarrow> ((contents s)(h \<mapsto> (k, v))) h' = Some (k', v')"
  proof (cases "h' = h")
    case True
    have "k' = k \<and> v' = v" if "view (data s') j = Some (h, k', v')" for j
      using that i view_unique [OF assms(2) i that] by simp
    with i assms(4,5) True show ?thesis
      unfolding contents_view [OF assms(2)] by (auto 0 3)
  next
    case False
    have "view (data s') j = Some (h', k', v') \<longleftrightarrow> view (data s) j = Some (h', k', v')" for j
      using assms(3) assms(6) [of h' "(k', v')"] False by (cases "j = i") auto
    with False show ?thesis
      unfolding contents_view [OF assms(2)] by (simp add: contents_view [OF assms(1)])
  qed
qed

lemma contents_drop:
  assumes "prover_ok E s" "prover_ok E s'" "view (data s') = (view (data s))(i := None)"
    "view (data s) i = Some (h, kv0)" "i \<noteq> 0" "i \<noteq> 1"
  shows "contents s' = (contents s)(h := None)"
proof (rule map_pair_eqI)
  fix h' k' v'
  have "view (data s') j = Some (h', k', v') \<longleftrightarrow> view (data s) j = Some (h', k', v') \<and> h' \<noteq> h" for j
    using assms(3,4) view_unique [OF assms(1,4), of j "(k', v')"] by (cases "j = i") auto
  then show "contents s' h' = Some (k', v') \<longleftrightarrow> ((contents s)(h := None)) h' = Some (k', v')"
    unfolding contents_view [OF assms(2)] by (auto simp: contents_view [OF assms(1)])
qed

lemma view_links [simp]:
  "D a = Some t \<Longrightarrow> view (D(a \<mapsto> CopyWithNext t n)) = view D"
  "D a = Some t \<Longrightarrow> view (D(a \<mapsto> CopyWithPrev t n)) = view D"
  by (auto simp: view_def fun_eq_iff CopyWithNext_def CopyWithPrev_def)

lemma view_upd:
  "view (D(i := x)) =
   (view D)(i := map_option (\<lambda>t. (HKey (tup_LeafOpening t), tup_Key t, tup_Value t)) x)"
  by (auto simp: view_def fun_eq_iff)

subsection \<open>The chain under the operations\<close>

lemma entry_ok_links [simp]:
  "entry_ok E (CopyWithNext t n) = entry_ok E t" "entry_ok E (CopyWithPrev t n) = entry_ok E t"
  by (simp_all add: entry_ok_def CopyWithNext_def CopyWithPrev_def)

lemma Copy_simps [simp]:
  "tup_LeafOpening (CopyWithNext t n) = (tup_LeafOpening t)\<lparr>Next := n\<rparr>"
  "tup_LeafOpening (CopyWithPrev t n) = (tup_LeafOpening t)\<lparr>Prev := n\<rparr>"
  "tup_Key (CopyWithNext t n) = tup_Key t" "tup_Key (CopyWithPrev t n) = tup_Key t"
  "tup_Value (CopyWithNext t n) = tup_Value t" "tup_Value (CopyWithPrev t n) = tup_Value t"
  by (simp_all add: CopyWithNext_def CopyWithPrev_def)

lemma adjacent_not_ends:
  assumes "env_ok E" "chain_ok E D n" "adjacent (dom D) (key_at D) a b"
  shows "a \<noteq> 1" "b \<noteq> 0"
proof -
  note ab = adjacentD(3) [OF assms(3)]
  have "key_at D b \<le> MaxKoalaOctuplet" "0 \<le> key_at D a"
    using koala_ok_bounds [OF env_okD(1) [OF assms(1)]] by blast+
  with ab chain_okD(6,7) [OF assms(2)] show "a \<noteq> 1" "b \<noteq> 0" by auto
qed

lemma chain_insert:
  assumes "env_ok E" "chain_ok E D n" "n < 2 ^ 40" "adjacent (dom D) (key_at D) a b"
    "D a = Some ta" "D b = Some tb" "entry_ok E t"
    "key_at D a < HKey (tup_LeafOpening t)" "HKey (tup_LeafOpening t) < key_at D b"
    "Prev (tup_LeafOpening t) = a" "Next (tup_LeafOpening t) = b"
  shows "chain_ok E (D(a \<mapsto> CopyWithNext ta n, n \<mapsto> t, b \<mapsto> CopyWithPrev tb n)) (n + 1)"
proof -
  let ?D = "D(a \<mapsto> CopyWithNext ta n, n \<mapsto> t, b \<mapsto> CopyWithPrev tb n)"
  have n: "n \<notin> dom D" using chain_okD(3) [OF assms(2)] by auto
  have ab: "a \<noteq> b" by (rule adjacent_neq [OF assms(4)])
  have na: "a \<noteq> n" "b \<noteq> n" using n assms(5,6) by auto
  note ends = adjacent_not_ends [OF assms(1,2,4)]
  have n01: "n \<noteq> 0" "n \<noteq> 1" using chain_okD(1) [OF assms(2)] by auto
  have dom: "dom ?D = insert n (dom D)" using assms(5,6) by auto
  have key: "key_at ?D = (key_at D)(n := HKey (tup_LeafOpening t))"
    and prev: "prev_at ?D = (prev_at D)(n := a, b := n)"
    and "next": "next_at ?D = (next_at D)(a := n, n := b)"
    using assms(5,6,10,11) ab na by (auto simp: fun_eq_iff)
  show ?thesis
  proof (rule chain_okI)
    show "2 \<le> n + 1" "n + 1 \<le> 2 ^ 40" using chain_okD(1) [OF assms(2)] assms(3) by auto
    show "dom ?D \<subseteq> {0..<n + 1}"
      unfolding dom using chain_ends(3) [OF assms(2)] chain_okD(1) [OF assms(2)] by auto
    show "0 \<in> dom ?D" "1 \<in> dom ?D" unfolding dom using chain_okD(4,5) [OF assms(2)] by auto
    show "key_at ?D 0 = 0" "key_at ?D 1 = MaxKoalaOctuplet"
      using fun_cong [OF key, of 0] fun_cong [OF key, of 1] chain_okD(6,7) [OF assms(2)] n01 by simp_all
    show "prev_at ?D 0 = 0" "next_at ?D 1 = 1"
      using fun_cong [OF prev, of 0] fun_cong [OF "next", of 1] chain_ends(1,2) [OF assms(2)] n01 ends
      by simp_all
    show "linked (dom ?D) (key_at ?D) (prev_at ?D) (next_at ?D)"
      unfolding dom key prev "next" by (rule linked_insert [OF chain_okD(9) [OF assms(2)] assms(4) n assms(8,9)])
    fix i u assume "?D i = Some u" "i \<noteq> 0" "i \<noteq> 1"
    then show "entry_ok E u"
      using assms(5-7) chain_okD(8) [OF assms(2)] by (auto split: if_splits)
  qed
qed

lemma chain_delete:
  assumes "env_ok E" "chain_ok E D n" "D i = Some t" "i \<noteq> 0" "i \<noteq> 1"
    "adjacent (dom D) (key_at D) a i" "adjacent (dom D) (key_at D) i b" "D a = Some ta" "D b = Some tb"
  shows "chain_ok E (D(a \<mapsto> CopyWithNext ta b, i := None, b \<mapsto> CopyWithPrev tb a)) n"
proof -
  let ?D = "D(a \<mapsto> CopyWithNext ta b, i := None, b \<mapsto> CopyWithPrev tb a)"
  have ne: "a \<noteq> i" "i \<noteq> b" by (rule adjacent_neq [OF assms(6)], rule adjacent_neq [OF assms(7)])
  have ab: "a \<noteq> b" using adjacentD(3) [OF assms(6)] adjacentD(3) [OF assms(7)] by auto
  note ends = adjacent_not_ends(1) [OF assms(1,2,6)] adjacent_not_ends(2) [OF assms(1,2,7)]
  have dom: "dom ?D = dom D - {i}" using assms(8,9) ne by auto
  have at: "key_at ?D j = key_at D j" "prev_at ?D j = ((prev_at D)(b := a)) j"
    "next_at ?D j = ((next_at D)(a := b)) j" if "j \<noteq> i" for j
    using that assms(8,9) ne ab by auto
  show ?thesis
  proof (rule chain_okI)
    show "2 \<le> n" "n \<le> 2 ^ 40" using chain_okD(1,2) [OF assms(2)] by auto
    show "dom ?D \<subseteq> {0..<n}" unfolding dom using chain_ends(3) [OF assms(2)] by auto
    show "0 \<in> dom ?D" "1 \<in> dom ?D" unfolding dom using chain_okD(4,5) [OF assms(2)] assms(4,5) by auto
    show "key_at ?D 0 = 0" "key_at ?D 1 = MaxKoalaOctuplet" "prev_at ?D 0 = 0" "next_at ?D 1 = 1"
      using at(1) [OF assms(4) [symmetric]] at(1) [OF assms(5) [symmetric]]
        at(2) [OF assms(4) [symmetric]] at(3) [OF assms(5) [symmetric]]
        chain_okD(6,7) [OF assms(2)] chain_ends(1,2) [OF assms(2)] ends
      by (metis fun_upd_other)+
    show "linked (dom ?D) (key_at ?D) (prev_at ?D) (next_at ?D)"
    proof (rule linked_cong)
      show "linked (dom ?D) (key_at D) ((prev_at D)(b := a)) ((next_at D)(a := b))"
        unfolding dom by (rule linked_remove [OF chain_okD(9) [OF assms(2)] assms(6,7)])
      fix j assume "j \<in> dom ?D"
      then have "j \<noteq> i" unfolding dom by simp
      from at [OF this] show "key_at D j = key_at ?D j \<and> ((prev_at D)(b := a)) j = prev_at ?D j \<and>
          ((next_at D)(a := b)) j = next_at ?D j" by metis
    qed
    fix j u assume "?D j = Some u" "j \<noteq> 0" "j \<noteq> 1"
    then show "entry_ok E u"
      using assms(8,9) chain_okD(8) [OF assms(2)] by (auto split: if_splits)
  qed
qed

lemma chain_update:
  assumes "chain_ok E D n" "D i = Some t" "i \<noteq> 0" "i \<noteq> 1" "hashableV E v"
  shows "chain_ok E (D(i \<mapsto> t\<lparr>tup_Value := v,
           tup_LeafOpening := (tup_LeafOpening t)\<lparr>HVal := hv E v\<rparr>\<rparr>)) n"
proof -
  let ?t = "t\<lparr>tup_Value := v, tup_LeafOpening := (tup_LeafOpening t)\<lparr>HVal := hv E v\<rparr>\<rparr>"
  let ?D = "D(i \<mapsto> ?t)"
  have dom: "dom ?D = dom D" using assms(2) by auto
  have at: "key_at ?D = key_at D" "prev_at ?D = prev_at D" "next_at ?D = next_at D"
    using assms(2) by (auto simp: fun_eq_iff)
  have t: "entry_ok E ?t"
    using chain_okD(8) [OF assms(1-4)] assms(5) by (simp add: entry_ok_def)
  show ?thesis
  proof (rule chain_okI)
    show "entry_ok E u" if "?D j = Some u" "j \<noteq> 0" "j \<noteq> 1" for j u
      using that t chain_okD(8) [OF assms(1)] by (auto split: if_splits)
    show "linked (dom ?D) (key_at ?D) (prev_at ?D) (next_at ?D)"
      unfolding dom at by (rule chain_okD(9) [OF assms(1)])
    show "2 \<le> n" "n \<le> 2 ^ 40" "dom ?D \<subseteq> {0..<n}" "0 \<in> dom ?D" "1 \<in> dom ?D"
      unfolding dom using chain_okD(1-5) [OF assms(1)] chain_ends(3) [OF assms(1)] by auto
    show "key_at ?D 0 = 0" "key_at ?D 1 = MaxKoalaOctuplet" "prev_at ?D 0 = 0" "next_at ?D 1 = 1"
      using chain_okD(6,7) [OF assms(1)] chain_ends(1,2) [OF assms(1)] assms(3,4) by simp_all
  qed
qed

subsection \<open>Insertion\<close>

lemma HeadOrTail_links [simp]:
  "HeadOrTail (lo\<lparr>Next := n\<rparr>) = HeadOrTail lo" "HeadOrTail (lo\<lparr>Prev := n\<rparr>) = HeadOrTail lo"
  by (simp_all add: HeadOrTail_def)

lemma chain_entry: "chain_ok E D n \<Longrightarrow> D i = Some t \<Longrightarrow> entry_ok E t \<or> HeadOrTail (tup_LeafOpening t)"
  using chain_okD(8) [of E D n i t] chain_sentinels [of E D n i t] by blast

lemma chain_position: "chain_ok E D n \<Longrightarrow> D i = Some t \<Longrightarrow> 0 \<le> i \<and> i < n \<and> i < 2 ^ 40"
  using chain_okD(3) [of E D n i] chain_okD(2) [of E D n] by (fastforce simp: domI)

lemma absent_everywhere:
  assumes "prover_ok E s" "key_ok E k" "contents s (hk E k) = None" "data s i = Some t"
  shows "HKey (tup_LeafOpening t) \<noteq> hk E k"
proof (cases "i = 0 \<or> i = 1")
  case True
  then show ?thesis
    using assms(2,4) chain_okD(6,7) [OF prover_okD(2) [OF assms(1)]] by (auto simp: key_ok_def)
next
  case False
  then show ?thesis using assms(3,4) contents_None [OF assms(1)] by blast
qed

lemma adjacent_links:
  assumes "chain_ok E D n" "adjacent (dom D) (key_at D) a b"
  obtains ta tb where "D a = Some ta" "D b = Some tb" "Next (tup_LeafOpening ta) = b"
    "Prev (tup_LeafOpening tb) = a"
  using adjacentD(1,2) [OF assms(2)] linkedD(3,4) [OF chain_okD(9) [OF assms(1)] assms(2)] by fastforce

lemma link_next:
  assumes "env_ok E" "synced E s" "chain_ok E D n" "D a = Some t" "data s a = Some t"
    "Next (tup_LeafOpening t) \<noteq> m"
  shows "(\<exists>p s'. upsertTuple E s a (CopyWithNext t m) = Inr (p, s') \<and>
      leaf_step E s a (Some (CopyWithNext t m)) p s') \<or>
    zero_panic (koala E) (state_queries (koala E) (data s)) (upsertTuple E s a (CopyWithNext t m))"
  using chain_position [OF assms(3,4)] chain_entry [OF assms(3,4)] assms(5,6)
  by (intro upsertTuple_correct [OF assms(1,2)]) (auto simp: one_change_def)

lemma link_prev:
  assumes "env_ok E" "synced E s" "chain_ok E D n" "D b = Some t" "data s b = Some t"
    "Prev (tup_LeafOpening t) \<noteq> m"
  shows "(\<exists>p s'. upsertTuple E s b (CopyWithPrev t m) = Inr (p, s') \<and>
      leaf_step E s b (Some (CopyWithPrev t m)) p s') \<or>
    zero_panic (koala E) (state_queries (koala E) (data s)) (upsertTuple E s b (CopyWithPrev t m))"
  using chain_position [OF assms(3,4)] chain_entry [OF assms(3,4)] assms(5,6)
  by (intro upsertTuple_correct [OF assms(1,2)]) (auto simp: one_change_def)

lemma add_leaf:
  assumes "env_ok E" "synced E s" "0 \<le> i" "i < 2 ^ 40" "entry_ok E t" "data s i = None"
  shows "(\<exists>p s'. upsertTuple E s i t = Inr (p, s') \<and> leaf_step E s i (Some t) p s') \<or>
    zero_panic (koala E) (state_queries (koala E) (data s)) (upsertTuple E s i t)"
  using assms by (intro upsertTuple_correct) auto

text \<open>The inputs evaluated for the tree before the insertion and after its first two changes.\<close>

definition insert_tuple :: "(('f::zero), 'k, 'v) env \<Rightarrow> int \<Rightarrow> int \<Rightarrow> 'k \<Rightarrow> 'v \<Rightarrow> ('f, 'k, 'v) KVOpeningTuple" where
  "insert_tuple E a b k v =
     \<lparr>tup_LeafOpening = \<lparr>Prev = a, Next = b, HKey = hk E k, HVal = hv E v\<rparr>, tup_Key = k, tup_Value = v\<rparr>"

definition relink_next ::
  "(int \<rightharpoonup> ('f, 'k, 'v) KVOpeningTuple) \<Rightarrow> int \<Rightarrow> int \<Rightarrow> int \<rightharpoonup> ('f, 'k, 'v) KVOpeningTuple" where
  "relink_next D a n = D(a := map_option (\<lambda>t. CopyWithNext t n) (D a))"

definition insert_queries ::
  "(('f::{comm_ring_1, linorder}), 'k, 'v) env \<Rightarrow> ('f, 'k, 'v) ProverState \<Rightarrow> 'k \<Rightarrow> 'v \<Rightarrow>
   ('f octuplet \<times> 'f octuplet) set" where
  "insert_queries E s k v =
     (case findSandwich E s k of Inl _ \<Rightarrow> {}
      | Inr (a, b) \<Rightarrow>
          let D1 = relink_next (data s) a (ps_NextFreeNode s);
              D2 = D1(ps_NextFreeNode s \<mapsto> insert_tuple E a b k v)
          in state_queries (koala E) (data s) \<union> state_queries (koala E) D1 \<union> state_queries (koala E) D2)"

definition delete_queries ::
  "(('f::{comm_ring_1, linorder}), 'k, 'v) env \<Rightarrow> ('f, 'k, 'v) ProverState \<Rightarrow> 'k \<Rightarrow> ('f octuplet \<times> 'f octuplet) set" where
  "delete_queries E s k =
     (case FindKey E s k of Inl _ \<Rightarrow> {}
      | Inr (i, _) \<Rightarrow>
          let D1 = relink_next (data s) (prev_at (data s) i) (next_at (data s) i); D2 = D1(i := None)
          in state_queries (koala E) (data s) \<union> state_queries (koala E) D1 \<union> state_queries (koala E) D2)"

text \<open>The three audited changes of an insertion.\<close>

definition insert_steps ::
  "(('f::comm_ring_1), 'k, 'v) env \<Rightarrow> ('f, 'k, 'v) ProverState \<Rightarrow> int \<Rightarrow> int \<Rightarrow> ('f, 'k, 'v) KVOpeningTuple \<Rightarrow>
   ('f, 'k, 'v) KVOpeningTuple \<Rightarrow> ('f, 'k, 'v) KVOpeningTuple \<Rightarrow>
   'f proof_rec \<Rightarrow> 'f proof_rec \<Rightarrow> 'f proof_rec \<Rightarrow> ('f, 'k, 'v) ProverState \<Rightarrow> bool" where
  "insert_steps E s a b ta tb t p1 p2 p3 s3 \<longleftrightarrow> (\<exists>s1 s2.
     upsertTuple E s a (CopyWithNext ta (ps_NextFreeNode s)) = Inr (p1, s1) \<and>
     leaf_step E s a (Some (CopyWithNext ta (ps_NextFreeNode s))) p1 s1 \<and>
     upsertTuple E s1 (ps_NextFreeNode s) t = Inr (p2, s2) \<and>
     leaf_step E s1 (ps_NextFreeNode s) (Some t) p2 s2 \<and>
     upsertTuple E s2 b (CopyWithPrev tb (ps_NextFreeNode s)) = Inr (p3, s3) \<and>
     leaf_step E s2 b (Some (CopyWithPrev tb (ps_NextFreeNode s))) p3 s3)"

definition insert_run ::
  "(('f::comm_ring_1), 'k, 'v) env \<Rightarrow> ('f, 'k, 'v) ProverState \<Rightarrow> int \<Rightarrow> int \<Rightarrow> ('f, 'k, 'v) KVOpeningTuple \<Rightarrow>
   ('f, 'k, 'v) KVOpeningTuple \<Rightarrow> ('f, 'k, 'v) KVOpeningTuple \<Rightarrow>
   ('f proof_rec \<times> 'f proof_rec \<times> 'f proof_rec \<times> ('f, 'k, 'v) ProverState) result" where
  "insert_run E s a b ta tb t =
     rbind (upsertTuple E s a (CopyWithNext ta (ps_NextFreeNode s))) (\<lambda>(p1, s1).
     rbind (upsertTuple E s1 (ps_NextFreeNode s) t) (\<lambda>(p2, s2).
     rbind (upsertTuple E s2 b (CopyWithPrev tb (ps_NextFreeNode s))) (\<lambda>(p3, s3). Inr (p1, p2, p3, s3))))"

lemma insert_steps_run: "insert_steps E s a b ta tb t p1 p2 p3 s3 \<Longrightarrow> insert_run E s a b ta tb t = Inr (p1, p2, p3, s3)"
  by (auto simp: insert_steps_def insert_run_def)

lemma insert_steps_exist:
  assumes "env_ok E" "prover_ok E s" "ps_NextFreeNode s < 2 ^ 40"
    "adjacent (dom (data s)) (key_at (data s)) a b" "data s a = Some ta" "data s b = Some tb"
    "Next (tup_LeafOpening ta) = b" "Prev (tup_LeafOpening tb) = a" "entry_ok E t"
  defines "D1 \<equiv> (data s)(a \<mapsto> CopyWithNext ta (ps_NextFreeNode s))"
  shows "(\<exists>p1 p2 p3 s3. insert_steps E s a b ta tb t p1 p2 p3 s3) \<or>
    zero_panic (koala E) (state_queries (koala E) (data s) \<union> state_queries (koala E) D1 \<union>
      state_queries (koala E) (D1(ps_NextFreeNode s \<mapsto> t))) (insert_run E s a b ta tb t)"
proof (rule disjCI)
  let ?n = "ps_NextFreeNode s"
  let ?Q = "state_queries (koala E) (data s) \<union> state_queries (koala E) D1 \<union> state_queries (koala E) (D1(?n \<mapsto> t))"
  assume np: "\<not> zero_panic (koala E) ?Q (insert_run E s a b ta tb t)"
  note c = prover_okD(2) [OF assms(2)]
  note pa = chain_position [OF c assms(5)] and pb = chain_position [OF c assms(6)]
  have ne: "a \<noteq> b" "a \<noteq> ?n" "b \<noteq> ?n" using adjacent_neq [OF assms(4)] pa pb by auto
  have n: "data s ?n = None" using chain_position [OF c, of ?n] by (cases "data s ?n") auto
  have "\<not> zero_panic (koala E) (state_queries (koala E) (data s)) (upsertTuple E s a (CopyWithNext ta ?n))"
    by (rule not_zero_panic_bind [OF np [unfolded insert_run_def]]) blast
  then obtain p1 s1 where s1: "upsertTuple E s a (CopyWithNext ta ?n) = Inr (p1, s1)"
    "leaf_step E s a (Some (CopyWithNext ta ?n)) p1 s1"
    using link_next [OF assms(1) prover_okD(1) [OF assms(2)] c assms(5,5), of ?n] assms(7) ne by auto
  note d1 = leaf_stepD(2) [OF s1(2), folded D1_def]
  have "\<not> zero_panic (koala E) (state_queries (koala E) (data s1)) (upsertTuple E s1 ?n t)"
    by (rule not_zero_panic_bind [OF np [unfolded insert_run_def s1(1) rbind.simps prod.case]]) (use d1 in blast)
  then obtain p2 s2 where s2: "upsertTuple E s1 ?n t = Inr (p2, s2)" "leaf_step E s1 ?n (Some t) p2 s2"
    using add_leaf [OF assms(1) leaf_stepD(1) [OF s1(2)] _ assms(3,9)] chain_okD(1) [OF c] n ne
      leaf_stepD(2) [OF s1(2)] by auto
  note d2 = leaf_stepD(2) [OF s2(2), unfolded d1]
  have "\<not> zero_panic (koala E) (state_queries (koala E) (data s2)) (upsertTuple E s2 b (CopyWithPrev tb ?n))"
    by (rule not_zero_panic_bind [OF np [unfolded insert_run_def s1(1) s2(1) rbind.simps prod.case]]) (auto simp: d2)
  moreover have "data s2 b = Some tb" using d2 assms(6) ne by (simp add: D1_def)
  ultimately obtain p3 s3 where "upsertTuple E s2 b (CopyWithPrev tb ?n) = Inr (p3, s3)"
    "leaf_step E s2 b (Some (CopyWithPrev tb ?n)) p3 s3"
    using link_prev [OF assms(1) leaf_stepD(1) [OF s2(2)] c assms(6), of ?n] assms(8) ne by auto
  with s1 s2 show "\<exists>p1 p2 p3 s3. insert_steps E s a b ta tb t p1 p2 p3 s3" unfolding insert_steps_def by blast
qed

lemma insert_steps_data:
  assumes "insert_steps E s a b ta tb t p1 p2 p3 s3"
  shows "synced E s3" "ps_NextFreeNode s3 = ps_NextFreeNode s" "ps_Location s3 = ps_Location s"
    "data s3 = (data s)(a \<mapsto> CopyWithNext ta (ps_NextFreeNode s), ps_NextFreeNode s \<mapsto> t,
       b \<mapsto> CopyWithPrev tb (ps_NextFreeNode s))"
    "Path p1 = a" "Path p2 = ps_NextFreeNode s" "Path p3 = b"
  using assms unfolding insert_steps_def leaf_step_def by auto

lemma insert_steps_replay:
  assumes "insert_steps E s a b ta tb t p1 p2 p3 s3" "data s a = Some ta" "data s b = Some tb"
    "data s (ps_NextFreeNode s) = None" "a \<noteq> b"
  shows "\<exists>r1 r2.
    replays (koala E) p1 (SubTreeRoot s) (leaf_hash (koala E) (tup_LeafOpening ta))
      r1 (leaf_hash (koala E) ((tup_LeafOpening ta)\<lparr>Next := ps_NextFreeNode s\<rparr>)) \<and>
    replays (koala E) p2 r1 0 r2 (leaf_hash (koala E) (tup_LeafOpening t)) \<and>
    replays (koala E) p3 r2 (leaf_hash (koala E) (tup_LeafOpening tb))
      (SubTreeRoot s3) (leaf_hash (koala E) ((tup_LeafOpening tb)\<lparr>Prev := ps_NextFreeNode s\<rparr>))"
proof -
  let ?n = "ps_NextFreeNode s"
  from assms(1) obtain s1 s2 where st:
    "leaf_step E s a (Some (CopyWithNext ta ?n)) p1 s1" "leaf_step E s1 ?n (Some t) p2 s2"
    "leaf_step E s2 b (Some (CopyWithPrev tb ?n)) p3 s3"
    unfolding insert_steps_def by blast
  have ne: "a \<noteq> ?n" "b \<noteq> ?n" using assms(2-4) by auto
  note d = leaf_stepD(2) [OF st(1)] leaf_stepD(2) [OF st(2)] leaf_stepD(2) [OF st(3)]
  show ?thesis
    using leaf_stepD(6) [OF st(1)] leaf_stepD(6) [OF st(2)] leaf_stepD(6) [OF st(3)] assms(2-5) ne
    by (intro exI [of _ "SubTreeRoot s1"] exI [of _ "SubTreeRoot s2"]) (simp add: d leaf_of_def)
qed

lemma synced_NextFreeNode [simp]: "synced E (s\<lparr>ps_NextFreeNode := n\<rparr>) = synced E s"
  by (simp add: synced_def)

text \<open>An insertion between the neighbours \<open>a\<close> and \<open>b\<close> is its three changes.\<close>

lemma InsertAndProve_run:
  assumes "env_ok E" "key_ok E k" "hashableV E v" "FindKey E s k = Inr (0, False)"
    "findSandwich E s k = Inr (a, b)" "data s a = Some ta" "data s b = Some tb"
  shows "InsertAndProve E s k v =
    rbind (insert_run E s a b ta tb (insert_tuple E a b k v)) (\<lambda>(p1, p2, p3, s3).
      Inr (\<lparr>it_Type = 0, it_Location = ps_Location s3, it_NewNextFreeNode = wrap64 (ps_NextFreeNode s + 1),
          it_OldSubRoot = SubTreeRoot s, it_NewSubRoot = SubTreeRoot s3,
          it_ProofMinus = p1, it_ProofNew = p2, it_ProofPlus = p3, it_Key = k, it_Val = v,
          it_OldOpenMinus = tup_LeafOpening ta, it_OldOpenPlus = tup_LeafOpening tb\<rparr>,
         s3\<lparr>ps_NextFreeNode := wrap64 (ps_NextFreeNode s3 + 1)\<rparr>))"
proof -
  have h: "hashK E k = Inr (hk E k)" "hashV E v = Inr (hv E v)"
    using assms(1-3) by (simp_all add: key_ok_def hashK_total hashV_total)
  show ?thesis
    by (simp add: InsertAndProve_def assms(4-7) MustGet_def h Let_def insert_run_def insert_tuple_def
        rbind_assoc SubTreeRoot_def case_prod_unfold)
qed

lemma InsertAndProve_correct:
  assumes "env_ok E" "prover_ok E s" "key_ok E k" "hashableV E v" "ps_NextFreeNode s < 2 ^ 40"
    "contents s (hk E k) = None"
  shows "(\<exists>tr s'. InsertAndProve E s k v = Inr (tr, s') \<and> prover_ok E s' \<and>
    contents s' = (contents s)(hk E k \<mapsto> (k, v)) \<and>
    ps_NextFreeNode s' = ps_NextFreeNode s + 1 \<and>
    VerifyInsertion E (VerifierState_of s) tr = Inr (VerifierState_of s', None) \<and>
    (\<exists>a b. adjacent (dom (data s)) (key_at (data s)) a b \<and>
      key_at (data s) a < hk E k \<and> hk E k < key_at (data s) b \<and>
      data s' = (data s)(a \<mapsto> CopyWithNext (the (data s a)) (ps_NextFreeNode s),
        ps_NextFreeNode s \<mapsto> insert_tuple E a b k v,
        b \<mapsto> CopyWithPrev (the (data s b)) (ps_NextFreeNode s)))) \<or>
    zero_panic (koala E) (insert_queries E s k v) (InsertAndProve E s k v)"
proof -
  let ?n = "ps_NextFreeNode s" and ?D = "data s"
  note c = prover_okD(2) [OF assms(2)] and absent = absent_everywhere [OF assms(2,3,6)]
  have h: "hashK E k = Inr (hk E k)" "hashV E v = Inr (hv E v)" "hashableK E k"
    using assms(1,3,4) by (simp_all add: key_ok_def hashK_total hashV_total)
  have find: "FindKey E s k = Inr (0, False)"
    by (rule FindKey_absent [OF assms(1) h(3) assms(2)]) (rule absent)
  obtain a b where ab: "findSandwich E s k = Inr (a, b)" "adjacent (dom ?D) (key_at ?D) a b"
    "key_at ?D a < hk E k" "hk E k < key_at ?D b"
    by (rule findSandwich_adjacent [OF assms(1,3,2)]) (use absent in blast)+
  obtain ta tb where t: "?D a = Some ta" "?D b = Some tb" "Next (tup_LeafOpening ta) = b"
    "Prev (tup_LeafOpening tb) = a"
    by (rule adjacent_links [OF c ab(2)])
  have n: "?D ?n = None" using chain_position [OF c, of ?n] by (cases "?D ?n") auto
  define new where "new = insert_tuple E a b k v"
  note new_def' = new_def [unfolded insert_tuple_def]
  have new: "entry_ok E new" using assms(3,4) by (simp add: entry_ok_def new_def')
  note run = InsertAndProve_run [OF assms(1,3,4) find ab(1) t(1,2), folded new_def]
  have Q: "insert_queries E s k v = state_queries (koala E) ?D \<union> state_queries (koala E) (?D(a \<mapsto> CopyWithNext ta ?n)) \<union>
      state_queries (koala E) (?D(a \<mapsto> CopyWithNext ta ?n, ?n \<mapsto> new))"
    by (simp add: insert_queries_def ab(1) Let_def relink_next_def t(1) new_def)
  show ?thesis
  proof (cases "zero_panic (koala E) (insert_queries E s k v) (insert_run E s a b ta tb new)")
    case True
    then show ?thesis unfolding run using zero_panic_bind by blast
  next
    case False
    obtain p1 p2 p3 s3 where st: "insert_steps E s a b ta tb new p1 p2 p3 s3"
      using insert_steps_exist [OF assms(1,2,5) ab(2) t new] False [unfolded Q] by blast
    note d = insert_steps_data [OF st]
    let ?s' = "s3\<lparr>ps_NextFreeNode := ?n + 1\<rparr>"
    have "chain_ok E (data s3) (?n + 1)"
      unfolding d(4) using ab(3,4) t
      by (intro chain_insert [OF assms(1) c assms(5) ab(2) t(1,2) new]) (simp_all add: new_def')
    then have ok: "prover_ok E ?s'" using d(1) by (simp add: prover_ok_def)
    have "view (data ?s') = (view ?D)(?n \<mapsto> (hk E k, k, v))"
      using t(1,2) n adjacent_neq [OF ab(2)] by (auto simp: d(4) view_upd fun_eq_iff view_def new_def')
    then have cont: "contents ?s' = (contents s)(hk E k \<mapsto> (k, v))"
      using chain_okD(1) [OF c] n by (intro contents_put [OF assms(2) ok]) (auto simp: view_def)
    define tr where "tr =
      \<lparr>it_Type = 0, it_Location = ps_Location s, it_NewNextFreeNode = ?n + 1,
       it_OldSubRoot = SubTreeRoot s, it_NewSubRoot = SubTreeRoot s3,
       it_ProofMinus = p1, it_ProofNew = p2, it_ProofPlus = p3, it_Key = k, it_Val = v,
       it_OldOpenMinus = tup_LeafOpening ta, it_OldOpenPlus = tup_LeafOpening tb\<rparr>"
    have w: "wrap64 (?n + 1) = ?n + 1"
      using chain_okD(1) [OF c] assms(5) by (intro wrap64_id) (simp add: is_int64_def)
    have tr: "InsertAndProve E s k v = Inr (tr, ?s')"
      unfolding run insert_steps_run [OF st] tr_def using d(2,3) w by simp
    have "insertion_valid E (VerifierState_of s) tr (hk E k) (hv E v)"
      using insert_steps_replay [OF st t(1,2) n adjacent_neq [OF ab(2)]] ab(3,4) t d(5-7) w
      by (simp add: insertion_valid_def VerifierState_of_def SubTreeRoot_def new_def' tr_def)
    then have "VerifyInsertion E (VerifierState_of s) tr = Inr (VerifierState_of ?s', None)"
      unfolding VerifyInsertion_accepts [OF env_okD(1) [OF assms(1)]] using h d(3) w
      by (auto simp: VerifierState_of_def SubTreeRoot_def tr_def)
    moreover have "data ?s' = ?D(a \<mapsto> CopyWithNext (the (?D a)) ?n, ?n \<mapsto> new, b \<mapsto> CopyWithPrev (the (?D b)) ?n)"
      using d(4) t(1,2) by simp
    ultimately show ?thesis
      using tr ok cont ab(2-4) unfolding new_def by (intro disjI1 exI [of _ tr] exI [of _ ?s'] conjI) auto
  qed
qed

subsection \<open>Deletion\<close>

lemma present_entry:
  assumes "env_ok E" "prover_ok E s" "key_ok E k" "contents s (hk E k) = Some (k', v)"
  obtains i t where "data s i = Some t" "i \<noteq> 0" "i \<noteq> 1" "HKey (tup_LeafOpening t) = hk E k"
    "tup_Key t = k'" "tup_Value t = v" "entry_ok E t" "FindKey E s k = Inr (i, True)"
proof -
  obtain i t where i: "data s i = Some t" "i \<noteq> 0" "i \<noteq> 1" "HKey (tup_LeafOpening t) = hk E k"
    "tup_Key t = k'" "tup_Value t = v"
    using contents_iff [OF assms(2)] assms(4) by blast
  moreover have "hashableK E k" using assms(3) by (simp add: key_ok_def)
  ultimately show thesis
    using that chain_okD(8) [OF prover_okD(2) [OF assms(2)]] FindKey_present [OF assms(1) _ assms(2)] by blast
qed

lemma entry_neighbours:
  assumes "env_ok E" "chain_ok E D n" "D i = Some t" "entry_ok E t"
  shows "adjacent (dom D) (key_at D) (Prev (tup_LeafOpening t)) i"
    and "adjacent (dom D) (key_at D) i (Next (tup_LeafOpening t))"
proof -
  have k: "0 < key_at D i" "key_at D i < MaxKoalaOctuplet"
    using key_ok_bounds [OF assms(1), of "tup_Key t"] assms(3,4) by (auto simp: entry_ok_def)
  have i: "i \<in> dom D" using assms(3) by auto
  show "adjacent (dom D) (key_at D) (Prev (tup_LeafOpening t)) i"
    using linked_prev [OF chain_okD(9) [OF assms(2)] i chain_okD(4) [OF assms(2)]] k
      chain_okD(6) [OF assms(2)] assms(3) by simp
  show "adjacent (dom D) (key_at D) i (Next (tup_LeafOpening t))"
    using linked_next [OF chain_okD(9) [OF assms(2)] i chain_okD(5) [OF assms(2)]] k
      chain_okD(7) [OF assms(2)] assms(3) by simp
qed

definition delete_steps ::
  "(('f::comm_ring_1), 'k, 'v) env \<Rightarrow> ('f, 'k, 'v) ProverState \<Rightarrow> int \<Rightarrow> int \<Rightarrow> int \<Rightarrow>
   ('f, 'k, 'v) KVOpeningTuple \<Rightarrow> ('f, 'k, 'v) KVOpeningTuple \<Rightarrow>
   'f proof_rec \<Rightarrow> 'f proof_rec \<Rightarrow> 'f proof_rec \<Rightarrow> ('f, 'k, 'v) ProverState \<Rightarrow> bool" where
  "delete_steps E s a i b ta tb p1 p2 p3 s3 \<longleftrightarrow> (\<exists>s1 s2.
     upsertTuple E s a (CopyWithNext ta b) = Inr (p1, s1) \<and>
     leaf_step E s a (Some (CopyWithNext ta b)) p1 s1 \<and>
     rmTuple E s1 i = Inr (p2, s2) \<and> leaf_step E s1 i None p2 s2 \<and>
     upsertTuple E s2 b (CopyWithPrev tb a) = Inr (p3, s3) \<and>
     leaf_step E s2 b (Some (CopyWithPrev tb a)) p3 s3)"

definition delete_run ::
  "(('f::comm_ring_1), 'k, 'v) env \<Rightarrow> ('f, 'k, 'v) ProverState \<Rightarrow> int \<Rightarrow> int \<Rightarrow> int \<Rightarrow>
   ('f, 'k, 'v) KVOpeningTuple \<Rightarrow> ('f, 'k, 'v) KVOpeningTuple \<Rightarrow>
   ('f proof_rec \<times> 'f proof_rec \<times> 'f proof_rec \<times> ('f, 'k, 'v) ProverState) result" where
  "delete_run E s a i b ta tb =
     rbind (upsertTuple E s a (CopyWithNext ta b)) (\<lambda>(p1, s1).
     rbind (rmTuple E s1 i) (\<lambda>(p2, s2).
     rbind (upsertTuple E s2 b (CopyWithPrev tb a)) (\<lambda>(p3, s3). Inr (p1, p2, p3, s3))))"

lemma delete_steps_run: "delete_steps E s a i b ta tb p1 p2 p3 s3 \<Longrightarrow> delete_run E s a i b ta tb = Inr (p1, p2, p3, s3)"
  by (auto simp: delete_steps_def delete_run_def)

lemma delete_steps_exist:
  assumes "env_ok E" "prover_ok E s" "data s i = Some t" "data s a = Some ta" "data s b = Some tb"
    "a \<noteq> i" "b \<noteq> i" "a \<noteq> b" "Next (tup_LeafOpening ta) = i" "Prev (tup_LeafOpening tb) = i"
  defines "D1 \<equiv> (data s)(a \<mapsto> CopyWithNext ta b)"
  shows "(\<exists>p1 p2 p3 s3. delete_steps E s a i b ta tb p1 p2 p3 s3) \<or>
    zero_panic (koala E) (state_queries (koala E) (data s) \<union> state_queries (koala E) D1 \<union>
      state_queries (koala E) (D1(i := None))) (delete_run E s a i b ta tb)"
proof (rule disjCI)
  let ?Q = "state_queries (koala E) (data s) \<union> state_queries (koala E) D1 \<union> state_queries (koala E) (D1(i := None))"
  assume np: "\<not> zero_panic (koala E) ?Q (delete_run E s a i b ta tb)"
  note c = prover_okD(2) [OF assms(2)]
  have "\<not> zero_panic (koala E) (state_queries (koala E) (data s)) (upsertTuple E s a (CopyWithNext ta b))"
    by (rule not_zero_panic_bind [OF np [unfolded delete_run_def]]) blast
  then obtain p1 s1 where s1: "upsertTuple E s a (CopyWithNext ta b) = Inr (p1, s1)"
    "leaf_step E s a (Some (CopyWithNext ta b)) p1 s1"
    using link_next [OF assms(1) prover_okD(1) [OF assms(2)] c assms(4,4), of b] assms(7,9) by auto
  note d1 = leaf_stepD(2) [OF s1(2), folded D1_def]
  have "\<not> zero_panic (koala E) (state_queries (koala E) (data s1)) (rmTuple E s1 i)"
    by (rule not_zero_panic_bind [OF np [unfolded delete_run_def s1(1) rbind.simps prod.case]]) (auto simp: d1)
  moreover have "data s1 i = Some t" using d1 assms(3,6) by (simp add: D1_def)
  ultimately obtain p2 s2 where s2: "rmTuple E s1 i = Inr (p2, s2)" "leaf_step E s1 i None p2 s2"
    using rmTuple_correct [OF leaf_stepD(1) [OF s1(2)]] chain_position [OF c assms(3)] by blast
  note d2 = leaf_stepD(2) [OF s2(2), unfolded d1]
  have "\<not> zero_panic (koala E) (state_queries (koala E) (data s2)) (upsertTuple E s2 b (CopyWithPrev tb a))"
    by (rule not_zero_panic_bind [OF np [unfolded delete_run_def s1(1) s2(1) rbind.simps prod.case]]) (auto simp: d2)
  moreover have "data s2 b = Some tb" using d2 assms(5,7,8) by (simp add: D1_def)
  ultimately obtain p3 s3 where "upsertTuple E s2 b (CopyWithPrev tb a) = Inr (p3, s3)"
    "leaf_step E s2 b (Some (CopyWithPrev tb a)) p3 s3"
    using link_prev [OF assms(1) leaf_stepD(1) [OF s2(2)] c assms(5), of a] assms(6,10) by auto
  with s1 s2 show "\<exists>p1 p2 p3 s3. delete_steps E s a i b ta tb p1 p2 p3 s3" unfolding delete_steps_def by blast
qed

lemma delete_steps_data:
  assumes "delete_steps E s a i b ta tb p1 p2 p3 s3"
  shows "synced E s3" "ps_NextFreeNode s3 = ps_NextFreeNode s" "ps_Location s3 = ps_Location s"
    "data s3 = (data s)(a \<mapsto> CopyWithNext ta b, i := None, b \<mapsto> CopyWithPrev tb a)"
    "Path p1 = a" "Path p2 = i" "Path p3 = b"
  using assms unfolding delete_steps_def leaf_step_def by auto

lemma delete_steps_replay:
  assumes "delete_steps E s a i b ta tb p1 p2 p3 s3" "data s i = Some t" "data s a = Some ta"
    "data s b = Some tb" "a \<noteq> i" "b \<noteq> i" "a \<noteq> b"
  shows "\<exists>r1 r2.
    replays (koala E) p1 (SubTreeRoot s) (leaf_hash (koala E) (tup_LeafOpening ta))
      r1 (leaf_hash (koala E) ((tup_LeafOpening ta)\<lparr>Next := b\<rparr>)) \<and>
    replays (koala E) p2 r1 (leaf_hash (koala E) (tup_LeafOpening t)) r2 0 \<and>
    replays (koala E) p3 r2 (leaf_hash (koala E) (tup_LeafOpening tb))
      (SubTreeRoot s3) (leaf_hash (koala E) ((tup_LeafOpening tb)\<lparr>Prev := a\<rparr>))"
proof -
  from assms(1) obtain s1 s2 where st:
    "leaf_step E s a (Some (CopyWithNext ta b)) p1 s1" "leaf_step E s1 i None p2 s2"
    "leaf_step E s2 b (Some (CopyWithPrev tb a)) p3 s3"
    unfolding delete_steps_def by blast
  note d = leaf_stepD(2) [OF st(1)] leaf_stepD(2) [OF st(2)] leaf_stepD(2) [OF st(3)]
  show ?thesis
    using leaf_stepD(6) [OF st(1)] leaf_stepD(6) [OF st(2)] leaf_stepD(6) [OF st(3)] assms(2-7)
    by (intro exI [of _ "SubTreeRoot s1"] exI [of _ "SubTreeRoot s2"]) (simp add: d leaf_of_def)
qed

lemma DeleteAndProve_run:
  assumes "FindKey E s k = Inr (i, True)" "data s i = Some t"
    "Prev (tup_LeafOpening t) = a" "Next (tup_LeafOpening t) = b" "data s a = Some ta" "data s b = Some tb"
  shows "DeleteAndProve E s k =
    rbind (delete_run E s a i b ta tb) (\<lambda>(p1, p2, p3, s3).
      Inr (\<lparr>dt_Type = 0, dt_Location = ps_Location s3, dt_NewNextFreeNode = ps_NextFreeNode s3,
          dt_OldSubRoot = SubTreeRoot s, dt_NewSubRoot = SubTreeRoot s3,
          dt_ProofMinus = p1, dt_ProofDeleted = p2, dt_ProofPlus = p3, dt_Key = k,
          dt_OldOpenMinus = tup_LeafOpening ta, dt_DeletedOpen = tup_LeafOpening t,
          dt_OldOpenPlus = tup_LeafOpening tb, dt_DeletedValue = tup_Value t\<rparr>, s3))"
  by (simp add: DeleteAndProve_def delete_run_def assms MustGet_def Let_def rbind_assoc case_prod_unfold)

lemma DeleteAndProve_correct:
  assumes "env_ok E" "prover_ok E s" "key_ok E k" "contents s (hk E k) = Some (k', v)"
  shows "(\<exists>tr s'. DeleteAndProve E s k = Inr (tr, s') \<and> prover_ok E s' \<and>
    contents s' = (contents s)(hk E k := None) \<and> ps_NextFreeNode s' = ps_NextFreeNode s \<and>
    VerifyDeletion E (VerifierState_of s) tr = Inr (VerifierState_of s', None) \<and>
    (\<exists>a i b. data s i \<noteq> None \<and> key_at (data s) i = hk E k \<and> prev_at (data s) i = a \<and> next_at (data s) i = b \<and>
      data s' = (data s)(a \<mapsto> CopyWithNext (the (data s a)) b, i := None,
        b \<mapsto> CopyWithPrev (the (data s b)) a))) \<or>
    zero_panic (koala E) (delete_queries E s k) (DeleteAndProve E s k)"
proof -
  let ?D = "data s"
  note c = prover_okD(2) [OF assms(2)]
  obtain i t where i: "?D i = Some t" "i \<noteq> 0" "i \<noteq> 1" "HKey (tup_LeafOpening t) = hk E k"
    "tup_Key t = k'" "tup_Value t = v" "entry_ok E t" "FindKey E s k = Inr (i, True)"
    by (rule present_entry [OF assms])
  define a b where "a = Prev (tup_LeafOpening t)" and "b = Next (tup_LeafOpening t)"
  have adj: "adjacent (dom ?D) (key_at ?D) a i" "adjacent (dom ?D) (key_at ?D) i b"
    using entry_neighbours [OF assms(1) c i(1,7)] by (simp_all add: a_def b_def)
  obtain ta where ta: "?D a = Some ta" "Next (tup_LeafOpening ta) = i"
    by (rule adjacent_links [OF c adj(1)])
  obtain tb where tb: "?D b = Some tb" "Prev (tup_LeafOpening tb) = i"
    by (rule adjacent_links [OF c adj(2)])
  have ne: "a \<noteq> i" "b \<noteq> i" "a \<noteq> b"
    using adjacent_neq [OF adj(1)] adjacent_neq [OF adj(2)] adjacentD(3) [OF adj(1)]
      adjacentD(3) [OF adj(2)] by auto
  note run = DeleteAndProve_run [OF i(8,1) a_def [symmetric] b_def [symmetric] ta(1) tb(1)]
  have Q: "delete_queries E s k = state_queries (koala E) ?D \<union> state_queries (koala E) (?D(a \<mapsto> CopyWithNext ta b)) \<union>
      state_queries (koala E) (?D(a \<mapsto> CopyWithNext ta b, i := None))"
    using ta(1) by (simp add: delete_queries_def i(1,8) Let_def relink_next_def a_def b_def)
  show ?thesis
  proof (cases "zero_panic (koala E) (delete_queries E s k) (delete_run E s a i b ta tb)")
    case True
    then show ?thesis unfolding run using zero_panic_bind by blast
  next
    case False
    obtain p1 p2 p3 s3 where st: "delete_steps E s a i b ta tb p1 p2 p3 s3"
      using delete_steps_exist [OF assms(1,2) i(1) ta(1) tb(1) ne ta(2) tb(2)] False [unfolded Q] by blast
    note d = delete_steps_data [OF st]
    have "chain_ok E (data s3) (ps_NextFreeNode s)"
      unfolding d(4) by (rule chain_delete [OF assms(1) c i(1-3) adj ta(1) tb(1)])
    then have ok: "prover_ok E s3" using d(1,2) by (simp add: prover_ok_def)
    have "view (data s3) = (view ?D)(i := None)"
      using ta(1) tb(1) ne by (auto simp: d(4) view_upd fun_eq_iff view_def)
    then have cont: "contents s3 = (contents s)(hk E k := None)"
      using i by (intro contents_drop [OF assms(2) ok]) (auto simp: view_def)
    define tr where "tr =
      \<lparr>dt_Type = 0, dt_Location = ps_Location s, dt_NewNextFreeNode = ps_NextFreeNode s,
       dt_OldSubRoot = SubTreeRoot s, dt_NewSubRoot = SubTreeRoot s3,
       dt_ProofMinus = p1, dt_ProofDeleted = p2, dt_ProofPlus = p3, dt_Key = k,
       dt_OldOpenMinus = tup_LeafOpening ta, dt_DeletedOpen = tup_LeafOpening t,
       dt_OldOpenPlus = tup_LeafOpening tb, dt_DeletedValue = tup_Value t\<rparr>"
    have tr: "DeleteAndProve E s k = Inr (tr, s3)"
      unfolding run delete_steps_run [OF st] tr_def using d(2,3) by simp
    have h: "hashK E k = Inr (hk E k)" "hashV E v = Inr (hv E v)" "HVal (tup_LeafOpening t) = hv E v"
      using assms(1,3) i(6,7) by (auto simp: key_ok_def hashK_total hashV_total entry_ok_def)
    have "deletion_valid E (VerifierState_of s) tr (hk E k) (hv E v)"
      using delete_steps_replay [OF st i(1) ta(1) tb(1) ne] i(4) h(3) ta(2) tb(2) d(5-7)
      by (simp add: deletion_valid_def VerifierState_of_def SubTreeRoot_def tr_def a_def b_def)
    then have "VerifyDeletion E (VerifierState_of s) tr = Inr (VerifierState_of s3, None)"
      unfolding VerifyDeletion_accepts [OF env_okD(1) [OF assms(1)]] using h(1,2) d(2,3) i(6)
      by (auto simp: VerifierState_of_def SubTreeRoot_def tr_def)
    moreover have "data s3 = ?D(a \<mapsto> CopyWithNext (the (?D a)) b, i := None, b \<mapsto> CopyWithPrev (the (?D b)) a)"
      using d(4) ta(1) tb(1) by simp
    ultimately show ?thesis
      using tr ok cont d(2) i(1,4)
      by (intro disjI1 exI [of _ tr] exI [of _ s3] conjI exI [of _ a] exI [of _ i] exI [of _ b])
        (simp_all add: a_def b_def)
  qed
qed

subsection \<open>Update\<close>

lemma UpdateAndProve_correct:
  assumes "env_ok E" "prover_ok E s" "key_ok E k" "contents s (hk E k) = Some (k', v0)" "hashableV E v"
  shows "(\<exists>tr s'. UpdateAndProve E s k v = Inr (tr, s') \<and> prover_ok E s' \<and>
    contents s' = (contents s)(hk E k \<mapsto> (k', v)) \<and> ps_NextFreeNode s' = ps_NextFreeNode s \<and>
    UpdateVerify E (VerifierState_of s) tr = Inr (VerifierState_of s', None) \<and>
    (\<exists>i t. data s i = Some t \<and> HKey (tup_LeafOpening t) = hk E k \<and>
      data s' = (data s)(i \<mapsto> t\<lparr>tup_Value := v,
        tup_LeafOpening := (tup_LeafOpening t)\<lparr>HVal := hv E v\<rparr>\<rparr>))) \<or>
    zero_panic (koala E) (state_queries (koala E) (data s)) (UpdateAndProve E s k v)"
proof -
  let ?D = "data s" and ?kb = "koala E"
  note c = prover_okD(2) [OF assms(2)] and sy = prover_okD(1) [OF assms(2)]
  obtain i t where i: "?D i = Some t" "i \<noteq> 0" "i \<noteq> 1" "HKey (tup_LeafOpening t) = hk E k"
    "tup_Key t = k'" "tup_Value t = v0" "entry_ok E t" "FindKey E s k = Inr (i, True)"
    by (rule present_entry [OF assms(1-4)])
  let ?t = "t\<lparr>tup_Value := v, tup_LeafOpening := (tup_LeafOpening t)\<lparr>HVal := hv E v\<rparr>\<rparr>"
  let ?kv = "Mapping_Update (ps_Data s) i ?t"
  have kv: "mapping_ok ?kv" "map_of ?kv = ?D(i := Some ?t)"
    by (rule mapping_laws [OF prover_okD(3) [OF assms(2)]])+
  then have leaf: "leaf_of ?kb (map_of ?kv) i = leaf_hash ?kb (tup_LeafOpening ?t)"
    by (simp add: leaf_of_def)
  let ?r = "rbind (Update ?kb (ps_Tree s) i (leaf_hash ?kb (tup_LeafOpening ?t))) (\<lambda>tree. MustProve tree i)"
  have h: "hashK E k = Inr (hk E k)" "hashV E v = Inr (hv E v)" "hashK E k' = Inr (hk E k)"
    "hashV E v0 = Inr (HVal (tup_LeafOpening t))"
    using assms(1,3,5) i(4-7) by (auto simp: key_ok_def hashK_total hashV_total entry_ok_def)
  show ?thesis
  proof (cases "zero_panic ?kb (state_queries ?kb ?D) ?r")
    case True
    then show ?thesis
      using h i by (auto simp: zero_panic_def rbind_Inl_iff UpdateAndProve_def MustGet_def Let_def
          LeafOpening_Hash_total [OF env_okD(1) [OF assms(1)]])
  next
    case False
    obtain tree p where w: "Update ?kb (ps_Tree s) i (leaf_hash ?kb (tup_LeafOpening ?t)) = Inr tree"
      "MustProve tree i = Inr p" "leaf_step E s i (Some ?t) p (s\<lparr>ps_Data := ?kv, ps_Tree := tree\<rparr>)"
      using chain_position [OF c i(1)] tree_step [OF sy _ _ kv leaf] False by blast
    let ?s' = "s\<lparr>ps_Data := ?kv, ps_Tree := tree\<rparr>"
    have "chain_ok E (data ?s') (ps_NextFreeNode s)"
      using kv(2) chain_update [OF c i(1-3) assms(5)] by simp
    then have ok: "prover_ok E ?s'" using leaf_stepD(1) [OF w(3)] by (simp add: prover_ok_def)
    have "view (data ?s') = (view ?D)(i \<mapsto> (hk E k, k', v))"
      using kv(2) i by (simp add: view_upd)
    then have cont: "contents ?s' = (contents s)(hk E k \<mapsto> (k', v))"
      using i(1-4) by (intro contents_put [OF assms(2) ok]) (auto simp: view_def)
    define tr where "tr = \<lparr>ut_Type = 0, ut_Location = ps_Location s, ut_Key = tup_Key t,
      ut_OldValue = v0, ut_NewValue = v, ut_NewNextFreeNode = ps_NextFreeNode s,
      ut_OldSubRoot = SubTreeRoot s, ut_NewSubRoot = SubTreeRoot ?s',
      ut_OldOpening = tup_LeafOpening t, ut_Proof = p\<rparr>"
    have tr: "UpdateAndProve E s k v = Inr (tr, ?s')"
      using w(1,2) h i
      by (simp add: UpdateAndProve_def MustGet_def Let_def LeafOpening_Hash_total [OF env_okD(1) [OF assms(1)]]
          tr_def)
    have "replays ?kb p (SubTreeRoot s) (leaf_hash ?kb (tup_LeafOpening t)) (SubTreeRoot ?s')
        (leaf_hash ?kb ((tup_LeafOpening t)\<lparr>HVal := hv E v\<rparr>))"
      using leaf_stepD(6) [OF w(3)] i(1) kv(2) by (simp add: leaf_of_def)
    then have "UpdateVerify E (VerifierState_of s) tr = Inr (VerifierState_of ?s', None)"
      unfolding UpdateVerify_accepts [OF env_okD(1) [OF assms(1)]] using h i(4,5)
      by (simp add: VerifierState_of_def SubTreeRoot_def tr_def opens_def)
    with tr ok cont i(1,4) kv(2) show ?thesis
      by (intro disjI1 exI [of _ tr] exI [of _ ?s'] conjI exI [of _ i] exI [of _ t]) simp_all
  qed
qed

subsection \<open>Reads\<close>

lemma MustProve_entry:
  assumes "synced E s" "chain_ok E (data s) n" "data s i = Some t"
  shows "(\<exists>p. MustProve (ps_Tree s) i = Inr p \<and> Path p = i \<and>
      RecoverRoot (koala E) p (leaf_hash (koala E) (tup_LeafOpening t)) = Inr (SubTreeRoot s)) \<or>
    zero_panic (koala E) (state_queries (koala E) (data s)) (MustProve (ps_Tree s) i)"
proof -
  have i: "0 \<le> i" "i < 2 ^ 40" using chain_position [OF assms(2,3)] by auto
  then obtain j where j: "i = int j" "j < 2 ^ 40" using nonneg_int_cases [of i] by auto
  have ok: "tree_ok (koala E) (ps_Tree s)" "j < 2 ^ Depth (ps_Tree s)"
    using assms(1) j(2) by (simp_all add: synced_def)
  show ?thesis
  proof (cases "MustProve (ps_Tree s) i")
    case (Inr p)
    with smt.proves_leaf [OF ok, of p] synced_leaf [OF assms(1) j(2)] assms(3) j(1)
    show ?thesis by (simp add: leaf_of_def SubTreeRoot_def)
  next
    case (Inl e)
    with MustProve_cases [OF ok] synced_readable [OF assms(1) j(2)] j(1)
    show ?thesis by (auto simp: zero_panic_def)
  qed
qed

lemma ReadZeroAndProve_correct:
  assumes "env_ok E" "prover_ok E s" "key_ok E k" "contents s (hk E k) = None"
  shows "(\<exists>tr. ReadZeroAndProve E s k = Inr tr \<and>
      ReadZeroVerify E (VerifierState_of s) tr = Inr (VerifierState_of s, None)) \<or>
    zero_panic (koala E) (state_queries (koala E) (data s)) (ReadZeroAndProve E s k)"
proof -
  let ?D = "data s"
  note c = prover_okD(2) [OF assms(2)] and sy = prover_okD(1) [OF assms(2)]
  note absent = absent_everywhere [OF assms(2,3,4)]
  have h: "hashK E k = Inr (hk E k)" "hashableK E k"
    using assms(1,3) by (simp_all add: key_ok_def hashK_total)
  have find: "FindKey E s k = Inr (0, False)"
    by (rule FindKey_absent [OF assms(1) h(2) assms(2)]) (rule absent)
  obtain a b where ab: "findSandwich E s k = Inr (a, b)" "adjacent (dom ?D) (key_at ?D) a b"
    "key_at ?D a < hk E k" "hk E k < key_at ?D b"
    by (rule findSandwich_adjacent [OF assms(1,3,2)]) (use absent in blast)+
  obtain ta tb where t: "?D a = Some ta" "?D b = Some tb" "Next (tup_LeafOpening ta) = b"
    "Prev (tup_LeafOpening tb) = a"
    by (rule adjacent_links [OF c ab(2)])
  consider (ok) p1 p2 where "MustProve (ps_Tree s) a = Inr p1" "Path p1 = a"
      "RecoverRoot (koala E) p1 (leaf_hash (koala E) (tup_LeafOpening ta)) = Inr (SubTreeRoot s)"
      "MustProve (ps_Tree s) b = Inr p2" "Path p2 = b"
      "RecoverRoot (koala E) p2 (leaf_hash (koala E) (tup_LeafOpening tb)) = Inr (SubTreeRoot s)"
    | (zero) "zero_panic (koala E) (state_queries (koala E) ?D) (rbind (MustProve (ps_Tree s) a) (\<lambda>_. MustProve (ps_Tree s) b))"
    using MustProve_entry [OF sy c t(1)] MustProve_entry [OF sy c t(2)] by (auto simp: zero_panic_def)
  then show ?thesis
  proof cases
    case ok
    then have "ReadZeroAndProve E s k = Inr \<lparr>rz_Type = 0, rz_Location = ps_Location s, rz_Key = k,
        rz_SubRoot = SubTreeRoot s, rz_NextFreeNode = ps_NextFreeNode s,
        rz_OpeningMinus = tup_LeafOpening ta, rz_OpeningPlus = tup_LeafOpening tb,
        rz_ProofMinus = p1, rz_ProofPlus = p2\<rparr>"
      by (simp add: ReadZeroAndProve_def find ab(1) MustGet_def t(1,2))
    then show ?thesis
      unfolding ReadZeroVerify_accepts [OF env_okD(1) [OF assms(1)]]
      using ab(3,4) t ok h(1) by (intro disjI1) (simp add: VerifierState_of_def SubTreeRoot_def)
  next
    case zero
    then show ?thesis
      by (auto simp: zero_panic_def rbind_Inl_iff ReadZeroAndProve_def find ab(1) MustGet_def t(1,2))
  qed
qed

lemma ReadNonZeroAndProve_correct:
  assumes "env_ok E" "prover_ok E s" "key_ok E k" "contents s (hk E k) = Some (k', v)"
  shows "(\<exists>tr. ReadNonZeroAndProve E s k = Inr tr \<and> rnz_Key tr = k' \<and> rnz_Value tr = v \<and>
      ReadNonZeroVerify E (VerifierState_of s) tr = Inr (VerifierState_of s, None)) \<or>
    zero_panic (koala E) (state_queries (koala E) (data s)) (ReadNonZeroAndProve E s k)"
proof -
  note c = prover_okD(2) [OF assms(2)] and sy = prover_okD(1) [OF assms(2)]
  obtain i t where i: "data s i = Some t" "HKey (tup_LeafOpening t) = hk E k"
    "tup_Key t = k'" "tup_Value t = v" "entry_ok E t" "FindKey E s k = Inr (i, True)"
    by (rule present_entry [OF assms])
  have h: "hashK E k = Inr (hk E k)" "hashK E k' = Inr (hk E k)"
    "hashV E v = Inr (HVal (tup_LeafOpening t))"
    using assms(1,3) i(2-5) by (auto simp: key_ok_def hashK_total hashV_total entry_ok_def)
  have run: "ReadNonZeroAndProve E s k = rbind (MustProve (ps_Tree s) i) (\<lambda>p. Inr \<lparr>rnz_Type = 0, rnz_Location = ps_Location s,
      rnz_NextFreeNode = ps_NextFreeNode s, rnz_Key = k', rnz_Value = v, rnz_SubRoot = SubTreeRoot s,
      rnz_LeafOpening = tup_LeafOpening t, rnz_Proof = p\<rparr>)"
    by (simp add: ReadNonZeroAndProve_def i h MustGet_def)
  show ?thesis
  proof (cases "zero_panic (koala E) (state_queries (koala E) (data s)) (MustProve (ps_Tree s) i)")
    case True
    then show ?thesis unfolding run using zero_panic_bind by blast
  next
    case False
    then obtain p where p: "MustProve (ps_Tree s) i = Inr p" "Path p = i"
      "RecoverRoot (koala E) p (leaf_hash (koala E) (tup_LeafOpening t)) = Inr (SubTreeRoot s)"
      using MustProve_entry [OF sy c i(1)] by blast
    show ?thesis
      unfolding ReadNonZeroVerify_accepts [OF env_okD(1) [OF assms(1)]] run
      using p h i(2) by (intro disjI1) (simp add: VerifierState_of_def SubTreeRoot_def opens_def)
  qed
qed

subsection \<open>Initial state\<close>

lemma tree_set:
  assumes "tree_ok kb t" "Depth t = 40" "0 \<le> i" "i < 2 ^ 40"
  shows "(\<exists>t'. Update kb t i v = Inr t' \<and> tree_ok kb t' \<and> Depth t' = 40 \<and> leaf_at t' = (leaf_at t)(nat i := v)) \<or>
    zero_panic kb (tree_queries kb (leaf_at t) 40) (Update kb t i v)"
proof -
  have i: "nat i < 2 ^ Depth t" using assms(2-4) by (simp add: nat_less_iff)
  show ?thesis
    using Update_correct [OF assms(1) i, of v] no_zero_sibling [of kb "leaf_at t" "Depth t", OF _ i] assms(2,3)
    by (auto simp: zero_panic_def)
qed

text \<open>The inputs evaluated for the empty tree and for the tree that holds the head only.\<close>

definition initial_queries :: "('f::comm_ring_1) koalabear \<Rightarrow> ('f octuplet \<times> 'f octuplet) set" where
  "initial_queries kb = tree_queries kb (\<lambda>_. 0) 40 \<union> tree_queries kb ((\<lambda>_. 0)(0 := leaf_hash kb Head)) 40"

lemma initial_chain:
  assumes "env_ok E"
  shows "chain_ok E [0 \<mapsto> \<lparr>tup_LeafOpening = Head, tup_Key = k, tup_Value = v\<rparr>,
                     1 \<mapsto> \<lparr>tup_LeafOpening = Tail, tup_Key = k, tup_Value = v\<rparr>] 2"
proof -
  let ?D = "[0 \<mapsto> \<lparr>tup_LeafOpening = Head, tup_Key = k, tup_Value = v\<rparr>,
             1 \<mapsto> \<lparr>tup_LeafOpening = Tail, tup_Key = k, tup_Value = v\<rparr>]
            :: int \<rightharpoonup> ('a, 'b, 'c) KVOpeningTuple"
  have dom: "dom ?D = {0, 1}" by auto
  have b: "(0 :: 'a octuplet) \<le> MaxKoalaOctuplet" "(0 :: 'a octuplet) \<noteq> MaxKoalaOctuplet"
    using koala_ok_bounds [OF env_okD(1) [OF assms], of 0]
    by (auto simp: MaxKoalaOctuplet_def zero_octuplet_def negativeOne_def)
  have "linked (dom ?D) (key_at ?D) (prev_at ?D) (next_at ?D)"
    unfolding linked_def dom adjacent_def using b by (auto simp: Head_def Tail_def)
  then show ?thesis
    by (intro chain_okI) (auto simp: Head_def Tail_def split: if_splits)
qed

lemma InitializeProverState_correct:
  assumes "env_ok E"
  shows "(\<exists>s. InitializeProverState E loc = Inr s \<and> prover_ok E s \<and> contents s = Map.empty \<and>
      ps_NextFreeNode s = 2 \<and> ps_Location s = loc) \<or>
    zero_panic (koala E) (initial_queries (koala E)) (InitializeProverState E loc)"
proof (rule disjCI)
  let ?kb = "koala E"
  note kb = env_okD(1) [OF assms]
  assume np: "\<not> zero_panic ?kb (initial_queries ?kb) (InitializeProverState E loc)"
  note np = np [unfolded InitializeProverState_def Let_def LeafOpening_Hash_total [OF kb] rbind.simps]
  have t0: "tree_ok ?kb (NewEmptyTree ?kb [])" "Depth (NewEmptyTree ?kb []) = 40"
    "leaf_at (NewEmptyTree ?kb []) = (\<lambda>_. 0)"
    by (rule NewEmptyTree_ok, simp, simp)+
  have "\<not> zero_panic ?kb (tree_queries ?kb (\<lambda>_. 0) 40) (Update ?kb (NewEmptyTree ?kb []) 0 (leaf_hash ?kb Head))"
    by (rule not_zero_panic_bind [OF np]) (auto simp: initial_queries_def)
  then obtain t1 where t1: "Update ?kb (NewEmptyTree ?kb []) 0 (leaf_hash ?kb Head) = Inr t1"
    "tree_ok ?kb t1" "Depth t1 = 40" "leaf_at t1 = (\<lambda>_. 0)(nat 0 := leaf_hash ?kb Head)"
    using tree_set [OF t0(1,2), of 0] t0(3) by auto
  have "\<not> zero_panic ?kb (tree_queries ?kb (leaf_at t1) 40) (Update ?kb t1 1 (leaf_hash ?kb Tail))"
    by (rule not_zero_panic_bind [OF np [unfolded t1(1) rbind.simps]]) (auto simp: initial_queries_def t1(4))
  then obtain t2 where t2: "Update ?kb t1 1 (leaf_hash ?kb Tail) = Inr t2"
    "tree_ok ?kb t2" "Depth t2 = 40" "leaf_at t2 = (leaf_at t1)(nat 1 := leaf_hash ?kb Tail)"
    using tree_set [OF t1(2,3), of 1] by auto
  let ?z = "\<lparr>tup_LeafOpening = Head, tup_Key = zeroK E, tup_Value = zeroV E\<rparr>"
  let ?data = "AList.update 1 (?z\<lparr>tup_LeafOpening := Tail\<rparr>) (AList.update (0::int) ?z NewMapping)"
  let ?s = "\<lparr>ps_Location = loc, ps_NextFreeNode = 2, ps_Tree = t2, ps_Data = ?data\<rparr>"
  have init: "InitializeProverState E loc = Inr ?s"
    using t1(1) t2(1)
    by (simp add: InitializeProverState_def LeafOpening_Hash_total [OF kb] InsertNew_def NewMapping_def)
  have map: "map_of ?data = [0 \<mapsto> ?z, 1 \<mapsto> ?z\<lparr>tup_LeafOpening := Tail\<rparr>]"
    by (auto simp: NewMapping_def)
  have "leaf_at t2 i = leaf_of ?kb (map_of ?data) (int i)" for i
    unfolding map t2(4) t1(4) leaf_of_def by auto
  moreover have "mapping_ok ?data" by (simp add: mapping_ok_def NewMapping_def)
  ultimately have "synced E ?s" using t2(2,3) by (simp add: synced_def)
  moreover have "chain_ok E (map_of ?data) 2"
    unfolding map using initial_chain [OF assms, of "zeroK E" "zeroV E"] by simp
  ultimately have ok: "prover_ok E ?s" by (simp add: prover_ok_def)
  have "contents ?s = Map.empty"
    by (simp add: contents_def NewMapping_def HeadOrTail_iff Head_def Tail_def)
  with init ok show "\<exists>s. InitializeProverState E loc = Inr s \<and> prover_ok E s \<and> contents s = Map.empty \<and>
      ps_NextFreeNode s = 2 \<and> ps_Location s = loc" by auto
qed

subsection \<open>Refused operations\<close>

lemma InsertAndProve_present:
  assumes "env_ok E" "prover_ok E s" "key_ok E k" "contents s (hk E k) \<noteq> None"
  shows "\<exists>m. InsertAndProve E s k v = Inl (Panic m)" and "\<exists>m. ReadZeroAndProve E s k = Inl (Panic m)"
proof -
  obtain k' v' where "contents s (hk E k) = Some (k', v')" using assms(4) by auto
  then obtain i where "FindKey E s k = Inr (i, True)" by (rule present_entry [OF assms(1-3)])
  then show "\<exists>m. InsertAndProve E s k v = Inl (Panic m)" "\<exists>m. ReadZeroAndProve E s k = Inl (Panic m)"
    by (simp_all add: InsertAndProve_def ReadZeroAndProve_def)
qed

lemma operations_absent:
  assumes "env_ok E" "prover_ok E s" "key_ok E k" "contents s (hk E k) = None"
  shows "\<exists>m. DeleteAndProve E s k = Inl (Panic m)" and "\<exists>m. UpdateAndProve E s k v = Inl (Panic m)"
    and "\<exists>m. ReadNonZeroAndProve E s k = Inl (Panic m)"
proof -
  have "FindKey E s k = Inr (0, False)"
    using assms(3) absent_everywhere [OF assms(2-4)]
    by (intro FindKey_absent [OF assms(1) _ assms(2)]) (simp_all add: key_ok_def)
  then show "\<exists>m. DeleteAndProve E s k = Inl (Panic m)" "\<exists>m. UpdateAndProve E s k v = Inl (Panic m)"
    "\<exists>m. ReadNonZeroAndProve E s k = Inl (Panic m)"
    by (simp_all add: DeleteAndProve_def UpdateAndProve_def ReadNonZeroAndProve_def)
qed

end
