(* ===== verification/Binding.thy ===== *)
theory Binding
  imports Smt
begin

text \<open>
  Binding of Merkle proofs: a proof of any length that recovers the root of a tree from a leaf digest
  is the tree's own proof of the leaf at that position, unless two of the compression inputs evaluated
  by the verification and by the tree collide or one of them compresses to zero. \<open>Verify\<close> does not check the number of siblings; the
  statement holds without such a check because a leaf digest chains more blocks than an inner node
  does.
\<close>

subsection \<open>Inputs evaluated\<close>

lemma hash2_foldl: "hash2 kb l r = foldl (CompressPoseidon2 kb) 0 [l, r]"
  by (simp add: hash2_def)

fun climb_queries ::
  "('f::zero) koalabear \<Rightarrow> nat \<Rightarrow> 'f octuplet \<Rightarrow> 'f octuplet list \<Rightarrow> ('f octuplet \<times> 'f octuplet) set" where
  "climb_queries kb i cur [] = {}"
| "climb_queries kb i cur (s # ss) =
     (let (l, r) = (if odd i then (s, cur) else (cur, s))
      in md_queries kb 0 [l, r] \<union> climb_queries kb (i div 2) (hash2 kb l r) ss)"

lemma climb_queries_append:
  "climb_queries kb i cur (ss @ [s]) =
     climb_queries kb i cur ss \<union>
     (let c = climb (hash2 kb) i cur ss
      in md_queries kb 0 (if odd (i div 2 ^ length ss) then [s, c] else [c, s]))"
  by (induction ss arbitrary: i cur) (auto simp: Let_def div_mult2_eq)

lemma hash2_inj:
  assumes "\<not> collides kb Q" "md_queries kb 0 [a, b] \<subseteq> Q" "md_queries kb 0 [c, d] \<subseteq> Q"
    "hash2 kb a b = hash2 kb c d"
  shows "a = c \<and> b = d"
  using foldl_compress_inj [OF assms(1) _ assms(2,3)] assms(4) by (simp add: hash2_foldl)

text \<open>A digest of at least three blocks is not that of an inner node.\<close>

definition long_digest ::
  "('f::zero) koalabear \<Rightarrow> ('f octuplet \<times> 'f octuplet) set \<Rightarrow> 'f octuplet \<Rightarrow> bool" where
  "long_digest kb Q x \<longleftrightarrow>
     (\<exists>es. 3 \<le> length es \<and> x = foldl (CompressPoseidon2 kb) 0 es \<and> md_queries kb 0 es \<subseteq> Q)"

lemma long_digest_not_node:
  assumes "\<not> breaks kb Q" "long_digest kb Q x" "md_queries kb 0 [l, r] \<subseteq> Q"
  shows "x \<noteq> hash2 kb l r"
proof
  assume x: "x = hash2 kb l r"
  obtain es where es: "3 \<le> length es" "x = foldl (CompressPoseidon2 kb) 0 es" "md_queries kb 0 es \<subseteq> Q"
    using assms(2) by (auto simp: long_digest_def)
  obtain es' a b c where e: "es = es' @ [a, b, c]"
  proof -
    have "es = take (length es - 3) es @ drop (length es - 3) es" by simp
    moreover have "length (drop (length es - 3) es) = Suc (Suc (Suc 0))" using es(1) by simp
    then obtain a b c where "drop (length es - 3) es = [a, b, c]"
      unfolding length_Suc_conv by auto
    ultimately show thesis using that by metis
  qed
  let ?st = "foldl (CompressPoseidon2 kb) 0 (es' @ [a])"
  have "md_queries kb ?st [b, c] \<subseteq> Q" using es(3) by (simp add: e)
  moreover have "foldl (CompressPoseidon2 kb) ?st [b, c] = foldl (CompressPoseidon2 kb) 0 [l, r]"
    using x es(2) by (simp add: e hash2_foldl)
  ultimately have "?st = 0"
    using foldl_compress_inj [OF not_breaksD(1) [OF assms(1)] _ _ assms(3), of "[b, c]" ?st] by simp
  moreover have "(foldl (CompressPoseidon2 kb) 0 es', a) \<in> Q" using es(3) by (simp add: e)
  ultimately show False using not_zero_digestD [OF not_breaksD(2) [OF assms(1)]] by simp
qed

lemma long_digest_nonzero:
  assumes "\<not> zero_digest kb Q" "long_digest kb Q x"
  shows "x \<noteq> 0"
proof -
  obtain es where es: "3 \<le> length es" "x = foldl (CompressPoseidon2 kb) 0 es" "md_queries kb 0 es \<subseteq> Q"
    using assms(2) by (auto simp: long_digest_def)
  then obtain es' e where e: "es = es' @ [e]" by (cases es rule: rev_cases) simp_all
  have "(foldl (CompressPoseidon2 kb) 0 es', e) \<in> Q" using es(3) by (simp add: e)
  from not_zero_digestD [OF assms(1) this] es(2) show ?thesis by (simp add: e)
qed

subsection \<open>Paths\<close>

lemma path_binding:
  assumes "\<not> breaks kb Q" "tree_queries kb f d \<subseteq> Q" "cur = 0 \<or> long_digest kb Q cur"
    "\<And>k. f k = 0 \<or> long_digest kb Q (f k)"
    "climb_queries kb i cur ss \<subseteq> Q" "L \<le> d" "j < 2 ^ (d - L)"
    "climb (hash2 kb) i cur ss = mnode (hash2 kb) f L j"
  shows "length ss = L \<and>
    (let k = j * 2 ^ L + i mod 2 ^ L in cur = f k \<and> ss = siblings (hash2 kb) f L k)"
  using assms(5-8)
proof (induction ss arbitrary: L j rule: rev_induct)
  case Nil
  show ?case
  proof (cases L)
    case 0
    with Nil show ?thesis by (simp add: siblings_def)
  next
    case (Suc l)
    have "md_queries kb 0 [mnode (hash2 kb) f l (2 * j), mnode (hash2 kb) f l (2 * j + 1)] \<subseteq> Q"
      using Nil.prems(2,3) by (intro order.trans [OF tree_queriesI assms(2)]) (simp_all add: Suc)
    from long_digest_not_node [OF assms(1) _ this, of cur] assms(3) Nil.prems(4)
      hash2_nonzero [OF not_breaksD(2) [OF assms(1)] this] show ?thesis by (auto simp: Suc)
  qed
next
  case (snoc s ss)
  let ?h = "hash2 kb"
  define c where "c = climb ?h i cur ss"
  define b where "b = odd (i div 2 ^ length ss)"
  define nl nr where "nl = (if b then s else c)" and "nr = (if b then c else s)"
  have up: "climb ?h i cur (ss @ [s]) = ?h nl nr"
    by (simp add: climb_append c_def b_def nl_def nr_def Let_def)
  have q: "md_queries kb 0 [nl, nr] \<subseteq> Q" "climb_queries kb i cur ss \<subseteq> Q"
    using snoc.prems(1) by (auto simp: climb_queries_append Let_def nl_def nr_def b_def c_def)
  show ?case
  proof (cases L)
    case 0
    have "f j = ?h nl nr" using snoc.prems(4) up by (simp add: 0)
    then show ?thesis
      using assms(4) [of j] hash2_nonzero [OF not_breaksD(2) [OF assms(1)] q(1)]
        long_digest_not_node [OF assms(1) _ q(1), of "f j"] by auto
  next
    case (Suc l)
    have t: "md_queries kb 0 [mnode ?h f l (2 * j), mnode ?h f l (2 * j + 1)] \<subseteq> Q"
      using snoc.prems(2,3) by (intro order.trans [OF tree_queriesI assms(2)]) (simp_all add: Suc)
    have "nl = mnode ?h f l (2 * j) \<and> nr = mnode ?h f l (2 * j + 1)"
      using hash2_inj [OF not_breaksD(1) [OF assms(1)] q(1) t] snoc.prems(4) up by (simp add: Suc)
    then have cs: "c = mnode ?h f l (2 * j + of_bool b)" "s = mnode ?h f l (sib (2 * j + of_bool b))"
      by (auto simp: nl_def nr_def sib_def split: if_splits)
    have d: "(2::nat) ^ (d - l) = 2 * 2 ^ (d - Suc l)"
      using snoc.prems(2) by (simp add: Suc flip: power_Suc Suc_diff_Suc)
    have "2 * j + of_bool b < 2 ^ (d - l)"
      unfolding d using snoc.prems(3) by (cases b) (simp_all add: Suc)
    then have len: "length ss = l" and ih: "let k = (2 * j + of_bool b) * 2 ^ l + i mod 2 ^ l
        in cur = f k \<and> ss = siblings ?h f l k"
      using snoc.IH [OF q(2) _ _ cs(1) [unfolded c_def]] snoc.prems(2) by (simp_all add: Suc)
    have "i mod 2 ^ L = of_bool b * 2 ^ l + i mod 2 ^ l"
      unfolding Suc b_def len power_Suc2 mod_mult2_eq by (simp add: mod2_eq_if)
    then have k: "(2 * j + of_bool b) * 2 ^ l + i mod 2 ^ l = j * 2 ^ L + i mod 2 ^ L"
      by (simp add: Suc algebra_simps)
    have "(j * 2 ^ L + i mod 2 ^ L) div 2 ^ l = 2 * j + of_bool b"
      unfolding k [symmetric] by simp
    with ih len cs(2) show ?thesis
      unfolding k by (simp add: Let_def siblings_Suc Suc)
  qed
qed

text \<open>An accepted proof is the proof the tree gives, and recovers from any other leaf the root of the
  tree with that leaf replaced.\<close>

lemma RecoverRoot_binding:
  assumes "\<not> breaks kb Q" "tree_queries kb f d \<subseteq> Q" "leaf = 0 \<or> long_digest kb Q leaf"
    "\<And>k. f k = 0 \<or> long_digest kb Q (f k)"
    "climb_queries kb (nat (Path p)) leaf (Siblings p) \<subseteq> Q"
    "RecoverRoot kb p leaf = Inr (mnode (hash2 kb) f d 0)"
  obtains i where "Path p = int i" "i < 2 ^ d" "leaf = f i"
    "\<And>v. RecoverRoot kb p v = Inr (mnode (hash2 kb) (f(i := v)) d 0)"
proof -
  obtain i where i: "Path p = int i" "i < 2 ^ length (Siblings p)"
    "mnode (hash2 kb) f d 0 = climb (hash2 kb) i leaf (Siblings p)"
    by (rule RecoverRoot_Inr [OF assms(6)])
  have "length (Siblings p) = d \<and>
    (let k = 0 * 2 ^ d + i mod 2 ^ d in leaf = f k \<and> Siblings p = siblings (hash2 kb) f d k)"
    using assms(5) i(1,3) by (intro path_binding [OF assms(1-4)]) simp_all
  then have b: "length (Siblings p) = d" "leaf = f i" "Siblings p = siblings (hash2 kb) f d i"
    using i(2) by (auto simp: Let_def)
  have "RecoverRoot kb p v = Inr (mnode (hash2 kb) (f(i := v)) d 0)" for v
    using i(2) b(1) by (simp add: RecoverRoot_climb [OF i(1,2)] b(3) climb_siblings_upd)
  then show thesis using that i(1,2) b by simp
qed

end
