(* ===== verification/AccumulatorSound.thy ===== *)
theory AccumulatorSound
  imports AccumulatorCorrect Binding
begin

text \<open>
  Soundness of the verifier: a trace it accepts against the snapshot of a prover state, whoever made
  it, says something true of that state. A read of an absent key shows the key to be absent, a read
  of a present key shows its value, and an accepted insertion, deletion or update moves the verifier to
  the snapshot of the state that the honest operation produces. Each statement has one exception: two
  of the compression inputs evaluated for the trace and for the tree collide or one compresses to zero (\<open>breaks\<close>).
\<close>

subsection \<open>Inputs evaluated\<close>

definition root_of :: "('f::zero) koalabear \<Rightarrow> (int \<rightharpoonup> ('f, 'k, 'v) KVOpeningTuple) \<Rightarrow> 'f octuplet" where
  "root_of kb D = mnode (hash2 kb) (leaves kb D) 40 0"

definition opening_queries ::
  "('f::zero) koalabear \<Rightarrow> 'f proof_rec \<Rightarrow> 'f LeafOpening \<Rightarrow> ('f octuplet \<times> 'f octuplet) set" where
  "opening_queries kb p lo =
     leaf_queries kb lo \<union> climb_queries kb (nat (Path p)) (leaf_hash kb lo) (Siblings p)"

text \<open>\<open>Prev\<close> and \<open>Next\<close> are 64-bit integers in the code.\<close>

definition leaf_int64 :: "'f LeafOpening \<Rightarrow> bool" where
  "leaf_int64 lo \<longleftrightarrow> is_int64 (Prev lo) \<and> is_int64 (Next lo)"

definition data_int64 :: "(int \<rightharpoonup> ('f, 'k, 'v) KVOpeningTuple) \<Rightarrow> bool" where
  "data_int64 D \<longleftrightarrow> (\<forall>i t. D i = Some t \<longrightarrow> leaf_int64 (tup_LeafOpening t))"

subsection \<open>Leaf openings are bound\<close>

lemma leaf_hash_binding:
  assumes "koala_ok kb" "leaf_int64 a" "leaf_int64 b" "leaf_hash kb a = leaf_hash kb b"
    "\<not> collides kb Q" "leaf_queries kb a \<subseteq> Q" "leaf_queries kb b \<subseteq> Q"
  shows "a = b"
proof -
  have "\<not> collides kb (leaf_queries kb a \<union> leaf_queries kb b)"
    using assms(5-7) collides_mono [of kb _ Q] by blast
  then have "leaf_elems kb a = leaf_elems kb b"
    using HashVec_binding [of "leaf_elems kb a" "leaf_elems kb b" kb] assms(1,4)
    by (simp add: length_leaf_elems leaf_hash_def leaf_queries_def)
  then show ?thesis
    using int64_elems_inject [OF assms(1)] assms(2,3)
    by (auto simp: leaf_elems_def length_int64_elems [OF assms(1)] leaf_int64_def intro!: LeafOpening.equality)
qed

lemma leaf_long_digest:
  assumes "koala_ok kb" "leaf_queries kb lo \<subseteq> Q"
  shows "long_digest kb Q (leaf_hash kb lo)"
proof -
  have "8 dvd length (leaf_elems kb lo)" by (simp add: length_leaf_elems [OF assms(1)])
  note b = blocks8_HashVec [OF this]
  show ?thesis
    unfolding long_digest_def
    using b(1,3) assms(2) length_leaf_elems [OF assms(1), of lo]
    by (intro exI [of _ "blocks8 (leaf_elems kb lo)"]) (simp add: leaf_hash_def leaf_queries_def)
qed

lemma leaves_digest:
  assumes "koala_ok kb" "state_queries kb D \<subseteq> Q"
  shows "leaves kb D k = 0 \<or> long_digest kb Q (leaves kb D k)"
proof (cases "k < 2 ^ 40 \<and> D (int k) \<noteq> None")
  case True
  then obtain t where t: "D (int k) = Some t" by blast
  then have "leaf_queries kb (tup_LeafOpening t) \<subseteq> Q"
    using assms(2) by (auto simp: state_queries_def ran_def)
  from leaf_long_digest [OF assms(1) this] t True show ?thesis
    by (simp add: leaves_def leaf_of_def)
next
  case False
  then show ?thesis by (auto simp: leaves_def leaf_of_def)
qed

text \<open>An opening that recovers the root is the one stored at that position, and the proof replays any
  change of it.\<close>

lemma opening_bound:
  assumes "env_ok E" "data_int64 D" "leaf_int64 lo" "\<not> breaks (koala E) Q"
    "state_queries (koala E) D \<subseteq> Q" "opening_queries (koala E) p lo \<subseteq> Q"
    "RecoverRoot (koala E) p (leaf_hash (koala E) lo) = Inr (root_of (koala E) D)"
  obtains t where "D (Path p) = Some t" "tup_LeafOpening t = lo"
    "\<And>x r. RecoverRoot (koala E) p (leaf_of (koala E) (D(Path p := x)) (Path p)) = Inr r \<Longrightarrow>
       r = root_of (koala E) (D(Path p := x))"
proof -
  let ?kb = "koala E" and ?f = "leaves (koala E) D"
  note kb = env_okD(1) [OF assms(1)]
  have q: "tree_queries ?kb ?f 40 \<subseteq> Q" "leaf_queries ?kb lo \<subseteq> Q"
    "climb_queries ?kb (nat (Path p)) (leaf_hash ?kb lo) (Siblings p) \<subseteq> Q"
    using assms(5,6) by (auto simp: state_queries_def opening_queries_def)
  obtain i where i: "Path p = int i" "i < 2 ^ 40" "leaf_hash ?kb lo = ?f i"
    "\<And>v. RecoverRoot ?kb p v = Inr (mnode (hash2 ?kb) (?f(i := v)) 40 0)"
    using assms(7) leaf_long_digest [OF kb q(2)] unfolding root_of_def
    by (auto intro: RecoverRoot_binding [OF assms(4) q(1) _ leaves_digest [OF kb assms(5)] q(3)])
  have "?f i \<noteq> 0"
    using long_digest_nonzero [OF not_breaksD(2) [OF assms(4)] leaf_long_digest [OF kb q(2)]] i(3) by simp
  then obtain t where t: "D (int i) = Some t" "leaf_hash ?kb (tup_LeafOpening t) = leaf_hash ?kb lo"
    using i(2,3) by (auto simp: leaves_def leaf_of_def split: if_splits option.splits)
  have "leaf_queries ?kb (tup_LeafOpening t) \<subseteq> Q"
    using assms(5) t(1) by (auto simp: state_queries_def ran_def)
  with t assms(2,3) q(2) have "tup_LeafOpening t = lo"
    by (intro leaf_hash_binding [OF kb _ assms(3) t(2) not_breaksD(1) [OF assms(4)]]) (auto simp: data_int64_def)
  moreover have "r = root_of ?kb (D(Path p := x))"
    if "RecoverRoot ?kb p (leaf_of ?kb (D(Path p := x)) (Path p)) = Inr r" for x r
    using that i(4) by (simp add: root_of_def i(1) leaves_upd [OF i(2)])
  ultimately show thesis using that t(1) i(1) by simp
qed

lemma empty_bound:
  assumes "env_ok E" "\<not> breaks (koala E) Q" "state_queries (koala E) D \<subseteq> Q"
    "climb_queries (koala E) (nat (Path p)) 0 (Siblings p) \<subseteq> Q"
    "RecoverRoot (koala E) p 0 = Inr (root_of (koala E) D)"
  shows "D (Path p) = None" and "Path p < 2 ^ 40"
    and "RecoverRoot (koala E) p (leaf_of (koala E) (D(Path p := x)) (Path p)) = Inr r \<Longrightarrow>
       r = root_of (koala E) (D(Path p := x))"
proof -
  let ?kb = "koala E" and ?f = "leaves (koala E) D"
  note kb = env_okD(1) [OF assms(1)]
  have q: "tree_queries ?kb ?f 40 \<subseteq> Q" using assms(3) by (auto simp: state_queries_def)
  obtain i where i: "Path p = int i" "i < 2 ^ 40" "0 = ?f i"
    "\<And>v. RecoverRoot ?kb p v = Inr (mnode (hash2 ?kb) (?f(i := v)) 40 0)"
    using assms(5) unfolding root_of_def
    by (auto intro: RecoverRoot_binding [OF assms(2) q _ leaves_digest [OF kb assms(3)] assms(4)])
  show "D (Path p) = None"
  proof (cases "D (Path p)")
    case (Some t)
    then have "leaf_queries ?kb (tup_LeafOpening t) \<subseteq> Q" using assms(3) by (auto simp: state_queries_def ran_def)
    from long_digest_nonzero [OF not_breaksD(2) [OF assms(2)] leaf_long_digest [OF kb this]] Some i(1-3)
    show ?thesis by (simp add: leaves_def leaf_of_def)
  qed
  show "Path p < 2 ^ 40" using i(1,2) by simp
  show "RecoverRoot ?kb p (leaf_of ?kb (D(Path p := x)) (Path p)) = Inr r \<Longrightarrow>
      r = root_of ?kb (D(Path p := x))"
    using i(4) by (simp add: root_of_def i(1) leaves_upd [OF i(2)])
qed

lemma synced_root:
  assumes "synced E s"
  shows "SubTreeRoot s = root_of (koala E) (data s)"
proof -
  have "tree_ok (koala E) (ps_Tree s)" "Depth (ps_Tree s) = 40" using assms by (simp_all add: synced_def)
  then show ?thesis by (simp add: SubTreeRoot_def root_of_def tree_ok_def synced_leaves [OF assms])
qed

lemma chain_int64:
  assumes "env_ok E" "chain_ok E D n"
  shows "data_int64 D"
proof -
  have pos: "is_int64 i" if "i \<in> dom D" for i
    using chain_position [OF assms(2), of i] that by (auto simp: is_int64_def)
  have max: "(0 :: 'a octuplet) < MaxKoalaOctuplet"
    using koala_ok_bounds [OF env_okD(1) [OF assms(1)], of 0] chain_okD(2,4-7) [OF assms(2)]
      linkedD(2) [OF chain_okD(9) [OF assms(2)]]
    by (auto simp: order.strict_iff_order MaxKoalaOctuplet_def zero_octuplet_def negativeOne_def)
  have "is_int64 (prev_at D i) \<and> is_int64 (next_at D i)" if i: "i \<in> dom D" for i
  proof -
    obtain t where t: "D i = Some t" using i by blast
    consider "i = 0" | "i = 1" | "entry_ok E t" using chain_okD(8) [OF assms(2) t] by blast
    then show ?thesis
    proof cases
      case 1
      have "adjacent (dom D) (key_at D) 0 (next_at D 0)"
        using linked_next [OF chain_okD(9,4,5) [OF assms(2)]] chain_okD(6,7) [OF assms(2)] max by simp
      from adjacentD(2) [OF this] chain_ends(1) [OF assms(2)] 1 pos show ?thesis by (simp add: is_int64_def)
    next
      case 2
      have "adjacent (dom D) (key_at D) (prev_at D 1) 1"
        using linked_prev [OF chain_okD(9,5,4) [OF assms(2)]] chain_okD(6,7) [OF assms(2)] max by simp
      from adjacentD(1) [OF this] chain_ends(2) [OF assms(2)] 2 pos show ?thesis by (simp add: is_int64_def)
    next
      case 3
      note nb = entry_neighbours [OF assms t 3]
      from adjacentD(1) [OF nb(1)] adjacentD(2) [OF nb(2)] pos t show ?thesis by simp
    qed
  qed
  then show ?thesis by (force simp: data_int64_def leaf_int64_def)
qed

subsection \<open>Reads\<close>

lemma neighbours_linked:
  assumes "chain_ok E D n" "D a = Some ta" "D b = Some tb" "Next (tup_LeafOpening ta) = b"
    "HKey (tup_LeafOpening ta) < HKey (tup_LeafOpening tb)"
  shows "adjacent (dom D) (key_at D) a b"
  using linked_next [OF chain_okD(9) [OF assms(1)], of a b] assms(2-5) by (auto simp: domI)

definition read_zero_queries ::
  "(('f::zero), 'k, 'v) env \<Rightarrow> ('f, 'k, 'v) ProverState \<Rightarrow> ('f, 'k) ReadZeroTrace \<Rightarrow>
   ('f octuplet \<times> 'f octuplet) set" where
  "read_zero_queries E s tr =
     state_queries (koala E) (data s) \<union>
     opening_queries (koala E) (rz_ProofMinus tr) (rz_OpeningMinus tr) \<union>
     opening_queries (koala E) (rz_ProofPlus tr) (rz_OpeningPlus tr)"

lemma ReadZeroVerify_sound:
  assumes "env_ok E" "prover_ok E s" "hashableK E (rz_Key tr)"
    "leaf_int64 (rz_OpeningMinus tr)" "leaf_int64 (rz_OpeningPlus tr)"
    "ReadZeroVerify E (VerifierState_of s) tr = Inr (v', None)"
  shows "contents s (hk E (rz_Key tr)) = None \<or> breaks (koala E) (read_zero_queries E s tr)"
proof (rule disjCI)
  let ?Q = "read_zero_queries E s tr" and ?D = "data s"
  assume nc: "\<not> breaks (koala E) ?Q"
  note c = prover_okD(2) [OF assms(2)] and i64 = chain_int64 [OF assms(1) prover_okD(2) [OF assms(2)]]
  have q: "state_queries (koala E) ?D \<subseteq> ?Q"
    "opening_queries (koala E) (rz_ProofMinus tr) (rz_OpeningMinus tr) \<subseteq> ?Q"
    "opening_queries (koala E) (rz_ProofPlus tr) (rz_OpeningPlus tr) \<subseteq> ?Q"
    by (auto simp: read_zero_queries_def)
  have root: "rz_SubRoot tr = root_of (koala E) ?D" and
    links: "Next (rz_OpeningMinus tr) = Path (rz_ProofPlus tr)" and
    key: "HKey (rz_OpeningMinus tr) < hk E (rz_Key tr)" "hk E (rz_Key tr) < HKey (rz_OpeningPlus tr)" and
    rec: "RecoverRoot (koala E) (rz_ProofMinus tr) (leaf_hash (koala E) (rz_OpeningMinus tr)) = Inr (rz_SubRoot tr)"
      "RecoverRoot (koala E) (rz_ProofPlus tr) (leaf_hash (koala E) (rz_OpeningPlus tr)) = Inr (rz_SubRoot tr)"
    using assms(6) hashK_total [OF assms(1,3)] synced_root [OF prover_okD(1) [OF assms(2)]]
    unfolding ReadZeroVerify_accepts [OF env_okD(1) [OF assms(1)]]
    by (auto simp: VerifierState_of_def SubTreeRoot_def)
  obtain ta where ta: "?D (Path (rz_ProofMinus tr)) = Some ta" "tup_LeafOpening ta = rz_OpeningMinus tr"
    using rec(1) unfolding root
    by (rule opening_bound [OF assms(1) i64 assms(4) nc q(1,2)])
  obtain tb where tb: "?D (Path (rz_ProofPlus tr)) = Some tb" "tup_LeafOpening tb = rz_OpeningPlus tr"
    using rec(2) unfolding root
    by (rule opening_bound [OF assms(1) i64 assms(5) nc q(1,3)])
  have adj: "adjacent (dom ?D) (key_at ?D) (Path (rz_ProofMinus tr)) (Path (rz_ProofPlus tr))"
    using links key ta(2) tb(2) by (intro neighbours_linked [OF c ta(1) tb(1)]) auto
  have "key_at ?D i \<noteq> hk E (rz_Key tr)" if "i \<in> dom ?D" for i
    using that key ta tb by (intro adjacent_gap [OF adj]) auto
  then show "contents s (hk E (rz_Key tr)) = None"
    unfolding contents_None [OF assms(2)] by force
qed

definition read_queries ::
  "(('f::zero), 'k, 'v) env \<Rightarrow> ('f, 'k, 'v) ProverState \<Rightarrow> 'f proof_rec \<Rightarrow> 'f LeafOpening \<Rightarrow>
   ('f octuplet \<times> 'f octuplet) set" where
  "read_queries E s p lo = state_queries (koala E) (data s) \<union> opening_queries (koala E) p lo"

text \<open>An accepted opening of an entry that is not a sentinel.\<close>

lemma accepted_entry:
  assumes "env_ok E" "prover_ok E s" "leaf_int64 lo" "\<not> HeadOrTail lo" "hashableK E k" "hashableV E v"
    "opens E lo k v" "RecoverRoot (koala E) p (leaf_hash (koala E) lo) = Inr (SubTreeRoot s)"
    "\<not> breaks (koala E) (read_queries E s p lo)"
  obtains t where "data s (Path p) = Some t" "tup_LeafOpening t = lo" "Path p \<noteq> 0" "Path p \<noteq> 1"
    "HKey lo = hk E k" "HVal lo = hv E v" "entry_ok E t"
    "\<And>x r. RecoverRoot (koala E) p (leaf_of (koala E) ((data s)(Path p := x)) (Path p)) = Inr r \<Longrightarrow>
       r = root_of (koala E) ((data s)(Path p := x))"
proof -
  note c = prover_okD(2) [OF assms(2)] and i64 = chain_int64 [OF assms(1) prover_okD(2) [OF assms(2)]]
  have q: "state_queries (koala E) (data s) \<subseteq> read_queries E s p lo"
    "opening_queries (koala E) p lo \<subseteq> read_queries E s p lo"
    by (auto simp: read_queries_def)
  have rec: "RecoverRoot (koala E) p (leaf_hash (koala E) lo) = Inr (root_of (koala E) (data s))"
    using assms(8) synced_root [OF prover_okD(1) [OF assms(2)]] by simp
  obtain t where t: "data s (Path p) = Some t" "tup_LeafOpening t = lo"
    "\<And>x r. RecoverRoot (koala E) p (leaf_of (koala E) ((data s)(Path p := x)) (Path p)) = Inr r \<Longrightarrow>
       r = root_of (koala E) ((data s)(Path p := x))"
    using opening_bound [OF assms(1) i64 assms(3,9) q rec] by blast
  have "Path p \<noteq> 0" "Path p \<noteq> 1" using chain_sentinels [OF c t(1)] t(2) assms(4) by auto
  moreover from chain_okD(8) [OF c t(1) this] have "entry_ok E t" .
  moreover have "HKey lo = hk E k" "HVal lo = hv E v"
    using assms(4,7) hashK_total [OF assms(1,5)] hashV_total [OF assms(1,6)] by (auto simp: opens_def)
  ultimately show thesis using that t by blast
qed

lemma ReadNonZeroVerify_sound:
  assumes "env_ok E" "prover_ok E s" "hashableK E (rnz_Key tr)" "hashableV E (rnz_Value tr)"
    "leaf_int64 (rnz_LeafOpening tr)" "\<not> HeadOrTail (rnz_LeafOpening tr)"
    "ReadNonZeroVerify E (VerifierState_of s) tr = Inr (v', None)"
  shows "(\<exists>k v. contents s (hk E (rnz_Key tr)) = Some (k, v) \<and>
             hk E k = hk E (rnz_Key tr) \<and> hv E v = hv E (rnz_Value tr)) \<or>
    breaks (koala E) (read_queries E s (rnz_Proof tr) (rnz_LeafOpening tr))"
proof (rule disjCI)
  assume nc: "\<not> breaks (koala E) (read_queries E s (rnz_Proof tr) (rnz_LeafOpening tr))"
  have acc: "opens E (rnz_LeafOpening tr) (rnz_Key tr) (rnz_Value tr)"
    "RecoverRoot (koala E) (rnz_Proof tr) (leaf_hash (koala E) (rnz_LeafOpening tr)) = Inr (SubTreeRoot s)"
    using assms(7) unfolding ReadNonZeroVerify_accepts [OF env_okD(1) [OF assms(1)]]
    by (auto simp: VerifierState_of_def SubTreeRoot_def)
  obtain t where t: "data s (Path (rnz_Proof tr)) = Some t" "tup_LeafOpening t = rnz_LeafOpening tr"
    "Path (rnz_Proof tr) \<noteq> 0" "Path (rnz_Proof tr) \<noteq> 1"
    "HKey (rnz_LeafOpening tr) = hk E (rnz_Key tr)" "HVal (rnz_LeafOpening tr) = hv E (rnz_Value tr)"
    "entry_ok E t"
    using accepted_entry [OF assms(1,2,5,6,3,4) acc nc] by blast
  have "contents s (hk E (rnz_Key tr)) = Some (tup_Key t, tup_Value t)"
    unfolding contents_iff [OF assms(2)] using t by (intro exI [of _ t] exI) auto
  moreover have "hk E (tup_Key t) = hk E (rnz_Key tr)" "hv E (tup_Value t) = hv E (rnz_Value tr)"
    using t by (auto simp: entry_ok_def)
  ultimately show "\<exists>k v. contents s (hk E (rnz_Key tr)) = Some (k, v) \<and>
      hk E k = hk E (rnz_Key tr) \<and> hv E v = hv E (rnz_Value tr)" by blast
qed

subsection \<open>Updates\<close>

lemma UpdateVerify_sound:
  assumes "env_ok E" "prover_ok E s" "hashableK E (ut_Key tr)" "hashableV E (ut_OldValue tr)"
    "hashableV E (ut_NewValue tr)" "leaf_int64 (ut_OldOpening tr)" "\<not> HeadOrTail (ut_OldOpening tr)"
    "UpdateVerify E (VerifierState_of s) tr = Inr (v', None)"
  shows "(\<exists>tr' s'. UpdateAndProve E s (ut_Key tr) (ut_NewValue tr) = Inr (tr', s') \<and>
             prover_ok E s' \<and> v' = VerifierState_of s') \<or>
    breaks (koala E) (read_queries E s (ut_Proof tr) (ut_OldOpening tr))"
proof (rule disjCI)
  let ?p = "ut_Proof tr" and ?lo = "ut_OldOpening tr" and ?D = "data s"
  assume nc: "\<not> breaks (koala E) (read_queries E s ?p ?lo)"
  have acc: "opens E ?lo (ut_Key tr) (ut_OldValue tr)"
    "RecoverRoot (koala E) ?p (leaf_hash (koala E) ?lo) = Inr (SubTreeRoot s)"
    "RecoverRoot (koala E) ?p (leaf_hash (koala E) (?lo\<lparr>HVal := hv E (ut_NewValue tr)\<rparr>)) =
       Inr (ut_NewSubRoot tr)"
    "v' = (VerifierState_of s)\<lparr>vs_SubTreeRoot := ut_NewSubRoot tr\<rparr>"
    using assms(8) hashV_total [OF assms(1,5)]
    unfolding UpdateVerify_accepts [OF env_okD(1) [OF assms(1)]]
    by (auto simp: VerifierState_of_def SubTreeRoot_def replays_def)
  obtain t where t: "?D (Path ?p) = Some t" "tup_LeafOpening t = ?lo" "Path ?p \<noteq> 0" "Path ?p \<noteq> 1"
    "HKey ?lo = hk E (ut_Key tr)" "entry_ok E t"
    "\<And>x r. RecoverRoot (koala E) ?p (leaf_of (koala E) (?D(Path ?p := x)) (Path ?p)) = Inr r \<Longrightarrow>
       r = root_of (koala E) (?D(Path ?p := x))"
    using accepted_entry [OF assms(1,2,6,7,3,4) acc(1,2) nc] by blast
  have ko: "key_ok E (ut_Key tr)" using t(2,5,6) assms(3) by (auto simp: key_ok_def entry_ok_def)
  have np: "\<not> zero_panic (koala E) (state_queries (koala E) ?D) (UpdateAndProve E s (ut_Key tr) (ut_NewValue tr))"
    by (rule no_zero_panic [OF not_breaksD(2) [OF nc]]) (auto simp: read_queries_def)
  have cont: "contents s (hk E (ut_Key tr)) = Some (tup_Key t, tup_Value t)"
    unfolding contents_iff [OF assms(2)] using t by (intro exI [of _ t] exI) auto
  obtain tr' s' i t' where h: "UpdateAndProve E s (ut_Key tr) (ut_NewValue tr) = Inr (tr', s')"
    "prover_ok E s'" "ps_NextFreeNode s' = ps_NextFreeNode s"
    "UpdateVerify E (VerifierState_of s) tr' = Inr (VerifierState_of s', None)"
    "?D i = Some t'" "HKey (tup_LeafOpening t') = hk E (ut_Key tr)"
    "data s' = ?D(i \<mapsto> t'\<lparr>tup_Value := ut_NewValue tr,
       tup_LeafOpening := (tup_LeafOpening t')\<lparr>HVal := hv E (ut_NewValue tr)\<rparr>\<rparr>)"
    using UpdateAndProve_correct [OF assms(1,2) ko cont assms(5)] np by blast
  have "i = Path ?p"
    using linkedD(2) [OF chain_okD(9) [OF prover_okD(2) [OF assms(2)]]] h(5,6) t(1,2,5)
    by (intro inj_onD [of "key_at ?D" "dom ?D"]) auto
  then have d: "data s' = ?D(Path ?p \<mapsto> t\<lparr>tup_Value := ut_NewValue tr,
       tup_LeafOpening := ?lo\<lparr>HVal := hv E (ut_NewValue tr)\<rparr>\<rparr>)"
    using h(5,7) t(1,2) by simp
  have "ut_NewSubRoot tr = root_of (koala E) (data s')"
    unfolding d by (rule t(7)) (use acc(3) in \<open>simp add: leaf_of_def\<close>)
  then have "ut_NewSubRoot tr = SubTreeRoot s'" using synced_root [OF prover_okD(1) [OF h(2)]] by simp
  moreover have "ps_Location s' = ps_Location s"
    using h(4) unfolding UpdateVerify_accepts [OF env_okD(1) [OF assms(1)]]
    by (auto simp: VerifierState_of_def)
  ultimately have "v' = VerifierState_of s'"
    using acc(4) h(3) by (simp add: VerifierState_of_def SubTreeRoot_def)
  with h(1,2) show "\<exists>tr' s'. UpdateAndProve E s (ut_Key tr) (ut_NewValue tr) = Inr (tr', s') \<and>
      prover_ok E s' \<and> v' = VerifierState_of s'" by blast
qed

subsection \<open>Insertions\<close>

lemma data_int64_upd: "data_int64 D \<Longrightarrow> (\<And>t. x = Some t \<Longrightarrow> leaf_int64 (tup_LeafOpening t)) \<Longrightarrow> data_int64 (D(i := x))"
  by (auto simp: data_int64_def)

lemma sandwich_unique:
  assumes "inj_on key S" "adjacent S key a b" "adjacent S key a' b'"
    "key a < k" "k < key b" "key a' < k" "k < key b'"
  shows "a' = a" "b' = b"
proof -
  note x = adjacentD [OF assms(2)] and y = adjacentD [OF assms(3)]
  have "key a' = key a" using x(5) [OF y(1)] y(5) [OF x(1)] assms(4-7) by (meson antisym order.strict_trans)
  then show "a' = a" using x(1) y(1) by (intro inj_onD [OF assms(1)])
  have "key b' = key b" using x(4) [OF y(2)] y(4) [OF x(2)] assms(4-7) by (meson antisym order.strict_trans)
  then show "b' = b" using x(2) y(2) by (intro inj_onD [OF assms(1)])
qed

text \<open>The tuples after each of the first two steps of an insertion, and the inputs evaluated.\<close>

definition inserted_tuple ::
  "(('f::zero), 'k, 'v) env \<Rightarrow> ('f, 'k, 'v) InsertionTrace \<Rightarrow> ('f, 'k, 'v) KVOpeningTuple" where
  "inserted_tuple E tr =
     insert_tuple E (Path (it_ProofMinus tr)) (Path (it_ProofPlus tr)) (it_Key tr) (it_Val tr)"

definition insertion_step1 ::
  "('f, 'k, 'v) ProverState \<Rightarrow> ('f, 'k, 'v) InsertionTrace \<Rightarrow> int \<rightharpoonup> ('f, 'k, 'v) KVOpeningTuple" where
  "insertion_step1 s tr = relink_next (data s) (Path (it_ProofMinus tr)) (ps_NextFreeNode s)"

definition insertion_step2 ::
  "(('f::zero), 'k, 'v) env \<Rightarrow> ('f, 'k, 'v) ProverState \<Rightarrow> ('f, 'k, 'v) InsertionTrace \<Rightarrow>
   int \<rightharpoonup> ('f, 'k, 'v) KVOpeningTuple" where
  "insertion_step2 E s tr = (insertion_step1 s tr)(ps_NextFreeNode s \<mapsto> inserted_tuple E tr)"

definition insertion_queries ::
  "(('f::zero), 'k, 'v) env \<Rightarrow> ('f, 'k, 'v) ProverState \<Rightarrow> ('f, 'k, 'v) InsertionTrace \<Rightarrow>
   ('f octuplet \<times> 'f octuplet) set" where
  "insertion_queries E s tr =
     state_queries (koala E) (data s) \<union> state_queries (koala E) (insertion_step1 s tr) \<union>
     state_queries (koala E) (insertion_step2 E s tr) \<union>
     opening_queries (koala E) (it_ProofMinus tr) (it_OldOpenMinus tr) \<union>
     climb_queries (koala E) (nat (Path (it_ProofNew tr))) 0 (Siblings (it_ProofNew tr)) \<union>
     opening_queries (koala E) (it_ProofPlus tr) (it_OldOpenPlus tr)"

text \<open>An accepted insertion opens two neighbours around an absent key, and the recovered root is that of
  the honest insertion.\<close>

lemma accepted_insertion:
  assumes "env_ok E" "prover_ok E s" "hashableK E (it_Key tr)" "hashableV E (it_Val tr)"
    "leaf_int64 (it_OldOpenMinus tr)" "leaf_int64 (it_OldOpenPlus tr)"
    "insertion_valid E (VerifierState_of s) tr (hk E (it_Key tr)) (hv E (it_Val tr))"
    "\<not> breaks (koala E) (insertion_queries E s tr)"
  obtains a b ta tb where "data s a = Some ta" "data s b = Some tb" "adjacent (dom (data s)) (key_at (data s)) a b"
    "key_at (data s) a < hk E (it_Key tr)" "hk E (it_Key tr) < key_at (data s) b"
    "a = Path (it_ProofMinus tr)" "b = Path (it_ProofPlus tr)" "ps_NextFreeNode s < 2 ^ 40"
    "it_NewSubRoot tr = root_of (koala E) ((data s)(a \<mapsto> CopyWithNext ta (ps_NextFreeNode s),
        ps_NextFreeNode s \<mapsto> inserted_tuple E tr, b \<mapsto> CopyWithPrev tb (ps_NextFreeNode s)))"
proof -
  let ?Q = "insertion_queries E s tr" and ?D0 = "data s" and ?D1 = "insertion_step1 s tr"
  let ?D2 = "insertion_step2 E s tr" and ?n = "ps_NextFreeNode s"
  let ?a = "Path (it_ProofMinus tr)" and ?b = "Path (it_ProofPlus tr)" and ?h = "hk E (it_Key tr)"
  note c = prover_okD(2) [OF assms(2)] and i64 = chain_int64 [OF assms(1) prover_okD(2) [OF assms(2)]]
  have q: "state_queries (koala E) ?D0 \<subseteq> ?Q" "state_queries (koala E) ?D1 \<subseteq> ?Q" "state_queries (koala E) ?D2 \<subseteq> ?Q"
    "opening_queries (koala E) (it_ProofMinus tr) (it_OldOpenMinus tr) \<subseteq> ?Q"
    "climb_queries (koala E) (nat (Path (it_ProofNew tr))) 0 (Siblings (it_ProofNew tr)) \<subseteq> ?Q"
    "opening_queries (koala E) (it_ProofPlus tr) (it_OldOpenPlus tr) \<subseteq> ?Q"
    by (auto simp: insertion_queries_def)
  have links: "Path (it_ProofNew tr) = ?n" "Next (it_OldOpenMinus tr) = ?b"
    and key: "HKey (it_OldOpenMinus tr) < ?h" "?h < HKey (it_OldOpenPlus tr)"
    using assms(7) by (auto simp: insertion_valid_def VerifierState_of_def)
  obtain r1 r2 where r: "replays (koala E) (it_ProofMinus tr) (root_of (koala E) ?D0)
        (leaf_hash (koala E) (it_OldOpenMinus tr)) r1 (leaf_hash (koala E) ((it_OldOpenMinus tr)\<lparr>Next := ?n\<rparr>))"
      "replays (koala E) (it_ProofNew tr) r1 0 r2 (leaf_hash (koala E) (tup_LeafOpening (inserted_tuple E tr)))"
      "replays (koala E) (it_ProofPlus tr) r2 (leaf_hash (koala E) (it_OldOpenPlus tr))
         (it_NewSubRoot tr) (leaf_hash (koala E) ((it_OldOpenPlus tr)\<lparr>Prev := ?n\<rparr>))"
    using assms(7) synced_root [OF prover_okD(1) [OF assms(2)]]
    by (auto simp: insertion_valid_def VerifierState_of_def SubTreeRoot_def inserted_tuple_def insert_tuple_def)
  obtain ta where ta: "?D0 ?a = Some ta" "tup_LeafOpening ta = it_OldOpenMinus tr"
    "\<And>x r. RecoverRoot (koala E) (it_ProofMinus tr) (leaf_of (koala E) (?D0(?a := x)) ?a) = Inr r \<Longrightarrow>
       r = root_of (koala E) (?D0(?a := x))"
    by (rule opening_bound [OF assms(1) i64 assms(5,8) q(1,4)]) (use r(1) in \<open>auto simp: replays_def\<close>)
  have D1: "?D1 = ?D0(?a \<mapsto> CopyWithNext ta ?n)" using ta(1) by (simp add: insertion_step1_def relink_next_def)
  have r1: "r1 = root_of (koala E) ?D1"
    unfolding D1 by (rule ta(3)) (use r(1) ta(2) in \<open>simp add: replays_def leaf_of_def CopyWithNext_def\<close>)
  have rec: "RecoverRoot (koala E) (it_ProofNew tr) 0 = Inr (root_of (koala E) ?D1)"
    using r(2) r1 by (simp add: replays_def)
  note nb = empty_bound [OF assms(1,8) q(2,5) rec, unfolded links(1)]
  have r2: "r2 = root_of (koala E) ?D2"
    unfolding insertion_step2_def
    by (rule nb(3)) (use r(2) in \<open>simp add: replays_def leaf_of_def\<close>)
  have na: "?n \<noteq> ?a" using nb(1) D1 by auto
  have "is_int64 ?a" "is_int64 ?n"
    using chain_position [OF c, of ?a] chain_okD(1,2) [OF c] ta(1) by (auto simp: is_int64_def)
  then have "data_int64 ?D2"
    unfolding insertion_step2_def D1 using i64 assms(5) links(2) ta(2)
    by (intro data_int64_upd) (auto simp: leaf_int64_def inserted_tuple_def insert_tuple_def CopyWithNext_def)
  then obtain tb where tb: "?D2 ?b = Some tb" "tup_LeafOpening tb = it_OldOpenPlus tr"
    "\<And>x r. RecoverRoot (koala E) (it_ProofPlus tr) (leaf_of (koala E) (?D2(?b := x)) ?b) = Inr r \<Longrightarrow>
       r = root_of (koala E) (?D2(?b := x))"
    by (rule opening_bound [OF assms(1) _ assms(6,8) q(3,6)]) (use r(3) r2 in \<open>auto simp: replays_def\<close>)
  have "?b \<noteq> ?n" "?b \<noteq> ?a"
    using tb(1) key na unfolding tb(2) [symmetric] ta(2) [symmetric]
    by (auto simp: insertion_step2_def D1 inserted_tuple_def insert_tuple_def CopyWithNext_def)
  then have b: "?D0 ?b = Some tb" using tb(1) by (simp add: insertion_step2_def D1)
  have "it_NewSubRoot tr = root_of (koala E) (?D2(?b \<mapsto> CopyWithPrev tb ?n))"
    by (rule tb(3)) (use r(3) tb(2) in \<open>simp add: replays_def leaf_of_def CopyWithPrev_def\<close>)
  then have root: "it_NewSubRoot tr = root_of (koala E) (?D0(?a \<mapsto> CopyWithNext ta ?n,
      ?n \<mapsto> inserted_tuple E tr, ?b \<mapsto> CopyWithPrev tb ?n))"
    by (simp add: insertion_step2_def D1)
  have "adjacent (dom ?D0) (key_at ?D0) ?a ?b"
    using links(2) key ta(2) tb(2) by (intro neighbours_linked [OF c ta(1) b]) auto
  then show thesis using that [OF ta(1) b] root nb(2) key ta tb(2) b by simp
qed

lemma VerifyInsertion_sound:
  assumes "env_ok E" "prover_ok E s" "hashableK E (it_Key tr)" "hashableV E (it_Val tr)"
    "leaf_int64 (it_OldOpenMinus tr)" "leaf_int64 (it_OldOpenPlus tr)"
    "VerifyInsertion E (VerifierState_of s) tr = Inr (v', None)"
  shows "(\<exists>tr' s'. InsertAndProve E s (it_Key tr) (it_Val tr) = Inr (tr', s') \<and> prover_ok E s' \<and> v' = VerifierState_of s') \<or>
    breaks (koala E) (insertion_queries E s tr)"
proof (rule disjCI)
  let ?D = "data s" and ?n = "ps_NextFreeNode s" and ?h = "hk E (it_Key tr)"
  assume nc: "\<not> breaks (koala E) (insertion_queries E s tr)"
  note c = prover_okD(2) [OF assms(2)] and kb = env_okD(1) [OF assms(1)]
  have valid: "insertion_valid E (VerifierState_of s) tr ?h (hv E (it_Val tr))"
    and v': "v' = (VerifierState_of s)\<lparr>vs_SubTreeRoot := it_NewSubRoot tr, vs_NextFreeNode := wrap64 (?n + 1)\<rparr>"
    using assms(7) hashK_total [OF assms(1,3)] hashV_total [OF assms(1,4)]
    unfolding VerifyInsertion_accepts [OF kb] by (auto simp: VerifierState_of_def)
  obtain a b ta tb where ab: "?D a = Some ta" "?D b = Some tb" "adjacent (dom ?D) (key_at ?D) a b"
    "key_at ?D a < ?h" "?h < key_at ?D b" "a = Path (it_ProofMinus tr)" "b = Path (it_ProofPlus tr)" "?n < 2 ^ 40"
    "it_NewSubRoot tr = root_of (koala E) (?D(a \<mapsto> CopyWithNext ta ?n,
        ?n \<mapsto> inserted_tuple E tr, b \<mapsto> CopyWithPrev tb ?n))"
    by (rule accepted_insertion [OF assms(1-6) valid nc])
  have ko: "key_ok E (it_Key tr)"
    using koala_ok_bounds [OF kb, of "key_at ?D a"] koala_ok_bounds [OF kb, of "key_at ?D b"] ab(4,5) assms(3)
    by (auto simp: key_ok_def)
  have "key_at ?D i \<noteq> ?h" if "i \<in> dom ?D" for i using that by (rule adjacent_gap [OF ab(3-5)])
  then have absent: "contents s ?h = None" unfolding contents_None [OF assms(2)] by force
  obtain a1 b1 where f: "findSandwich E s (it_Key tr) = Inr (a1, b1)" "adjacent (dom ?D) (key_at ?D) a1 b1"
    "key_at ?D a1 < ?h" "?h < key_at ?D b1"
    by (rule findSandwich_adjacent [OF assms(1) ko assms(2)]) (use absent_everywhere [OF assms(2) ko absent] in blast)+
  have "a1 = a" "b1 = b"
    using sandwich_unique [OF linkedD(2) [OF chain_okD(9) [OF c]] ab(3) f(2) ab(4,5) f(3,4)] by simp_all
  then have "insert_queries E s (it_Key tr) (it_Val tr) \<subseteq> insertion_queries E s tr"
    using f(1) ab(6,7) by (auto simp: insert_queries_def insertion_queries_def insertion_step1_def insertion_step2_def
        inserted_tuple_def Let_def)
  note np = no_zero_panic [OF not_breaksD(2) [OF nc] this]
  obtain tr' s' a' b' where h: "InsertAndProve E s (it_Key tr) (it_Val tr) = Inr (tr', s')"
    "prover_ok E s'" "ps_NextFreeNode s' = ?n + 1"
    "VerifyInsertion E (VerifierState_of s) tr' = Inr (VerifierState_of s', None)"
    "adjacent (dom ?D) (key_at ?D) a' b'" "key_at ?D a' < ?h" "?h < key_at ?D b'"
    "data s' = ?D(a' \<mapsto> CopyWithNext (the (?D a')) ?n,
        ?n \<mapsto> insert_tuple E a' b' (it_Key tr) (it_Val tr),
        b' \<mapsto> CopyWithPrev (the (?D b')) ?n)"
    using InsertAndProve_correct [OF assms(1,2) ko assms(4) ab(8) absent] np by blast
  have "a' = a" "b' = b"
    using sandwich_unique [OF linkedD(2) [OF chain_okD(9) [OF c]] ab(3) h(5) ab(4,5) h(6,7)] by simp_all
  then have "it_NewSubRoot tr = root_of (koala E) (data s')"
    using ab(1,2,6,7,9) h(8) by (simp add: inserted_tuple_def)
  then have "it_NewSubRoot tr = SubTreeRoot s'" using synced_root [OF prover_okD(1) [OF h(2)]] by simp
  moreover have "ps_Location s' = ps_Location s"
    using h(4) unfolding VerifyInsertion_accepts [OF kb] by (auto simp: VerifierState_of_def)
  moreover have "wrap64 (?n + 1) = ?n + 1"
    using ab(8) chain_okD(1) [OF c] by (simp add: wrap64_id is_int64_def)
  ultimately have "v' = VerifierState_of s'"
    using v' h(3) by (simp add: VerifierState_of_def SubTreeRoot_def)
  with h(1,2) show "\<exists>tr' s'. InsertAndProve E s (it_Key tr) (it_Val tr) = Inr (tr', s') \<and> prover_ok E s' \<and> v' = VerifierState_of s'"
    by blast
qed

subsection \<open>Deletions\<close>

definition deletion_step1 ::
  "('f, 'k, 'v) ProverState \<Rightarrow> ('f, 'k, 'v) DeletionTrace \<Rightarrow> int \<rightharpoonup> ('f, 'k, 'v) KVOpeningTuple" where
  "deletion_step1 s tr = relink_next (data s) (Path (dt_ProofMinus tr)) (Path (dt_ProofPlus tr))"

definition deletion_step2 ::
  "('f, 'k, 'v) ProverState \<Rightarrow> ('f, 'k, 'v) DeletionTrace \<Rightarrow> int \<rightharpoonup> ('f, 'k, 'v) KVOpeningTuple" where
  "deletion_step2 s tr = (deletion_step1 s tr)(Path (dt_ProofDeleted tr) := None)"

definition deletion_queries ::
  "(('f::zero), 'k, 'v) env \<Rightarrow> ('f, 'k, 'v) ProverState \<Rightarrow> ('f, 'k, 'v) DeletionTrace \<Rightarrow>
   ('f octuplet \<times> 'f octuplet) set" where
  "deletion_queries E s tr =
     state_queries (koala E) (data s) \<union> state_queries (koala E) (deletion_step1 s tr) \<union>
     state_queries (koala E) (deletion_step2 s tr) \<union>
     opening_queries (koala E) (dt_ProofMinus tr) (dt_OldOpenMinus tr) \<union>
     opening_queries (koala E) (dt_ProofDeleted tr) (dt_DeletedOpen tr) \<union>
     opening_queries (koala E) (dt_ProofPlus tr) (dt_OldOpenPlus tr)"

text \<open>No node of the chain is its own neighbour on both sides.\<close>

lemma chain_no_loop:
  assumes "env_ok E" "chain_ok E D n" "D a = Some t"
  shows "\<not> (Next (tup_LeafOpening t) = a \<and> Prev (tup_LeafOpening t) = a)"
proof
  assume loop: "Next (tup_LeafOpening t) = a \<and> Prev (tup_LeafOpening t) = a"
  note l = chain_okD(9) [OF assms(2)]
  obtain m where m: "m \<in> dom D" "m \<noteq> a" using chain_okD(4,5) [OF assms(2)] by (metis zero_neq_one)
  have a: "a \<in> dom D" using assms(3) by blast
  have "key_at D m \<noteq> key_at D a" using inj_onD [OF linkedD(2) [OF l] _ m(1) a] m(2) by blast
  then consider "key_at D a < key_at D m" | "key_at D m < key_at D a" by (metis linorder_neqE)
  then show False
  proof cases
    case 1
    from adjacent_neq [OF linked_next [OF l a m(1) 1]] loop assms(3) show False by simp
  next
    case 2
    from adjacent_neq [OF linked_prev [OF l a m(1) 2]] loop assms(3) show False by simp
  qed
qed

lemma accepted_deletion:
  assumes "env_ok E" "prover_ok E s" "leaf_int64 (dt_OldOpenMinus tr)" "leaf_int64 (dt_DeletedOpen tr)"
    "leaf_int64 (dt_OldOpenPlus tr)" "deletion_valid E (VerifierState_of s) tr h w"
    "\<not> breaks (koala E) (deletion_queries E s tr)"
  obtains a i b ta ti tb where "data s a = Some ta" "data s i = Some ti" "data s b = Some tb"
    "i \<noteq> 0" "i \<noteq> 1" "tup_LeafOpening ti = dt_DeletedOpen tr" "prev_at (data s) i = a" "next_at (data s) i = b"
    "a = Path (dt_ProofMinus tr)" "i = Path (dt_ProofDeleted tr)" "b = Path (dt_ProofPlus tr)"
    "dt_NewSubRoot tr = root_of (koala E) ((data s)(a \<mapsto> CopyWithNext ta b, i := None, b \<mapsto> CopyWithPrev tb a))"
proof -
  let ?Q = "deletion_queries E s tr" and ?D0 = "data s" and ?D1 = "deletion_step1 s tr"
  let ?D2 = "deletion_step2 s tr"
  let ?a = "Path (dt_ProofMinus tr)" and ?i = "Path (dt_ProofDeleted tr)" and ?b = "Path (dt_ProofPlus tr)"
  note c = prover_okD(2) [OF assms(2)] and i64 = chain_int64 [OF assms(1) prover_okD(2) [OF assms(2)]]
  have q: "state_queries (koala E) ?D0 \<subseteq> ?Q" "state_queries (koala E) ?D1 \<subseteq> ?Q" "state_queries (koala E) ?D2 \<subseteq> ?Q"
    "opening_queries (koala E) (dt_ProofMinus tr) (dt_OldOpenMinus tr) \<subseteq> ?Q"
    "opening_queries (koala E) (dt_ProofDeleted tr) (dt_DeletedOpen tr) \<subseteq> ?Q"
    "opening_queries (koala E) (dt_ProofPlus tr) (dt_OldOpenPlus tr) \<subseteq> ?Q"
    by (auto simp: deletion_queries_def)
  have links: "Next (dt_OldOpenMinus tr) = ?i" "Prev (dt_DeletedOpen tr) = ?a" "Next (dt_DeletedOpen tr) = ?b"
    using assms(6) by (auto simp: deletion_valid_def)
  obtain r1 r2 where r: "replays (koala E) (dt_ProofMinus tr) (root_of (koala E) ?D0)
        (leaf_hash (koala E) (dt_OldOpenMinus tr)) r1 (leaf_hash (koala E) ((dt_OldOpenMinus tr)\<lparr>Next := ?b\<rparr>))"
      "replays (koala E) (dt_ProofDeleted tr) r1 (leaf_hash (koala E) (dt_DeletedOpen tr)) r2 0"
      "replays (koala E) (dt_ProofPlus tr) r2 (leaf_hash (koala E) (dt_OldOpenPlus tr))
         (dt_NewSubRoot tr) (leaf_hash (koala E) ((dt_OldOpenPlus tr)\<lparr>Prev := ?a\<rparr>))"
    using assms(6) synced_root [OF prover_okD(1) [OF assms(2)]]
    by (auto simp: deletion_valid_def VerifierState_of_def SubTreeRoot_def)
  obtain ta where ta: "?D0 ?a = Some ta" "tup_LeafOpening ta = dt_OldOpenMinus tr"
    "\<And>x r. RecoverRoot (koala E) (dt_ProofMinus tr) (leaf_of (koala E) (?D0(?a := x)) ?a) = Inr r \<Longrightarrow>
       r = root_of (koala E) (?D0(?a := x))"
    by (rule opening_bound [OF assms(1) i64 assms(3,7) q(1,4)]) (use r(1) in \<open>auto simp: replays_def\<close>)
  have D1: "?D1 = ?D0(?a \<mapsto> CopyWithNext ta ?b)" using ta(1) by (simp add: deletion_step1_def relink_next_def)
  have r1: "r1 = root_of (koala E) ?D1"
    unfolding D1 by (rule ta(3)) (use r(1) ta(2) in \<open>simp add: replays_def leaf_of_def CopyWithNext_def\<close>)
  have i64': "data_int64 ?D1"
    unfolding D1 using i64 assms(3,4) links(3) ta(2)
    by (intro data_int64_upd) (auto simp: leaf_int64_def CopyWithNext_def)
  then obtain ti where ti: "?D1 ?i = Some ti" "tup_LeafOpening ti = dt_DeletedOpen tr"
    "\<And>x r. RecoverRoot (koala E) (dt_ProofDeleted tr) (leaf_of (koala E) (?D1(?i := x)) ?i) = Inr r \<Longrightarrow>
       r = root_of (koala E) (?D1(?i := x))"
    by (rule opening_bound [OF assms(1) _ assms(4,7) q(2,5)]) (use r(2) r1 in \<open>auto simp: replays_def\<close>)
  have "?i \<noteq> ?a"
    using chain_no_loop [OF assms(1) c ta(1)] ti(1) links(1,2) unfolding ti(2) [symmetric] ta(2) [symmetric]
    by (auto simp: D1 CopyWithNext_def)
  then have i: "?D0 ?i = Some ti" using ti(1) by (simp add: D1)
  have r2: "r2 = root_of (koala E) ?D2"
    unfolding deletion_step2_def by (rule ti(3)) (use r(2) in \<open>simp add: replays_def leaf_of_def\<close>)
  have "data_int64 ?D2" unfolding deletion_step2_def using i64' by (rule data_int64_upd) simp
  then obtain tb where tb: "?D2 ?b = Some tb" "tup_LeafOpening tb = dt_OldOpenPlus tr"
    "\<And>x r. RecoverRoot (koala E) (dt_ProofPlus tr) (leaf_of (koala E) (?D2(?b := x)) ?b) = Inr r \<Longrightarrow>
       r = root_of (koala E) (?D2(?b := x))"
    by (rule opening_bound [OF assms(1) _ assms(5,7) q(3,6)]) (use r(3) r2 in \<open>auto simp: replays_def\<close>)
  have "?b \<noteq> ?i" using tb(1) by (auto simp: deletion_step2_def)
  have nz: "?i \<noteq> 0" "?i \<noteq> 1"
    using chain_ends [OF c] \<open>?i \<noteq> ?a\<close> \<open>?b \<noteq> ?i\<close> i links(2,3) unfolding ti(2) [symmetric] by auto
  note nb = entry_neighbours [OF assms(1) c i chain_okD(8) [OF c i nz]]
  have "?b \<noteq> ?a"
    using adjacentD(3) [OF nb(1)] adjacentD(3) [OF nb(2)] i links(2,3) unfolding ti(2) [symmetric] by auto
  then have b: "?D0 ?b = Some tb" using tb(1) \<open>?b \<noteq> ?i\<close> by (simp add: deletion_step2_def D1)
  have "dt_NewSubRoot tr = root_of (koala E) (?D2(?b \<mapsto> CopyWithPrev tb ?a))"
    by (rule tb(3)) (use r(3) tb(2) in \<open>simp add: replays_def leaf_of_def CopyWithPrev_def\<close>)
  then show thesis using that [OF ta(1) i b nz ti(2)] i ti(2) links(2,3) by (simp add: deletion_step2_def D1)
qed

lemma VerifyDeletion_sound:
  assumes "env_ok E" "prover_ok E s" "hashableK E (dt_Key tr)" "hashableV E (dt_DeletedValue tr)"
    "leaf_int64 (dt_OldOpenMinus tr)" "leaf_int64 (dt_DeletedOpen tr)" "leaf_int64 (dt_OldOpenPlus tr)"
    "VerifyDeletion E (VerifierState_of s) tr = Inr (v', None)"
  shows "(\<exists>tr' s'. DeleteAndProve E s (dt_Key tr) = Inr (tr', s') \<and> prover_ok E s' \<and> v' = VerifierState_of s') \<or>
    breaks (koala E) (deletion_queries E s tr)"
proof (rule disjCI)
  let ?D = "data s" and ?h = "hk E (dt_Key tr)"
  assume nc: "\<not> breaks (koala E) (deletion_queries E s tr)"
  note c = prover_okD(2) [OF assms(2)] and kb = env_okD(1) [OF assms(1)]
  have valid: "deletion_valid E (VerifierState_of s) tr ?h (hv E (dt_DeletedValue tr))"
    and v': "v' = (VerifierState_of s)\<lparr>vs_SubTreeRoot := dt_NewSubRoot tr\<rparr>"
    using assms(8) hashK_total [OF assms(1,3)] hashV_total [OF assms(1,4)]
    unfolding VerifyDeletion_accepts [OF kb] by auto
  obtain a i b ta ti tb where t: "?D a = Some ta" "?D i = Some ti" "?D b = Some tb" "i \<noteq> 0" "i \<noteq> 1"
    "tup_LeafOpening ti = dt_DeletedOpen tr" "prev_at ?D i = a" "next_at ?D i = b"
    "a = Path (dt_ProofMinus tr)" "i = Path (dt_ProofDeleted tr)" "b = Path (dt_ProofPlus tr)"
    "dt_NewSubRoot tr = root_of (koala E) (?D(a \<mapsto> CopyWithNext ta b, i := None, b \<mapsto> CopyWithPrev tb a))"
    by (rule accepted_deletion [OF assms(1,2,5-7) valid nc])
  have key: "HKey (tup_LeafOpening ti) = ?h" using valid t(6) by (auto simp: deletion_valid_def)
  have ko: "key_ok E (dt_Key tr)"
    using chain_okD(8) [OF c t(2,4,5)] key assms(3) by (auto simp: key_ok_def entry_ok_def)
  have cont: "contents s ?h = Some (tup_Key ti, tup_Value ti)"
    unfolding contents_iff [OF assms(2)] using t(2,4,5) key by (intro exI [of _ ti] exI) auto
  have "FindKey E s (dt_Key tr) = Inr (i, True)" by (rule FindKey_present [OF assms(1,3,2) t(2) key])
  then have "delete_queries E s (dt_Key tr) \<subseteq> deletion_queries E s tr"
    using t(7-11) by (auto simp: delete_queries_def deletion_queries_def deletion_step1_def deletion_step2_def Let_def)
  note np = no_zero_panic [OF not_breaksD(2) [OF nc] this]
  obtain tr' s' a' i' b' where h: "DeleteAndProve E s (dt_Key tr) = Inr (tr', s')"
    "prover_ok E s'" "ps_NextFreeNode s' = ps_NextFreeNode s"
    "VerifyDeletion E (VerifierState_of s) tr' = Inr (VerifierState_of s', None)"
    "?D i' \<noteq> None" "key_at ?D i' = ?h" "prev_at ?D i' = a'" "next_at ?D i' = b'"
    "data s' = ?D(a' \<mapsto> CopyWithNext (the (?D a')) b', i' := None, b' \<mapsto> CopyWithPrev (the (?D b')) a')"
    using DeleteAndProve_correct [OF assms(1,2) ko cont] np by blast
  have "i' = i"
    using h(5,6) t(2) key by (intro inj_onD [OF linkedD(2) [OF chain_okD(9) [OF c]]]) auto
  then have "a' = a" "b' = b" using h(7,8) t(7,8) by simp_all
  with \<open>i' = i\<close> have "dt_NewSubRoot tr = root_of (koala E) (data s')" using t(1,3,12) h(9) by simp
  then have "dt_NewSubRoot tr = SubTreeRoot s'" using synced_root [OF prover_okD(1) [OF h(2)]] by simp
  moreover have "ps_Location s' = ps_Location s"
    using h(4) unfolding VerifyDeletion_accepts [OF kb] by (auto simp: VerifierState_of_def)
  ultimately have "v' = VerifierState_of s'"
    using v' h(3) by (simp add: VerifierState_of_def SubTreeRoot_def)
  with h(1,2) show "\<exists>tr' s'. DeleteAndProve E s (dt_Key tr) = Inr (tr', s') \<and> prover_ok E s' \<and> v' = VerifierState_of s'"
    by blast
qed

end
