(* ===== verification/AccumulatorRun.thy ===== *)
theory AccumulatorRun
  imports AccumulatorSound
begin

text \<open>
  The accumulator under a sequence of operations. The interface \<open>Trace\<close> of
  \<open>accumulator/common.go\<close> is a sum of the five kinds of traces with its three methods. A verifier accepts a
  trace exactly if the comparisons that need no Merkle proof succeed and the deferred claims hold (locale
  \<open>trace_kind\<close>, interpreted for each kind and for the sum). A prover that serves a list of requests which are legal for a plain map keeps its
  invariant, ends with the contents of the map, and produces traces that bring the verifier to the
  snapshot of the final state. The openings of the two sentinels are not bound to a key: the last
  section derives traces the verifier should refuse.
\<close>

subsection \<open>Deferred Merkle checks\<close>

definition claim_holds :: "('f::zero) koalabear \<Rightarrow> 'f ProvedClaim \<Rightarrow> bool" where
  "claim_holds kb c \<longleftrightarrow> Verify kb (claim_Proof c) (claim_Leaf c) (claim_Root c) = Inr ()"

text \<open>The recovered root at the end of a list of claims is the new root that a writing trace announces.\<close>

fun ends_at :: "'f octuplet option \<Rightarrow> 'f ProvedClaim list \<Rightarrow> bool" where
  "ends_at None cs \<longleftrightarrow> True"
| "ends_at (Some r) cs \<longleftrightarrow> cs \<noteq> [] \<and> claim_Root (last cs) = r"

fun verify_all :: "('s \<Rightarrow> 't \<Rightarrow> ('s \<times> string option) result) \<Rightarrow> 's \<Rightarrow> 't list \<Rightarrow>
    ('s \<times> string option) result" where
  "verify_all vf v [] = Inr (v, None)"
| "verify_all vf v (tr # trs) =
     rbind (vf v tr) (\<lambda>(v, err). case err of None \<Rightarrow> verify_all vf v trs | Some m \<Rightarrow> Inr (v, Some m))"

fun defer_all :: "('t \<Rightarrow> 'c list \<Rightarrow> 'c list result) \<Rightarrow> 't list \<Rightarrow> 'c list \<Rightarrow> 'c list result" where
  "defer_all df [] app = Inr app"
| "defer_all df (tr # trs) app = rbind (df tr app) (defer_all df trs)"

lemma verify_all_append:
  "verify_all vf v xs = Inr (v1, None) \<Longrightarrow> verify_all vf v (xs @ ys) = verify_all vf v1 ys"
  by (induction xs arbitrary: v) (auto simp: result_simps split: option.splits)

locale trace_kind =
  fixes verify :: "(('f::{comm_ring_1, linorder}), 'k, 'v) env \<Rightarrow> 'f VerifierState \<Rightarrow> 't \<Rightarrow>
      ('f VerifierState \<times> string option) result"
    and defer_checks :: "('f, 'k, 'v) env \<Rightarrow> 't \<Rightarrow> 'f ProvedClaim list \<Rightarrow> 'f ProvedClaim list result"
    and plain :: "('f, 'k, 'v) env \<Rightarrow> 'f VerifierState \<Rightarrow> 't \<Rightarrow> bool"
    and new_root :: "'t \<Rightarrow> 'f octuplet option"
  assumes accepted_iff: "koala_ok (koala E) \<Longrightarrow> (\<exists>v'. verify E v tr = Inr (v', None)) \<longleftrightarrow>
      plain E v tr \<and> (\<exists>cs. (\<forall>app. defer_checks E tr app = Inr (app @ cs)) \<and>
        list_all (claim_holds (koala E)) cs \<and> ends_at (new_root tr) cs)"
begin

lemma accepted_claims:
  assumes "koala_ok (koala E)" "verify E v tr = Inr (v', None)"
  shows "\<exists>cs. (\<forall>app. defer_checks E tr app = Inr (app @ cs)) \<and> list_all (claim_holds (koala E)) cs"
  using accepted_iff [OF assms(1), of v tr] assms(2) by blast

lemma accepted_claims_all:
  assumes "koala_ok (koala E)"
  shows "verify_all (verify E) v trs = Inr (v', None) \<Longrightarrow>
    \<exists>cs. (\<forall>app. defer_all (defer_checks E) trs app = Inr (app @ cs)) \<and> list_all (claim_holds (koala E)) cs"
proof (induction trs arbitrary: v)
  case Nil
  then show ?case by simp
next
  case (Cons tr trs)
  then obtain v1 where v1: "verify E v tr = Inr (v1, None)" "verify_all (verify E) v1 trs = Inr (v', None)"
    by (auto simp: result_simps split: option.splits)
  obtain cs where cs: "\<And>app. defer_checks E tr app = Inr (app @ cs)" "list_all (claim_holds (koala E)) cs"
    using accepted_claims [OF assms v1(1)] by blast
  obtain ds where ds: "\<And>app. defer_all (defer_checks E) trs app = Inr (app @ ds)" "list_all (claim_holds (koala E)) ds"
    using Cons.IH [OF v1(2)] by blast
  show ?case using cs ds by (intro exI [of _ "cs @ ds"]) simp
qed

end

lemma or_panic_Inr_iff: "or_panic m r = Inr x \<longleftrightarrow> r = Inr x"
  by (cases "(m, r)" rule: or_panic.cases) simp_all

lemma deferCheckUpdateRoot_Inr:
  "deferCheckUpdateRoot kb p r old new app = Inr (app', r') \<longleftrightarrow>
   RecoverRoot kb p new = Inr r' \<and>
     app' = app @ [\<lparr>claim_Proof = p, claim_Root = r, claim_Leaf = old\<rparr>,
                   \<lparr>claim_Proof = p, claim_Root = r', claim_Leaf = new\<rparr>]"
  by (cases "RecoverRoot kb p new") (auto simp: deferCheckUpdateRoot_def result_simps or_panic_Inr_iff)

lemma claim_holds_iff:
  "claim_holds kb \<lparr>claim_Proof = p, claim_Root = r, claim_Leaf = l\<rparr> \<longleftrightarrow> RecoverRoot kb p l = Inr r"
  by (simp add: claim_holds_def Verify_Inr_iff)

text \<open>The comparisons of each verifier method that involve no Merkle proof.\<close>

definition insertion_plain ::
  "(('f::{comm_ring_1, linorder}), 'k, 'v) env \<Rightarrow> 'f VerifierState \<Rightarrow> ('f, 'k, 'v) InsertionTrace \<Rightarrow> bool" where
  "insertion_plain E v tr \<longleftrightarrow>
     vs_Location v = it_Location tr \<and> vs_SubTreeRoot v = it_OldSubRoot tr \<and>
     Path (it_ProofNew tr) = vs_NextFreeNode v \<and> Next (it_OldOpenMinus tr) = Path (it_ProofPlus tr) \<and>
     Prev (it_OldOpenPlus tr) = Path (it_ProofMinus tr) \<and>
     (\<exists>h. hashK E (it_Key tr) = Inr h \<and> HKey (it_OldOpenMinus tr) < h \<and> h < HKey (it_OldOpenPlus tr)) \<and>
     wrap64 (vs_NextFreeNode v + 1) = it_NewNextFreeNode tr"

definition deletion_plain ::
  "(('f::{comm_ring_1, linorder}), 'k, 'v) env \<Rightarrow> 'f VerifierState \<Rightarrow> ('f, 'k, 'v) DeletionTrace \<Rightarrow> bool" where
  "deletion_plain E v tr \<longleftrightarrow>
     vs_Location v = dt_Location tr \<and> vs_SubTreeRoot v = dt_OldSubRoot tr \<and>
     hashV E (dt_DeletedValue tr) = Inr (HVal (dt_DeletedOpen tr)) \<and>
     hashK E (dt_Key tr) = Inr (HKey (dt_DeletedOpen tr)) \<and>
     Next (dt_OldOpenMinus tr) = Path (dt_ProofDeleted tr) \<and> Prev (dt_DeletedOpen tr) = Path (dt_ProofMinus tr) \<and>
     Next (dt_DeletedOpen tr) = Path (dt_ProofPlus tr) \<and> Prev (dt_OldOpenPlus tr) = Path (dt_ProofDeleted tr) \<and>
     vs_NextFreeNode v = dt_NewNextFreeNode tr"

definition update_plain ::
  "(('f::{comm_ring_1, linorder}), 'k, 'v) env \<Rightarrow> 'f VerifierState \<Rightarrow> ('f, 'k, 'v) UpdateTrace \<Rightarrow> bool" where
  "update_plain E v tr \<longleftrightarrow>
     vs_Location v = ut_Location tr \<and> vs_SubTreeRoot v = ut_OldSubRoot tr \<and>
     opens E (ut_OldOpening tr) (ut_Key tr) (ut_OldValue tr) \<and> vs_NextFreeNode v = ut_NewNextFreeNode tr"

definition read_zero_plain ::
  "(('f::{comm_ring_1, linorder}), 'k, 'v) env \<Rightarrow> 'f VerifierState \<Rightarrow> ('f, 'k) ReadZeroTrace \<Rightarrow> bool" where
  "read_zero_plain E v tr \<longleftrightarrow>
     vs_Location v = rz_Location tr \<and> vs_SubTreeRoot v = rz_SubRoot tr \<and>
     Next (rz_OpeningMinus tr) = Path (rz_ProofPlus tr) \<and> Prev (rz_OpeningPlus tr) = Path (rz_ProofMinus tr) \<and>
     (\<exists>h. hashK E (rz_Key tr) = Inr h \<and> HKey (rz_OpeningMinus tr) < h \<and> h < HKey (rz_OpeningPlus tr)) \<and>
     vs_NextFreeNode v = rz_NextFreeNode tr"

definition read_nonzero_plain ::
  "(('f::{comm_ring_1, linorder}), 'k, 'v) env \<Rightarrow> 'f VerifierState \<Rightarrow> ('f, 'k, 'v) ReadNonZeroTrace \<Rightarrow> bool" where
  "read_nonzero_plain E v tr \<longleftrightarrow>
     vs_Location v = rnz_Location tr \<and> vs_SubTreeRoot v = rnz_SubRoot tr \<and>
     opens E (rnz_LeafOpening tr) (rnz_Key tr) (rnz_Value tr) \<and> vs_NextFreeNode v = rnz_NextFreeNode tr"

lemma InsertionTrace_claims:
  assumes "koala_ok (koala E)"
  shows "(\<exists>v'. VerifyInsertion E v tr = Inr (v', None)) \<longleftrightarrow>
    insertion_plain E v tr \<and> (\<exists>cs. (\<forall>app. InsertionTrace_DeferMerkleChecks E tr app = Inr (app @ cs)) \<and>
      list_all (claim_holds (koala E)) cs \<and> ends_at (Some (it_NewSubRoot tr)) cs)" (is "?L \<longleftrightarrow> ?P \<and> ?R")
proof
  note d = InsertionTrace_DeferMerkleChecks_def Let_def LeafOpening_Hash_total [OF assms]
    LeafOpening_CopyWithNext_def LeafOpening_CopyWithPrev_def EmptyLeaf_def
  assume ?L
  then obtain h w r1 r2 where h: "hashK E (it_Key tr) = Inr h" "hashV E (it_Val tr) = Inr w"
    "insertion_valid E v tr h w"
    unfolding VerifyInsertion_accepts [OF assms] by blast
  then show "?P \<and> ?R"
    unfolding insertion_valid_def insertion_plain_def
    by (auto simp: d deferCheckUpdateRoot_def replays_def claim_holds_iff)
next
  note d = InsertionTrace_DeferMerkleChecks_def Let_def LeafOpening_Hash_total [OF assms]
    LeafOpening_CopyWithNext_def LeafOpening_CopyWithPrev_def EmptyLeaf_def
  assume "?P \<and> ?R"
  then obtain cs where p: ?P and cs: "InsertionTrace_DeferMerkleChecks E tr [] = Inr cs"
    "list_all (claim_holds (koala E)) cs" "ends_at (Some (it_NewSubRoot tr)) cs" by auto
  obtain h w where "hashK E (it_Key tr) = Inr h" "hashV E (it_Val tr) = Inr w" "insertion_valid E v tr h w"
    using p cs unfolding insertion_valid_def insertion_plain_def
    by (auto simp: d result_simps deferCheckUpdateRoot_Inr replays_def claim_holds_iff)
  then show ?L unfolding VerifyInsertion_accepts [OF assms] by blast
qed

lemma DeletionTrace_claims:
  assumes "koala_ok (koala E)"
  shows "(\<exists>v'. VerifyDeletion E v tr = Inr (v', None)) \<longleftrightarrow>
    deletion_plain E v tr \<and> (\<exists>cs. (\<forall>app. DeletionTrace_DeferMerkleChecks E tr app = Inr (app @ cs)) \<and>
      list_all (claim_holds (koala E)) cs \<and> ends_at (Some (dt_NewSubRoot tr)) cs)" (is "?L \<longleftrightarrow> ?P \<and> ?R")
proof
  note d = DeletionTrace_DeferMerkleChecks_def Let_def LeafOpening_Hash_total [OF assms]
    LeafOpening_CopyWithNext_def LeafOpening_CopyWithPrev_def EmptyLeaf_def
  assume ?L
  then show "?P \<and> ?R"
    unfolding VerifyDeletion_accepts [OF assms] deletion_valid_def deletion_plain_def
    by (auto simp: d deferCheckUpdateRoot_def replays_def claim_holds_iff)
next
  note d = DeletionTrace_DeferMerkleChecks_def Let_def LeafOpening_Hash_total [OF assms]
    LeafOpening_CopyWithNext_def LeafOpening_CopyWithPrev_def EmptyLeaf_def
  assume "?P \<and> ?R"
  then obtain cs where p: ?P and cs: "DeletionTrace_DeferMerkleChecks E tr [] = Inr cs"
    "list_all (claim_holds (koala E)) cs" "ends_at (Some (dt_NewSubRoot tr)) cs" by auto
  have "deletion_valid E v tr (HKey (dt_DeletedOpen tr)) (HVal (dt_DeletedOpen tr))"
    using p cs unfolding deletion_valid_def deletion_plain_def
    by (auto simp: d result_simps deferCheckUpdateRoot_Inr replays_def claim_holds_iff)
  then show ?L using p unfolding VerifyDeletion_accepts [OF assms] deletion_plain_def by blast
qed

lemma CheckAndLeaf_opens:
  "koala_ok (koala E) \<Longrightarrow> opens E lo k v \<Longrightarrow>
   CheckAndLeaf E \<lparr>tup_LeafOpening = lo, tup_Key = k, tup_Value = v\<rparr> = Inr (leaf_hash (koala E) lo)"
  by (simp add: CheckAndLeaf_accepts opens_def)

lemma UpdateTrace_claims:
  assumes "koala_ok (koala E)"
  shows "(\<exists>v'. UpdateVerify E v tr = Inr (v', None)) \<longleftrightarrow>
    update_plain E v tr \<and> (\<exists>cs. (\<forall>app. UpdateTrace_DeferMerkleChecks E tr app = Inr (app @ cs)) \<and>
      list_all (claim_holds (koala E)) cs \<and> ends_at (Some (ut_NewSubRoot tr)) cs)" (is "?L \<longleftrightarrow> ?P \<and> ?R")
proof
  note d = UpdateTrace_DeferMerkleChecks_def Let_def LeafOpening_Hash_total [OF assms] CheckAndLeaf_opens [OF assms]
  assume ?L
  then show "?P \<and> ?R"
    unfolding UpdateVerify_accepts [OF assms] update_plain_def
    by (auto simp: d deferCheckUpdateRoot_def replays_def claim_holds_iff)
next
  note d = UpdateTrace_DeferMerkleChecks_def Let_def LeafOpening_Hash_total [OF assms] CheckAndLeaf_opens [OF assms]
  assume "?P \<and> ?R"
  then obtain cs where p: ?P and cs: "UpdateTrace_DeferMerkleChecks E tr [] = Inr cs"
    "list_all (claim_holds (koala E)) cs" "ends_at (Some (ut_NewSubRoot tr)) cs" by auto
  then show ?L
    unfolding UpdateVerify_accepts [OF assms] update_plain_def
    by (auto simp: d result_simps deferCheckUpdateRoot_Inr replays_def claim_holds_iff)
qed

lemma ReadZeroTrace_claims:
  assumes "koala_ok (koala E)"
  shows "(\<exists>v'. ReadZeroVerify E v tr = Inr (v', None)) \<longleftrightarrow>
    read_zero_plain E v tr \<and> (\<exists>cs. (\<forall>app. ReadZeroTrace_DeferMerkleChecks E tr app = Inr (app @ cs)) \<and>
      list_all (claim_holds (koala E)) cs \<and> ends_at None cs)"
  unfolding ReadZeroVerify_accepts [OF assms] read_zero_plain_def
  by (auto simp: ReadZeroTrace_DeferMerkleChecks_def Let_def LeafOpening_Hash_total [OF assms] claim_holds_iff)

lemma ReadNonZeroTrace_claims:
  assumes "koala_ok (koala E)"
  shows "(\<exists>v'. ReadNonZeroVerify E v tr = Inr (v', None)) \<longleftrightarrow>
    read_nonzero_plain E v tr \<and> (\<exists>cs. (\<forall>app. ReadNonZeroTrace_DeferMerkleChecks E tr app = Inr (app @ cs)) \<and>
      list_all (claim_holds (koala E)) cs \<and> ends_at None cs)"
  unfolding ReadNonZeroVerify_accepts [OF assms] read_nonzero_plain_def
  by (auto simp: ReadNonZeroTrace_DeferMerkleChecks_def CheckAndLeaf_opens [OF assms] claim_holds_iff)

interpretation insertions: trace_kind VerifyInsertion InsertionTrace_DeferMerkleChecks
  insertion_plain "\<lambda>tr. Some (it_NewSubRoot tr)"
  by unfold_locales (rule InsertionTrace_claims)

interpretation deletions: trace_kind VerifyDeletion DeletionTrace_DeferMerkleChecks
  deletion_plain "\<lambda>tr. Some (dt_NewSubRoot tr)"
  by unfold_locales (rule DeletionTrace_claims)

interpretation updates: trace_kind UpdateVerify UpdateTrace_DeferMerkleChecks
  update_plain "\<lambda>tr. Some (ut_NewSubRoot tr)"
  by unfold_locales (rule UpdateTrace_claims)

interpretation zero_reads: trace_kind ReadZeroVerify ReadZeroTrace_DeferMerkleChecks
  read_zero_plain "\<lambda>_. None"
  by unfold_locales (rule ReadZeroTrace_claims)

interpretation reads: trace_kind ReadNonZeroVerify ReadNonZeroTrace_DeferMerkleChecks
  read_nonzero_plain "\<lambda>_. None"
  by unfold_locales (rule ReadNonZeroTrace_claims)

subsection \<open>The interface \<open>Trace\<close>\<close>

datatype ('f, 'k, 'v) Trace =
    TInsertion "('f, 'k, 'v) InsertionTrace"
  | TDeletion "('f, 'k, 'v) DeletionTrace"
  | TUpdate "('f, 'k, 'v) UpdateTrace"
  | TReadZero "('f, 'k) ReadZeroTrace"
  | TReadNonZero "('f, 'k, 'v) ReadNonZeroTrace"

fun Trace_DeferMerkleChecks ::
  "(('f::comm_ring_1), 'k, 'v) env \<Rightarrow> ('f, 'k, 'v) Trace \<Rightarrow> 'f ProvedClaim list \<Rightarrow> 'f ProvedClaim list result" where
  "Trace_DeferMerkleChecks E (TInsertion tr) app = InsertionTrace_DeferMerkleChecks E tr app"
| "Trace_DeferMerkleChecks E (TDeletion tr) app = DeletionTrace_DeferMerkleChecks E tr app"
| "Trace_DeferMerkleChecks E (TUpdate tr) app = UpdateTrace_DeferMerkleChecks E tr app"
| "Trace_DeferMerkleChecks E (TReadZero tr) app = ReadZeroTrace_DeferMerkleChecks E tr app"
| "Trace_DeferMerkleChecks E (TReadNonZero tr) app = ReadNonZeroTrace_DeferMerkleChecks E tr app"

fun Trace_HKey :: "(('f::zero), 'k, 'v) env \<Rightarrow> ('f, 'k, 'v) Trace \<Rightarrow> 'f octuplet result" where
  "Trace_HKey E (TInsertion tr) = InsertionTrace_HKey E tr"
| "Trace_HKey E (TDeletion tr) = Inr (DeletionTrace_HKey tr)"
| "Trace_HKey E (TUpdate tr) = UpdateTrace_HKey E tr"
| "Trace_HKey E (TReadZero tr) = ReadZeroTrace_HKey E tr"
| "Trace_HKey E (TReadNonZero tr) = ReadNonZeroTrace_HKey E tr"

fun Trace_RWInt :: "('f, 'k, 'v) Trace \<Rightarrow> int" where
  "Trace_RWInt (TInsertion tr) = InsertionTrace_RWInt tr"
| "Trace_RWInt (TDeletion tr) = DeletionTrace_RWInt tr"
| "Trace_RWInt (TUpdate tr) = UpdateTrace_RWInt tr"
| "Trace_RWInt (TReadZero tr) = ReadZeroTrace_RWInt tr"
| "Trace_RWInt (TReadNonZero tr) = ReadNonZeroTrace_RWInt tr"

fun verify_trace ::
  "(('f::{comm_ring_1, linorder}), 'k, 'v) env \<Rightarrow> 'f VerifierState \<Rightarrow> ('f, 'k, 'v) Trace \<Rightarrow>
   ('f VerifierState \<times> string option) result" where
  "verify_trace E v (TInsertion tr) = VerifyInsertion E v tr"
| "verify_trace E v (TDeletion tr) = VerifyDeletion E v tr"
| "verify_trace E v (TUpdate tr) = UpdateVerify E v tr"
| "verify_trace E v (TReadZero tr) = ReadZeroVerify E v tr"
| "verify_trace E v (TReadNonZero tr) = ReadNonZeroVerify E v tr"

fun plain_checks ::
  "(('f::{comm_ring_1, linorder}), 'k, 'v) env \<Rightarrow> 'f VerifierState \<Rightarrow> ('f, 'k, 'v) Trace \<Rightarrow> bool" where
  "plain_checks E v (TInsertion tr) = insertion_plain E v tr"
| "plain_checks E v (TDeletion tr) = deletion_plain E v tr"
| "plain_checks E v (TUpdate tr) = update_plain E v tr"
| "plain_checks E v (TReadZero tr) = read_zero_plain E v tr"
| "plain_checks E v (TReadNonZero tr) = read_nonzero_plain E v tr"

fun new_root :: "('f, 'k, 'v) Trace \<Rightarrow> 'f octuplet option" where
  "new_root (TInsertion tr) = Some (it_NewSubRoot tr)"
| "new_root (TDeletion tr) = Some (dt_NewSubRoot tr)"
| "new_root (TUpdate tr) = Some (ut_NewSubRoot tr)"
| "new_root (TReadZero tr) = None"
| "new_root (TReadNonZero tr) = None"

interpretation traces: trace_kind verify_trace Trace_DeferMerkleChecks plain_checks new_root
proof
  fix E :: "('f::{comm_ring_1, linorder}, 'k, 'v) env" and v and tr :: "('f, 'k, 'v) Trace"
  assume kb: "koala_ok (koala E)"
  show "(\<exists>v'. verify_trace E v tr = Inr (v', None)) \<longleftrightarrow>
      plain_checks E v tr \<and> (\<exists>cs. (\<forall>app. Trace_DeferMerkleChecks E tr app = Inr (app @ cs)) \<and>
        list_all (claim_holds (koala E)) cs \<and> ends_at (new_root tr) cs)"
    using insertions.accepted_iff [OF kb] deletions.accepted_iff [OF kb] updates.accepted_iff [OF kb]
      zero_reads.accepted_iff [OF kb] reads.accepted_iff [OF kb]
    by (cases tr) (simp_all only: verify_trace.simps Trace_DeferMerkleChecks.simps plain_checks.simps new_root.simps)
qed

text \<open>A trace moves the verifier only if it says that it writes.\<close>

lemma read_trace_keeps_state:
  assumes "koala_ok (koala E)" "verify_trace E v tr = Inr (v', None)" "Trace_RWInt tr = 0"
  shows "v' = v"
  using assms
  by (cases tr) (simp_all add: InsertionTrace_RWInt_def DeletionTrace_RWInt_def UpdateTrace_RWInt_def
      ReadZeroVerify_accepts ReadNonZeroVerify_accepts)

subsection \<open>Sequences of requests\<close>

datatype ('k, 'v) request = RInsert 'k 'v | RDelete 'k | RUpdate 'k 'v | RReadZero 'k | RReadNonZero 'k

primrec request_key :: "('k, 'v) request \<Rightarrow> 'k" where
  "request_key (RInsert k v) = k"
| "request_key (RDelete k) = k"
| "request_key (RUpdate k v) = k"
| "request_key (RReadZero k) = k"
| "request_key (RReadNonZero k) = k"

fun serve ::
  "(('f::{comm_ring_1, linorder}), 'k, 'v) env \<Rightarrow> ('f, 'k, 'v) ProverState \<Rightarrow> ('k, 'v) request \<Rightarrow>
   (('f, 'k, 'v) Trace \<times> ('f, 'k, 'v) ProverState) result" where
  "serve E s (RInsert k v) = rbind (InsertAndProve E s k v) (\<lambda>(tr, s). Inr (TInsertion tr, s))"
| "serve E s (RDelete k) = rbind (DeleteAndProve E s k) (\<lambda>(tr, s). Inr (TDeletion tr, s))"
| "serve E s (RUpdate k v) = rbind (UpdateAndProve E s k v) (\<lambda>(tr, s). Inr (TUpdate tr, s))"
| "serve E s (RReadZero k) = rbind (ReadZeroAndProve E s k) (\<lambda>tr. Inr (TReadZero tr, s))"
| "serve E s (RReadNonZero k) = rbind (ReadNonZeroAndProve E s k) (\<lambda>tr. Inr (TReadNonZero tr, s))"

fun serve_all ::
  "(('f::{comm_ring_1, linorder}), 'k, 'v) env \<Rightarrow> ('f, 'k, 'v) ProverState \<Rightarrow> ('k, 'v) request list \<Rightarrow>
   (('f, 'k, 'v) Trace list \<times> ('f, 'k, 'v) ProverState) result" where
  "serve_all E s [] = Inr ([], s)"
| "serve_all E s (q # qs) =
     rbind (serve E s q) (\<lambda>(tr, s). rbind (serve_all E s qs) (\<lambda>(trs, s). Inr (tr # trs, s)))"

text \<open>The same requests on a plain map from hashed keys to entries: \<^term>\<open>None\<close> is a refusal.\<close>

type_synonym ('f, 'k, 'v) store = "'f octuplet \<rightharpoonup> 'k \<times> 'v"

fun map_serve ::
  "(('f::zero), 'k, 'v) env \<Rightarrow> ('f, 'k, 'v) store \<Rightarrow> ('k, 'v) request \<Rightarrow> ('f, 'k, 'v) store option" where
  "map_serve E m (RInsert k v) = (case m (hk E k) of None \<Rightarrow> Some (m(hk E k \<mapsto> (k, v))) | Some _ \<Rightarrow> None)"
| "map_serve E m (RDelete k) = (case m (hk E k) of None \<Rightarrow> None | Some _ \<Rightarrow> Some (m(hk E k := None)))"
| "map_serve E m (RUpdate k v) =
     (case m (hk E k) of None \<Rightarrow> None | Some (k', _) \<Rightarrow> Some (m(hk E k \<mapsto> (k', v))))"
| "map_serve E m (RReadZero k) = (case m (hk E k) of None \<Rightarrow> Some m | Some _ \<Rightarrow> None)"
| "map_serve E m (RReadNonZero k) = (case m (hk E k) of None \<Rightarrow> None | Some _ \<Rightarrow> Some m)"

fun map_serve_all ::
  "(('f::zero), 'k, 'v) env \<Rightarrow> ('f, 'k, 'v) store \<Rightarrow> ('k, 'v) request list \<Rightarrow> ('f, 'k, 'v) store option" where
  "map_serve_all E m [] = Some m"
| "map_serve_all E m (q # qs) = Option.bind (map_serve E m q) (\<lambda>m. map_serve_all E m qs)"

fun request_ok :: "(('f::comm_ring_1), 'k, 'v) env \<Rightarrow> ('k, 'v) request \<Rightarrow> bool" where
  "request_ok E (RInsert k v) \<longleftrightarrow> key_ok E k \<and> hashableV E v"
| "request_ok E (RUpdate k v) \<longleftrightarrow> key_ok E k \<and> hashableV E v"
| "request_ok E q \<longleftrightarrow> key_ok E (request_key q)"

primrec is_insert :: "('k, 'v) request \<Rightarrow> bool" where
  "is_insert (RInsert k v) = True"
| "is_insert (RDelete k) = False"
| "is_insert (RUpdate k v) = False"
| "is_insert (RReadZero k) = False"
| "is_insert (RReadNonZero k) = False"

definition inserts :: "('k, 'v) request list \<Rightarrow> int" where
  "inserts qs = int (length (filter is_insert qs))"

lemma inserts_simps [simp]:
  "inserts [] = 0" "inserts (q # qs) = (if is_insert q then 1 else 0) + inserts qs" "0 \<le> inserts qs"
  by (simp_all add: inserts_def)

text \<open>The inputs evaluated for the trees that a request, and a list of requests, goes through.\<close>

fun serve_queries ::
  "(('f::{comm_ring_1, linorder}), 'k, 'v) env \<Rightarrow> ('f, 'k, 'v) ProverState \<Rightarrow> ('k, 'v) request \<Rightarrow>
   ('f octuplet \<times> 'f octuplet) set" where
  "serve_queries E s (RInsert k v) = insert_queries E s k v"
| "serve_queries E s (RDelete k) = delete_queries E s k"
| "serve_queries E s (RUpdate k v) = state_queries (koala E) (data s)"
| "serve_queries E s (RReadZero k) = state_queries (koala E) (data s)"
| "serve_queries E s (RReadNonZero k) = state_queries (koala E) (data s)"

fun serve_all_queries ::
  "(('f::{comm_ring_1, linorder}), 'k, 'v) env \<Rightarrow> ('f, 'k, 'v) ProverState \<Rightarrow> ('k, 'v) request list \<Rightarrow>
   ('f octuplet \<times> 'f octuplet) set" where
  "serve_all_queries E s [] = {}"
| "serve_all_queries E s (q # qs) =
     serve_queries E s q \<union> (case serve E s q of Inl _ \<Rightarrow> {} | Inr (_, s') \<Rightarrow> serve_all_queries E s' qs)"

text \<open>One request that the map accepts: prover, map and verifier move together, or the prover panics on a zero
  node.\<close>

lemma serve_correct:
  assumes "env_ok E" "prover_ok E s" "request_ok E q" "map_serve E (contents s) q = Some m"
    "ps_NextFreeNode s + inserts [q] \<le> 2 ^ 40"
  shows "(\<exists>tr s'. serve E s q = Inr (tr, s') \<and> prover_ok E s' \<and> contents s' = m \<and>
      ps_NextFreeNode s' = ps_NextFreeNode s + inserts [q] \<and>
      verify_trace E (VerifierState_of s) tr = Inr (VerifierState_of s', None)) \<or>
    zero_panic (koala E) (serve_queries E s q) (serve E s q)"
proof (cases q)
  case (RInsert k v)
  then have a: "key_ok E k" "hashableV E v" "contents s (hk E k) = None" "m = (contents s)(hk E k \<mapsto> (k, v))"
    "ps_NextFreeNode s < 2 ^ 40"
    using assms(3-5) by (auto split: option.splits)
  from InsertAndProve_correct [OF assms(1,2) a(1,2,5,3)] RInsert a(4) show ?thesis by (auto simp: zero_panic_def)
next
  case (RDelete k)
  then obtain k' v where a: "key_ok E k" "contents s (hk E k) = Some (k', v)" "m = (contents s)(hk E k := None)"
    using assms(3,4) by (auto split: option.splits)
  from DeleteAndProve_correct [OF assms(1,2) a(1,2)] RDelete a(3) show ?thesis by (auto simp: zero_panic_def)
next
  case (RUpdate k v)
  then obtain k' v' where a: "key_ok E k" "hashableV E v" "contents s (hk E k) = Some (k', v')"
    "m = (contents s)(hk E k \<mapsto> (k', v))"
    using assms(3,4) by (auto split: option.splits)
  from UpdateAndProve_correct [OF assms(1,2) a(1,3,2)] RUpdate a(4) show ?thesis by (auto simp: zero_panic_def)
next
  case (RReadZero k)
  then have a: "key_ok E k" "contents s (hk E k) = None" "m = contents s"
    using assms(3,4) by (auto split: option.splits)
  from ReadZeroAndProve_correct [OF assms(1,2) a(1,2)] RReadZero a(3) assms(2) show ?thesis by (auto simp: zero_panic_def)
next
  case (RReadNonZero k)
  then obtain k' v where a: "key_ok E k" "contents s (hk E k) = Some (k', v)" "m = contents s"
    using assms(3,4) by (auto split: option.splits)
  from ReadNonZeroAndProve_correct [OF assms(1,2) a(1,2)] RReadNonZero a(3) assms(2) show ?thesis by (auto simp: zero_panic_def)
qed

lemma serve_refused:
  assumes "env_ok E" "prover_ok E s" "request_ok E q" "map_serve E (contents s) q = None"
  shows "\<exists>m. serve E s q = Inl (Panic m)"
proof (cases q)
  case (RInsert k v)
  then have "key_ok E k" "contents s (hk E k) \<noteq> None" using assms(3,4) by (auto split: option.splits)
  from InsertAndProve_present(1) [OF assms(1,2) this, of v] RInsert show ?thesis by auto
next
  case (RDelete k)
  then have "key_ok E k" "contents s (hk E k) = None" using assms(3,4) by (auto split: option.splits)
  from operations_absent(1) [OF assms(1,2) this] RDelete show ?thesis by auto
next
  case (RUpdate k v)
  then have "key_ok E k" "contents s (hk E k) = None" using assms(3,4) by (auto split: option.splits)
  from operations_absent(2) [OF assms(1,2) this, of v] RUpdate show ?thesis by auto
next
  case (RReadZero k)
  then have "key_ok E k" "contents s (hk E k) \<noteq> None" using assms(3,4) by (auto split: option.splits)
  from InsertAndProve_present(2) [OF assms(1,2) this] RReadZero show ?thesis by auto
next
  case (RReadNonZero k)
  then have "key_ok E k" "contents s (hk E k) = None" using assms(3,4) by (auto split: option.splits)
  from operations_absent(3) [OF assms(1,2) this] RReadNonZero show ?thesis by auto
qed

lemma serve_all_correct:
  assumes "env_ok E"
  shows "prover_ok E s \<Longrightarrow> list_all (request_ok E) qs \<Longrightarrow> map_serve_all E (contents s) qs = Some m \<Longrightarrow>
    ps_NextFreeNode s + inserts qs \<le> 2 ^ 40 \<Longrightarrow>
    (\<exists>trs s'. serve_all E s qs = Inr (trs, s') \<and> prover_ok E s' \<and> contents s' = m \<and>
      ps_NextFreeNode s' = ps_NextFreeNode s + inserts qs \<and>
      verify_all (verify_trace E) (VerifierState_of s) trs = Inr (VerifierState_of s', None)) \<or>
    zero_panic (koala E) (serve_all_queries E s qs) (serve_all E s qs)"
proof (induction qs arbitrary: s)
  case Nil
  then show ?case by simp
next
  case (Cons q qs)
  obtain m1 where m1: "map_serve E (contents s) q = Some m1" "map_serve_all E m1 qs = Some m"
    using Cons.prems(3) by (auto simp: bind_eq_Some_conv)
  have n: "ps_NextFreeNode s + inserts [q] \<le> 2 ^ 40"
    using Cons.prems(4) inserts_simps(3) [of qs] by (simp del: inserts_simps(3))
  consider (ok) tr s1 where "serve E s q = Inr (tr, s1)" "prover_ok E s1" "contents s1 = m1"
      "ps_NextFreeNode s1 = ps_NextFreeNode s + inserts [q]"
      "verify_trace E (VerifierState_of s) tr = Inr (VerifierState_of s1, None)"
    | (zero) "zero_panic (koala E) (serve_queries E s q) (serve E s q)"
    using serve_correct [OF assms Cons.prems(1) _ m1(1) n] Cons.prems(2) by auto
  then show ?case
  proof cases
    case ok
    have "ps_NextFreeNode s1 + inserts qs \<le> 2 ^ 40" using Cons.prems(4) ok(4) by simp
    then have "(\<exists>trs s'. serve_all E s1 qs = Inr (trs, s') \<and> prover_ok E s' \<and> contents s' = m \<and>
        ps_NextFreeNode s' = ps_NextFreeNode s1 + inserts qs \<and>
        verify_all (verify_trace E) (VerifierState_of s1) trs = Inr (VerifierState_of s', None)) \<or>
      zero_panic (koala E) (serve_all_queries E s1 qs) (serve_all E s1 qs)"
      using Cons.IH [OF ok(2)] Cons.prems(2) m1(2) ok(3) by simp
    with ok show ?thesis by (auto simp: zero_panic_def)
  next
    case zero
    then show ?thesis by (auto simp: zero_panic_def)
  qed
qed

lemma serve_keeps_ok:
  assumes "env_ok E" "prover_ok E s" "request_ok E q" "ps_NextFreeNode s + inserts [q] \<le> 2 ^ 40"
    "serve E s q = Inr (tr, s')"
  shows "prover_ok E s' \<and> ps_NextFreeNode s' = ps_NextFreeNode s + inserts [q]"
proof -
  obtain m where "map_serve E (contents s) q = Some m"
    using serve_refused [OF assms(1-3)] assms(5) by (metis option.exhaust Inl_Inr_False)
  from serve_correct [OF assms(1-3) this assms(4)] assms(5) show ?thesis by auto
qed

subsection \<open>Reachable states\<close>

text \<open>What a process that only calls the exported operations can reach from a fresh state.\<close>

inductive reachable ::
  "(('f::{comm_ring_1, linorder}), 'k, 'v) env \<Rightarrow> string \<Rightarrow> ('f, 'k, 'v) ProverState \<Rightarrow> bool"
  for E loc where
  start: "InitializeProverState E loc = Inr s \<Longrightarrow> reachable E loc s"
| step: "reachable E loc s \<Longrightarrow> request_ok E q \<Longrightarrow> ps_NextFreeNode s + inserts [q] \<le> 2 ^ 40 \<Longrightarrow>
    serve E s q = Inr (tr, s') \<Longrightarrow> reachable E loc s'"

inductive_cases reachableE: "reachable E loc s"

lemma reachable_invariant:
  assumes "env_ok E" "reachable E loc s"
  shows "prover_ok E s"
  using assms(2)
proof (induction rule: reachable.induct)
  case (start s)
  then show ?case using InitializeProverState_correct [OF assms(1), of loc] by auto
next
  case (step s q tr s')
  then show ?case using serve_keeps_ok [OF assms(1) step.IH step.hyps(2-4)] by simp
qed

subsection \<open>Top roots\<close>

definition top_elems :: "'f koalabear \<Rightarrow> 'f VerifierState \<Rightarrow> 'f list" where
  "top_elems kb v = int64_elems kb (vs_NextFreeNode v) @ oct_list (vs_SubTreeRoot v)"

lemma top_root_digest_total:
  "koala_ok kb \<Longrightarrow> top_root_digest kb n r = Inr (ToBytes kb (HashVec kb (int64_elems kb n @ oct_list r)))"
  by (simp add: top_root_digest_def WriteInt64On64Bytes_hasher octuplet_WriteTo_def hasher_io_ToBytes
      Sum_Nil SumElement_fst HashVec_sum_loop WriteElements_def NewMDHasher_def)

lemma VerifierState_TopRoot_total:
  "koala_ok kb \<Longrightarrow> VerifierState_TopRoot kb v = Inr (HashVec kb (top_elems kb v))"
  by (simp add: VerifierState_TopRoot_def top_root_digest_total top_elems_def MustBytesToKoalaOctuplet_def
      BytesToKoalaOctuplet_def SetBytes_ToBytes)

lemma ProverState_TopRoot_total:
  "koala_ok (koala E) \<Longrightarrow> ProverState_TopRoot E s = Inr (HashVec (koala E) (top_elems (koala E) (VerifierState_of s)))"
  by (simp add: ProverState_TopRoot_def top_root_digest_total top_elems_def
      BytesToKoalaOctuplet_def SetBytes_ToBytes VerifierState_of_def SubTreeRoot_def)

lemma TopRoot_binding:
  assumes "koala_ok kb" "is_int64 (vs_NextFreeNode v)" "is_int64 (vs_NextFreeNode v')"
    "VerifierState_TopRoot kb v = VerifierState_TopRoot kb v'"
  shows "vs_NextFreeNode v = vs_NextFreeNode v' \<and> vs_SubTreeRoot v = vs_SubTreeRoot v' \<or>
    collides kb (md_queries kb 0 (blocks8 (top_elems kb v)) \<union> md_queries kb 0 (blocks8 (top_elems kb v')))"
proof -
  have l: "length (top_elems kb v) = 24" for v
    using assms(1) by (simp add: top_elems_def length_int64_elems)
  have "top_elems kb v = top_elems kb v' \<or>
    collides kb (md_queries kb 0 (blocks8 (top_elems kb v)) \<union> md_queries kb 0 (blocks8 (top_elems kb v')))"
    using HashVec_binding [of "top_elems kb v" "top_elems kb v'" kb] assms(4)
    by (auto simp: l VerifierState_TopRoot_total [OF assms(1)])
  then show ?thesis
    using int64_elems_inject [OF assms(1-3)] by (auto simp: top_elems_def length_int64_elems [OF assms(1)])
qed

subsection \<open>Sentinel openings\<close>

text \<open>\<open>CheckAndLeaf\<close> does not compare the key and the value with an opening of a sentinel, and nothing in
  \<open>ReadNonZeroVerify\<close> and \<open>UpdateVerify\<close> refuses such an opening.\<close>

lemma head_opening:
  assumes "prover_ok E s"
  obtains p lo where "HeadOrTail lo" "HKey lo = 0" "RecoverRoot (koala E) p (leaf_hash (koala E) lo) = Inr (SubTreeRoot s)"
proof -
  note sy = prover_okD(1) [OF assms] and c = prover_okD(2) [OF assms]
  obtain t where t: "data s 0 = Some t" using chain_okD(4) [OF c] by blast
  let ?f = "leaves (koala E) (data s)"
  have "?f(0 := leaf_hash (koala E) (tup_LeafOpening t)) = ?f" using t by (auto simp: leaves_def leaf_of_def)
  then have "RecoverRoot (koala E) \<lparr>Path = int 0, Siblings = siblings (hash2 (koala E)) ?f 40 0\<rparr>
      (leaf_hash (koala E) (tup_LeafOpening t)) = Inr (SubTreeRoot s)"
    using siblings_recover [of 0 40 "koala E" ?f "leaf_hash (koala E) (tup_LeafOpening t)"]
    by (simp add: synced_root [OF sy] root_of_def)
  moreover have "HeadOrTail (tup_LeafOpening t)" using chain_sentinels [OF c t] by simp
  moreover have "HKey (tup_LeafOpening t) = 0" using chain_okD(6) [OF c] t by simp
  ultimately show thesis using that by blast
qed

lemma ReadNonZeroVerify_forged:
  assumes "env_ok E" "prover_ok E s"
  shows "\<exists>tr. rnz_Key tr = k \<and> rnz_Value tr = v \<and>
    ReadNonZeroVerify E (VerifierState_of s) tr = Inr (VerifierState_of s, None)"
proof -
  obtain p lo where h: "HeadOrTail lo" "RecoverRoot (koala E) p (leaf_hash (koala E) lo) = Inr (SubTreeRoot s)"
    by (rule head_opening [OF assms(2)])
  let ?tr = "\<lparr>rnz_Type = 0, rnz_Location = ps_Location s, rnz_NextFreeNode = ps_NextFreeNode s,
    rnz_Key = k, rnz_Value = v, rnz_SubRoot = SubTreeRoot s, rnz_LeafOpening = lo, rnz_Proof = p\<rparr>"
  show ?thesis
    unfolding ReadNonZeroVerify_accepts [OF env_okD(1) [OF assms(1)]]
    using h by (intro exI [of _ ?tr]) (simp add: opens_def VerifierState_of_def SubTreeRoot_def)
qed

subsection \<open>Soundness along a run\<close>

primrec request_of :: "('f, 'k, 'v) Trace \<Rightarrow> ('k, 'v) request" where
  "request_of (TInsertion tr) = RInsert (it_Key tr) (it_Val tr)"
| "request_of (TDeletion tr) = RDelete (dt_Key tr)"
| "request_of (TUpdate tr) = RUpdate (ut_Key tr) (ut_NewValue tr)"
| "request_of (TReadZero tr) = RReadZero (rz_Key tr)"
| "request_of (TReadNonZero tr) = RReadNonZero (rnz_Key tr)"

text \<open>What the code's types guarantee of a trace, and that its opening is not a sentinel where the
  verifier does not check it.\<close>

primrec trace_wf :: "(('f::comm_ring_1), 'k, 'v) env \<Rightarrow> ('f, 'k, 'v) Trace \<Rightarrow> bool" where
  "trace_wf E (TInsertion tr) \<longleftrightarrow> hashableK E (it_Key tr) \<and> hashableV E (it_Val tr) \<and>
     leaf_int64 (it_OldOpenMinus tr) \<and> leaf_int64 (it_OldOpenPlus tr)"
| "trace_wf E (TDeletion tr) \<longleftrightarrow> hashableK E (dt_Key tr) \<and> hashableV E (dt_DeletedValue tr) \<and>
     leaf_int64 (dt_OldOpenMinus tr) \<and> leaf_int64 (dt_DeletedOpen tr) \<and> leaf_int64 (dt_OldOpenPlus tr)"
| "trace_wf E (TUpdate tr) \<longleftrightarrow> hashableK E (ut_Key tr) \<and> hashableV E (ut_OldValue tr) \<and>
     hashableV E (ut_NewValue tr) \<and> leaf_int64 (ut_OldOpening tr) \<and> \<not> HeadOrTail (ut_OldOpening tr)"
| "trace_wf E (TReadZero tr) \<longleftrightarrow> hashableK E (rz_Key tr) \<and>
     leaf_int64 (rz_OpeningMinus tr) \<and> leaf_int64 (rz_OpeningPlus tr)"
| "trace_wf E (TReadNonZero tr) \<longleftrightarrow> hashableK E (rnz_Key tr) \<and> hashableV E (rnz_Value tr) \<and>
     leaf_int64 (rnz_LeafOpening tr) \<and> \<not> HeadOrTail (rnz_LeafOpening tr)"

primrec trace_queries ::
  "(('f::zero), 'k, 'v) env \<Rightarrow> ('f, 'k, 'v) ProverState \<Rightarrow> ('f, 'k, 'v) Trace \<Rightarrow> ('f octuplet \<times> 'f octuplet) set" where
  "trace_queries E s (TInsertion tr) = insertion_queries E s tr"
| "trace_queries E s (TDeletion tr) = deletion_queries E s tr"
| "trace_queries E s (TUpdate tr) = read_queries E s (ut_Proof tr) (ut_OldOpening tr)"
| "trace_queries E s (TReadZero tr) = read_zero_queries E s tr"
| "trace_queries E s (TReadNonZero tr) = read_queries E s (rnz_Proof tr) (rnz_LeafOpening tr)"

fun run_queries ::
  "(('f::{comm_ring_1, linorder}), 'k, 'v) env \<Rightarrow> ('f, 'k, 'v) ProverState \<Rightarrow> ('f, 'k, 'v) Trace list \<Rightarrow>
   ('f octuplet \<times> 'f octuplet) set" where
  "run_queries E s [] = {}"
| "run_queries E s (tr # trs) =
     trace_queries E s tr \<union>
     (case serve E s (request_of tr) of Inl _ \<Rightarrow> {} | Inr (_, s') \<Rightarrow> run_queries E s' trs)"

lemma accepted_read_zero:
  assumes "env_ok E" "prover_ok E s" "hashableK E (rz_Key tr)" "contents s (hk E (rz_Key tr)) = None"
    "ReadZeroVerify E (VerifierState_of s) tr = Inr (v', None)"
    "\<not> zero_digest (koala E) (state_queries (koala E) (data s))"
  shows "\<exists>tr'. ReadZeroAndProve E s (rz_Key tr) = Inr tr' \<and> v' = VerifierState_of s"
proof -
  note kb = env_okD(1) [OF assms(1)]
  have "HKey (rz_OpeningMinus tr) < hk E (rz_Key tr)" "hk E (rz_Key tr) < HKey (rz_OpeningPlus tr)"
    and v': "v' = VerifierState_of s"
    using assms(5) hashK_total [OF assms(1,3)] unfolding ReadZeroVerify_accepts [OF kb] by auto
  then have "key_ok E (rz_Key tr)"
    using koala_ok_bounds [OF kb, of "HKey (rz_OpeningMinus tr)"]
      koala_ok_bounds [OF kb, of "HKey (rz_OpeningPlus tr)"] assms(3)
    by (auto simp: key_ok_def)
  from ReadZeroAndProve_correct [OF assms(1,2) this assms(4)] v' no_zero_panic [OF assms(6) order_refl]
  show ?thesis by blast
qed

lemma contents_key_ok:
  "prover_ok E s \<Longrightarrow> contents s (hk E k) = Some (k', v) \<Longrightarrow> hashableK E k \<Longrightarrow> key_ok E k"
  using chain_okD(8) [OF prover_okD(2)] by (fastforce simp: contents_iff entry_ok_def key_ok_def)

lemma verify_trace_sound:
  assumes "env_ok E" "prover_ok E s" "trace_wf E tr"
    "verify_trace E (VerifierState_of s) tr = Inr (v', None)" "\<not> breaks (koala E) (trace_queries E s tr)"
  shows "\<exists>tr' s'. serve E s (request_of tr) = Inr (tr', s') \<and> prover_ok E s' \<and> v' = VerifierState_of s'"
proof -
  have "state_queries (koala E) (data s) \<subseteq> trace_queries E s tr"
    by (cases tr) (auto simp: insertion_queries_def deletion_queries_def read_queries_def read_zero_queries_def)
  then have nz: "\<not> zero_digest (koala E) (state_queries (koala E) (data s))"
    using not_breaksD(2) [OF assms(5)] zero_digest_mono by blast
  show ?thesis
  proof (cases tr)
    case (TInsertion t)
    then show ?thesis using VerifyInsertion_sound [OF assms(1,2), of t v'] assms(3-5) by auto
  next
    case (TDeletion t)
    then show ?thesis using VerifyDeletion_sound [OF assms(1,2), of t v'] assms(3-5) by auto
  next
    case (TUpdate t)
    then show ?thesis using UpdateVerify_sound [OF assms(1,2), of t v'] assms(3-5) by auto
  next
    case (TReadZero t)
    then have "contents s (hk E (rz_Key t)) = None"
      using ReadZeroVerify_sound [OF assms(1,2), of t v'] assms(3-5) by auto
    from accepted_read_zero [OF assms(1,2) _ this _ nz, of v'] TReadZero assms(2-4) show ?thesis by auto
  next
    case (TReadNonZero t)
    then obtain k v where k: "contents s (hk E (rnz_Key t)) = Some (k, v)" "hashableK E (rnz_Key t)"
      using ReadNonZeroVerify_sound [OF assms(1,2), of t v'] assms(3-5) by auto
    have "v' = VerifierState_of s"
      using TReadNonZero assms(4) by (simp add: ReadNonZeroVerify_accepts [OF env_okD(1) [OF assms(1)]])
    with ReadNonZeroAndProve_correct [OF assms(1,2) contents_key_ok [OF assms(2) k] k(1)] TReadNonZero assms(2)
      no_zero_panic [OF nz order_refl]
    show ?thesis by auto
  qed
qed

lemma verify_all_sound:
  assumes "env_ok E"
  shows "prover_ok E s \<Longrightarrow> list_all (trace_wf E) trs \<Longrightarrow>
    verify_all (verify_trace E) (VerifierState_of s) trs = Inr (v', None) \<Longrightarrow>
    \<not> breaks (koala E) (run_queries E s trs) \<Longrightarrow>
    \<exists>trs' s'. serve_all E s (map request_of trs) = Inr (trs', s') \<and> prover_ok E s' \<and> v' = VerifierState_of s'"
proof (induction trs arbitrary: s)
  case Nil
  then show ?case by simp
next
  case (Cons tr trs)
  obtain v1 where v1: "verify_trace E (VerifierState_of s) tr = Inr (v1, None)"
    "verify_all (verify_trace E) v1 trs = Inr (v', None)"
    using Cons.prems(3) by (auto simp: result_simps split: option.splits)
  have nc: "\<not> breaks (koala E) (trace_queries E s tr)"
    using Cons.prems(4) breaks_mono [of "koala E" "trace_queries E s tr"] by fastforce
  obtain tr' s1 where s1: "serve E s (request_of tr) = Inr (tr', s1)" "prover_ok E s1" "v1 = VerifierState_of s1"
    using verify_trace_sound [OF assms Cons.prems(1) _ v1(1) nc] Cons.prems(2) by auto
  have "\<not> breaks (koala E) (run_queries E s1 trs)"
    using Cons.prems(4) breaks_mono [of "koala E" "run_queries E s1 trs"] s1(1) by fastforce
  then obtain trs' s' where "serve_all E s1 (map request_of trs) = Inr (trs', s')" "prover_ok E s'"
    "v' = VerifierState_of s'"
    using Cons.IH [OF s1(2)] Cons.prems(2) v1(2) s1(3) by auto
  with s1(1) show ?case by simp
qed

subsection \<open>Honest traces\<close>

text \<open>The traces of the prover meet the conditions under which an accepted trace is sound.\<close>

lemma FindKey_entry:
  assumes "env_ok E" "prover_ok E s" "key_ok E k" "FindKey E s k = Inr (i, True)"
  obtains t where "data s i = Some t" "entry_ok E t"
proof -
  have hk: "hashableK E k" using assms(3) by (simp add: key_ok_def)
  have "contents s (hk E k) \<noteq> None"
  proof
    assume "contents s (hk E k) = None"
    then have "FindKey E s k = Inr (0, False)"
      using FindKey_absent [OF assms(1) hk assms(2)] absent_everywhere [OF assms(2,3)] by blast
    then show False using assms(4) by simp
  qed
  then obtain k' v where "contents s (hk E k) = Some (k', v)" by auto
  from present_entry [OF assms(1-3) this] assms(4) that show thesis by (metis Inr_inject Pair_inject)
qed

lemma serve_trace_wf:
  assumes "env_ok E" "prover_ok E s" "request_ok E q" "serve E s q = Inr (tr, s')"
  shows "trace_wf E tr"
proof -
  have int64: "leaf_int64 (tup_LeafOpening t)" if "MustGet (ps_Data s) i = Inr t" for i t
    using chain_int64 [OF assms(1) prover_okD(2) [OF assms(2)]] that by (simp add: data_int64_def MustGet_iff)
  have entry: "hashableK E (tup_Key t) \<and> hashableV E (tup_Value t) \<and> \<not> HeadOrTail (tup_LeafOpening t)"
    if "FindKey E s k = Inr (i, True)" "MustGet (ps_Data s) i = Inr t" "key_ok E k" for i t k
    using FindKey_entry [OF assms(1,2) that(3,1)] that(2) entry_ok_not_sentinel [of E t]
    by (auto simp: MustGet_iff entry_ok_def key_ok_def)
  have key: "hashableK E k" if "key_ok E k" for k using that by (simp add: key_ok_def)
  show ?thesis
    using assms(3,4) int64 entry key
    by (cases q) (auto simp: InsertAndProve_def DeleteAndProve_def UpdateAndProve_def ReadZeroAndProve_def
        ReadNonZeroAndProve_def result_simps Let_def)
qed

lemma serve_all_trace_wf:
  assumes "env_ok E"
  shows "prover_ok E s \<Longrightarrow> list_all (request_ok E) qs \<Longrightarrow> ps_NextFreeNode s + inserts qs \<le> 2 ^ 40 \<Longrightarrow>
    serve_all E s qs = Inr (trs, s') \<Longrightarrow> list_all (trace_wf E) trs"
proof (induction qs arbitrary: s trs)
  case (Cons q qs)
  then obtain tr s1 trs1 where q: "serve E s q = Inr (tr, s1)" "serve_all E s1 qs = Inr (trs1, s')" "trs = tr # trs1"
    by (auto simp: result_simps)
  have "inserts [q] \<le> inserts (q # qs)" by simp
  then have "ps_NextFreeNode s + inserts [q] \<le> 2 ^ 40" using Cons.prems(3) by linarith
  then have "prover_ok E s1 \<and> ps_NextFreeNode s1 = ps_NextFreeNode s + inserts [q]"
    using serve_keeps_ok [OF assms Cons.prems(1) _ _ q(1)] Cons.prems(2) by simp
  then show ?case
    using Cons.IH [of s1 trs1] Cons.prems q serve_trace_wf [OF assms Cons.prems(1) _ q(1)] by simp
qed simp

subsection \<open>Map iteration\<close>

text \<open>The order in which the runtime ranges over the data does not matter.\<close>

lemma iter_irrelevant:
  fixes E :: "(('f::{comm_ring_1, linorder}), 'k, 'v) env"
  shows "hk (E\<lparr>iter := it\<rparr>) = hk E" "key_ok (E\<lparr>iter := it\<rparr>) = key_ok E" "prover_ok (E\<lparr>iter := it\<rparr>) = prover_ok E"
  by (simp_all add: fun_eq_iff hk_def hv_def hashK_def hashV_def key_ok_def hashableK_def hashableV_def prover_ok_def synced_def
      chain_ok_def entry_ok_def)

lemma findSandwich_order:
  assumes "env_ok E" "env_ok (E\<lparr>iter := it\<rparr>)" "prover_ok E s" "key_ok E k" "contents s (hk E k) = None"
  shows "findSandwich (E\<lparr>iter := it\<rparr>) s k = findSandwich E s k"
proof -
  note absent = absent_everywhere [OF assms(3-5)]
  obtain a b where ab: "findSandwich E s k = Inr (a, b)" "adjacent (dom (data s)) (key_at (data s)) a b"
    "key_at (data s) a < hk E k" "hk E k < key_at (data s) b"
    using findSandwich_adjacent [OF assms(1,4,3)] absent by metis
  obtain a' b' where ab': "findSandwich (E\<lparr>iter := it\<rparr>) s k = Inr (a', b')"
    "adjacent (dom (data s)) (key_at (data s)) a' b'"
    "key_at (data s) a' < hk E k" "hk E k < key_at (data s) b'"
    using findSandwich_adjacent [of "E\<lparr>iter := it\<rparr>" k s] assms absent by (metis iter_irrelevant)
  have "inj_on (key_at (data s)) (dom (data s))"
    using chain_okD(9) [OF prover_okD(2) [OF assms(3)]] by (simp add: linked_def)
  from sandwich_unique [OF this ab(2) ab'(2)] ab ab' show ?thesis by simp
qed

lemma FindKey_order:
  assumes "env_ok E" "env_ok (E\<lparr>iter := it\<rparr>)" "prover_ok E s" "key_ok E k"
  shows "FindKey (E\<lparr>iter := it\<rparr>) s k = FindKey E s k"
proof (cases "contents s (hk E k)")
  case None
  have "hashableK E k" "hashableK (E\<lparr>iter := it\<rparr>) k" using assms(4) by (simp_all add: key_ok_def hashableK_def)
  then show ?thesis
    using FindKey_absent [OF assms(1) _ assms(3), of k] FindKey_absent [OF assms(2), of k s]
      absent_everywhere [OF assms(3,4) None] assms(3)
    by (simp add: iter_irrelevant)
next
  case (Some e)
  obtain i t where i: "data s i = Some t" "HKey (tup_LeafOpening t) = hk E k" "FindKey E s k = Inr (i, True)"
    by (rule present_entry [OF assms(1,3,4), of "fst e" "snd e"]) (simp_all add: Some)
  have "hashableK (E\<lparr>iter := it\<rparr>) k" using assms(4) by (simp add: key_ok_def hashableK_def)
  from FindKey_present [OF assms(2) this _ i(1)] i(2,3) assms(3) show ?thesis by (simp add: iter_irrelevant)
qed

end
