(* ===== verification/Circular.thy ===== *)
theory Circular
  imports Utils "HOL-Library.Multiset"
begin

text \<open>
  Intervals of a discretised circle, \<open>src/prover/maths/common/smartvectors/circular_interval.go\<close>.
  \<open>points\<close> is the set of positions an interval denotes. The theory shows what each query says about
  these sets, that \<open>TryOverlapWith\<close> merges two intervals exactly when their union is an interval, and
  that \<open>SmallestCoverInterval\<close> returns a covering interval of least length. The sum in \<open>Stop\<close>
  wraps at 64 bits; \<open>ival_ok\<close> bounds the circle by \<open>2 ^ 62\<close>, below which it does not. The differences are between
  coordinates of one circle, and exact. The order that \<open>sort.Slice\<close> gives to intervals with the same start is
  unspecified, and its comparison \<open><=\<close> is not the strict order that function documents: the sort is a
  parameter, of which the lemmas assume that it permutes its input into order of the starts.
\<close>

subsection \<open>Definitions\<close>

record CircularInterval =
  circleSize :: int
  istart :: int
  IntervalLen :: int

definition IvalWithFullLen :: "int \<Rightarrow> CircularInterval result" where
  "IvalWithFullLen n =
     (if n \<le> 0 then Inl (Panic ''zero or negative length interval is not allowed'')
      else Inr \<lparr>circleSize = n, istart = 0, IntervalLen = n\<rparr>)"

definition IvalWithStartLen :: "int \<Rightarrow> int \<Rightarrow> int \<Rightarrow> CircularInterval result" where
  "IvalWithStartLen start len n =
     (if len = 0 then Inl (Panic ''empty interval'')
      else if 0 > start \<or> start \<ge> n then Inl (Panic ''Start out of bounds'')
      else if len \<ge> n then Inl (Panic ''full length is forbidden'')
      else Inr \<lparr>circleSize = n, istart = start, IntervalLen = len\<rparr>)"

definition IvalWithStartStop :: "int \<Rightarrow> int \<Rightarrow> int \<Rightarrow> CircularInterval result" where
  "IvalWithStartStop start stop n =
     (if start = stop then Inl (Panic ''empty interval'')
      else if 0 > start \<or> start \<ge> n then Inl (Panic ''Start out of bounds'')
      else if 0 > stop \<or> stop \<ge> n then Inl (Panic ''Stop out of bound'')
      else Inr \<lparr>circleSize = n, istart = start, IntervalLen = PositiveMod (stop - start) n\<rparr>)"

definition Start :: "CircularInterval \<Rightarrow> int" where
  "Start c = istart c"

definition Stop :: "CircularInterval \<Rightarrow> int" where
  "Stop c = PositiveMod (wrap64 (istart c + IntervalLen c)) (circleSize c)"

definition DoesWrapAround :: "CircularInterval \<Rightarrow> bool" where
  "DoesWrapAround c \<longleftrightarrow> Stop c < Start c"

definition IsFullCircle :: "CircularInterval \<Rightarrow> bool" where
  "IsFullCircle c \<longleftrightarrow> IntervalLen c = circleSize c"

definition DoesInclude :: "CircularInterval \<Rightarrow> int \<Rightarrow> bool result" where
  "DoesInclude c p =
     (if p < 0 \<or> p > circleSize c then Inl (Panic ''point does not belong to the circle'')
      else if IsFullCircle c then Inr True
      else if DoesWrapAround c then Inr (p < Stop c \<or> p \<ge> Start c)
      else Inr (p \<ge> Start c \<and> p < Stop c))"

text \<open>\<open>&&\<close> evaluates its second operand only if the first is true.\<close>

definition and_then :: "bool result \<Rightarrow> bool result \<Rightarrow> bool result" where
  "and_then a b = rbind a (\<lambda>x. if x then b else Inr False)"

definition DoesFullyContain :: "CircularInterval \<Rightarrow> CircularInterval \<Rightarrow> bool result" where
  "DoesFullyContain c other =
     (if IsFullCircle c then Inr True
      else if \<not> IsFullCircle c \<and> IsFullCircle other then Inr False
      else if \<not> DoesWrapAround c
      then and_then (DoesInclude c (Start other))
             (and_then (DoesInclude c (Stop other - 1)) (Inr (\<not> DoesWrapAround other)))
      else if \<not> DoesWrapAround other \<and> Stop other \<le> Stop c then Inr True
      else if \<not> DoesWrapAround other \<and> Start other \<ge> Start c then Inr True
      else if DoesWrapAround other \<and> Start other \<ge> Start c \<and> Stop other \<le> Stop c then Inr True
      else Inr False)"

definition TryOverlapWith :: "CircularInterval \<Rightarrow> CircularInterval \<Rightarrow> (bool \<times> CircularInterval) result" where
  "TryOverlapWith c other =
     (if circleSize c \<noteq> circleSize other then Inl (Panic ''not the same circle size'')
      else let n = circleSize c in
      if IsFullCircle c \<or> IsFullCircle other then rbind (IvalWithFullLen n) (\<lambda>i. Inr (True, i))
      else
        let c1 = PositiveMod (Stop c - Start c) n;
            o0 = PositiveMod (Start other - Start c) n;
            o1 = PositiveMod (Stop other - Start c) n
        in if 0 \<le> o0 \<and> o0 < o1 \<and> o1 \<le> c1 then Inr (True, c)
        else if 0 \<le> o1 \<and> o1 < o0 \<and> o0 \<le> c1 then rbind (IvalWithFullLen n) (\<lambda>i. Inr (True, i))
        else if 0 \<le> o0 \<and> o0 \<le> c1 \<and> c1 \<le> o1
        then rbind (IvalWithStartStop (Start c) (Stop other) n) (\<lambda>i. Inr (True, i))
        else if 0 \<le> o1 \<and> o1 \<le> c1 \<and> c1 < o0
        then rbind (IvalWithStartStop (Start other) (Stop c) n) (\<lambda>i. Inr (True, i))
        else if 0 \<le> c1 \<and> c1 \<le> o1 \<and> o1 < o0 then Inr (True, other)
        else Inr (False, \<lparr>circleSize = 0, istart = 0, IntervalLen = 0\<rparr>))"

text \<open>The buckets of \<open>SmallestCoverInterval\<close>, the last one apart: it is the one the loops merge into.\<close>

fun cover_merge ::
  "CircularInterval list \<times> CircularInterval \<Rightarrow> CircularInterval list \<Rightarrow>
   (CircularInterval list \<times> CircularInterval) result" where
  "cover_merge (bs, lst) [] = Inr (bs, lst)"
| "cover_merge (bs, lst) (interval # is) =
     rbind (TryOverlapWith lst interval) (\<lambda>(ok, newW).
       if ok then cover_merge (bs, newW) is else cover_merge (bs @ [lst], interval) is)"

fun cover_wrap ::
  "CircularInterval list \<Rightarrow> CircularInterval \<Rightarrow> (CircularInterval list \<times> CircularInterval) result" where
  "cover_wrap [] lst = Inr ([], lst)"
| "cover_wrap (b # bs) lst =
     rbind (TryOverlapWith lst b) (\<lambda>(ok, newW).
       if ok then cover_wrap bs newW else Inr (b # bs, lst))"

text \<open>The gap after each bucket; the first largest one is kept.\<close>

fun max_gap :: "int \<Rightarrow> CircularInterval list \<Rightarrow> nat \<Rightarrow> nat \<Rightarrow> int \<times> nat \<Rightarrow> int \<times> nat" where
  "max_gap n bs i 0 best = best"
| "max_gap n bs i (Suc m) best =
     (let nextW = bs ! ((i + 1) mod length bs);
          gap = PositiveMod (Start nextW - Stop (bs ! i)) n
      in max_gap n bs (i + 1) m (if gap > fst best then (gap, i) else best))"

definition SmallestCoverInterval ::
  "(CircularInterval list \<Rightarrow> CircularInterval list) \<Rightarrow> CircularInterval list \<Rightarrow> CircularInterval result" where
  "SmallestCoverInterval srt intervals =
     (case intervals of
        [] \<Rightarrow> Inl (Panic ''no windows passed'')
      | i0 # _ \<Rightarrow>
          let n = circleSize i0; sorted = srt intervals in
          rbind (require (tl sorted = [] \<or> circleSize (hd sorted) = n) (Panic ''inconsistent sizes'')) (\<lambda>_.
          rbind (cover_merge ([], hd sorted) (tl sorted)) (\<lambda>(bs, lst).
          rbind (cover_wrap bs lst) (\<lambda>(bs, lst).
          let overlaps = bs @ [lst] in
          if length overlaps = 1 then Inr (overlaps ! 0)
          else
            let (maxGap, posMaxGap) = max_gap n overlaps 0 (length overlaps) (0, 0) in
            if maxGap < 1 then Inl (Panic ''Max gap'')
            else IvalWithStartStop (Start (overlaps ! ((posMaxGap + 1) mod length overlaps)))
                   (Stop (overlaps ! posMaxGap)) n))))"

subsection \<open>The points of an interval\<close>

definition ival_ok :: "CircularInterval \<Rightarrow> bool" where
  "ival_ok c \<longleftrightarrow> 0 \<le> istart c \<and> istart c < circleSize c \<and> 0 < IntervalLen c \<and>
     IntervalLen c \<le> circleSize c \<and> circleSize c \<le> 2 ^ 62 \<and> (IsFullCircle c \<longrightarrow> istart c = 0)"

definition points :: "CircularInterval \<Rightarrow> int set" where
  "points c = {p. 0 \<le> p \<and> p < circleSize c \<and> (p - istart c) mod circleSize c < IntervalLen c}"

lemma mod_shift: "0 \<le> x \<Longrightarrow> x < n \<Longrightarrow> 0 \<le> y \<Longrightarrow> y < n \<Longrightarrow> (x - y) mod n = (if y \<le> x then x - y else x - y + n)"
  for x y n :: int
proof -
  assume a: "0 \<le> x" "x < n" "0 \<le> y" "y < n"
  have "(x - y + n) mod n = x - y + n" if "\<not> y \<le> x" using a that by (intro mod_pos_pos_trivial) auto
  then show ?thesis using a by (auto simp: mod_pos_pos_trivial)
qed

lemma mod_wrap: "0 \<le> x \<Longrightarrow> x < 2 * n \<Longrightarrow> x mod n = (if x < n then x else x - n)" for x n :: int
proof -
  assume a: "0 \<le> x" "x < 2 * n"
  have "(x - n) mod n = x - n" if "\<not> x < n" using a that by (intro mod_pos_pos_trivial) auto
  then show ?thesis using a by (auto simp: mod_pos_pos_trivial)
qed

lemma Stop_mod: "ival_ok c \<Longrightarrow> Stop c = (istart c + IntervalLen c) mod circleSize c"
  by (simp add: Stop_def ival_ok_def is_int64_def wrap64_id)

lemma Stop_eq:
  assumes "ival_ok c"
  shows "Stop c = (if istart c + IntervalLen c < circleSize c then istart c + IntervalLen c
    else istart c + IntervalLen c - circleSize c)"
  using assms mod_wrap [of "istart c + IntervalLen c" "circleSize c"]
  by (simp add: Stop_mod ival_ok_def)

lemma points_iff:
  assumes "ival_ok c" "0 \<le> p" "p < circleSize c"
  shows "p \<in> points c \<longleftrightarrow> (istart c \<le> p \<and> p < istart c + IntervalLen c) \<or> p < istart c + IntervalLen c - circleSize c"
  using assms mod_shift [of p "circleSize c" "istart c"] by (auto simp: points_def ival_ok_def)

lemma points_range: "p \<in> points c \<Longrightarrow> 0 \<le> p \<and> p < circleSize c"
  by (simp add: points_def)

lemma points_sub: "points c \<subseteq> {0..<circleSize c}"
  by (auto simp: points_def)

lemma istart_in_points: "ival_ok c \<Longrightarrow> istart c \<in> points c"
  by (simp add: points_def ival_ok_def)

lemma points_full: "ival_ok c \<Longrightarrow> IsFullCircle c \<Longrightarrow> points c = {0..<circleSize c}"
  by (auto simp: points_def IsFullCircle_def ival_ok_def)

text \<open>The queries. A point \<open>p = circleSize\<close> is accepted too.\<close>

lemma DoesInclude_points:
  assumes "ival_ok c" "0 \<le> p" "p < circleSize c"
  shows "DoesInclude c p = Inr (p \<in> points c)"
proof (cases "IsFullCircle c")
  case True
  then show ?thesis using assms points_full [OF assms(1)] by (auto simp: DoesInclude_def)
next
  case False
  then show ?thesis
    using assms points_iff [OF assms] Stop_eq [OF assms(1)]
    by (auto simp: DoesInclude_def DoesWrapAround_def Start_def IsFullCircle_def ival_ok_def)
qed

text \<open>The check of \<open>Stop() - 1\<close> leaves the circle when the other interval ends at the origin.\<close>

lemma DoesFullyContain_panics:
  assumes "ival_ok c" "ival_ok d" "circleSize c = circleSize d" "\<not> IsFullCircle c" "\<not> IsFullCircle d"
    "\<not> DoesWrapAround c" "istart d \<in> points c" "Stop d = 0"
  shows "\<exists>m. DoesFullyContain c d = Inl (Panic m)"
proof -
  have "DoesInclude c (Start d) = Inr True"
    using DoesInclude_points [OF assms(1), of "istart d"] assms(2,3,7) by (simp add: Start_def ival_ok_def)
  moreover have "DoesInclude c (Stop d - 1) = Inl (Panic ''point does not belong to the circle'')"
    by (simp add: DoesInclude_def assms(8))
  ultimately show ?thesis using assms(4-6) by (simp add: DoesFullyContain_def and_then_def)
qed

subsection \<open>Merging\<close>

text \<open>Two intervals of a circle, neither of them full, seen from the start of the first one.\<close>

lemma TryOverlapWith_cases:
  assumes "ival_ok c" "ival_ok d" "circleSize d = circleSize c" "\<not> IsFullCircle c" "\<not> IsFullCircle d"
  defines "n \<equiv> circleSize c"
  defines "o0 \<equiv> (istart d - istart c) mod n"
  defines "o1 \<equiv> (o0 + IntervalLen d) mod n"
  shows "TryOverlapWith c d =
    (if o0 < o1 \<and> o1 \<le> IntervalLen c then Inr (True, c)
     else if o1 < o0 \<and> o0 \<le> IntervalLen c then Inr (True, \<lparr>circleSize = n, istart = 0, IntervalLen = n\<rparr>)
     else if o0 \<le> IntervalLen c \<and> IntervalLen c \<le> o1
     then Inr (True, \<lparr>circleSize = n, istart = istart c, IntervalLen = o1\<rparr>)
     else if o1 \<le> IntervalLen c \<and> IntervalLen c < o0
     then Inr (True, \<lparr>circleSize = n, istart = istart d, IntervalLen = IntervalLen c - o0 + n\<rparr>)
     else if IntervalLen c \<le> o1 \<and> o1 < o0 then Inr (True, d)
     else Inr (False, \<lparr>circleSize = 0, istart = 0, IntervalLen = 0\<rparr>))"
proof -
  have r: "0 \<le> istart c" "istart c < n" "0 < IntervalLen c" "IntervalLen c < n"
    "0 \<le> istart d" "istart d < n" "0 < IntervalLen d" "IntervalLen d < n" and n: "0 < n"
    using assms(1-5) by (auto simp: ival_ok_def IsFullCircle_def n_def)
  have o: "0 \<le> o0" "o0 < n" "0 \<le> o1" "o1 < n" using n by (simp_all add: o0_def o1_def)
  have st: "Stop c = (istart c + IntervalLen c) mod n" "Stop d = (istart d + IntervalLen d) mod n"
    using assms(1-3) by (simp_all add: Stop_mod n_def)
  have c1: "(Stop c - istart c) mod n = IntervalLen c"
    using r(3,4) by (simp add: st mod_diff_left_eq)
  have e1: "(Stop d - istart c) mod n = o1"
    unfolding st o1_def o0_def by (simp add: mod_diff_left_eq mod_add_left_eq mod_add_right_eq algebra_simps)
  have e2: "(Stop c - istart d) mod n = IntervalLen c - o0 + n" if "IntervalLen c < o0"
  proof -
    have "(Stop c - istart d) mod n = (IntervalLen c - o0) mod n"
      unfolding st o0_def by (simp add: mod_diff_left_eq mod_diff_right_eq algebra_simps)
    then show ?thesis using mod_shift [of "IntervalLen c" n o0] r o that by simp
  qed
  have nz: "istart c \<noteq> Stop d" if "0 < o1" using e1 that by auto
  have nz': "istart d \<noteq> Stop c" if "IntervalLen c < o0" using e2 [OF that] o r that by auto
  have rng: "0 \<le> Stop c" "Stop c < n" "0 \<le> Stop d" "Stop d < n" using n by (simp_all add: st)
  have f: "circleSize c = n" "circleSize d = n" using assms(3) by (simp_all add: n_def)
  show ?thesis
    unfolding TryOverlapWith_def Let_def f Start_def
    using n r o rng assms(4,5) nz nz' e2
    by (simp add: c1 e1 o0_def [symmetric] IvalWithFullLen_def IvalWithStartStop_def)
qed

text \<open>Membership from another origin.\<close>

lemma points_from:
  assumes "ival_ok w" "circleSize w = n" "0 \<le> p" "p < n"
  shows "p \<in> points w \<longleftrightarrow>
    (let q = (p - s) mod n; o0 = (istart w - s) mod n in
     (o0 \<le> q \<and> q < o0 + IntervalLen w) \<or> q < o0 + IntervalLen w - n)"
proof -
  let ?q = "(p - s) mod n" and ?o = "(istart w - s) mod n"
  have n: "0 < n" using assms(3,4) by simp
  have "(?q - ?o) mod n = (p - istart w) mod n"
    by (simp add: mod_diff_left_eq mod_diff_right_eq)
  then have "p \<in> points w \<longleftrightarrow> (?q - ?o) mod n < IntervalLen w"
    using assms(2-4) by (simp add: points_def)
  then show ?thesis
    using mod_shift [of ?q n ?o] n assms(1,2) pos_mod_bound [OF n, of "p - s"] pos_mod_sign [OF n, of "p - s"]
    by (auto simp: Let_def ival_ok_def)
qed

lemma Stop_from:
  assumes "ival_ok w" "circleSize w = n"
  shows "(Stop w - s) mod n = ((istart w - s) mod n + IntervalLen w) mod n"
  using assms by (simp add: Stop_mod mod_diff_left_eq mod_add_left_eq diff_add_eq)

lemma points_subset_iff:
  assumes "ival_ok c" "ival_ok d" "circleSize c = circleSize d" "\<not> IsFullCircle c"
  shows "points d \<subseteq> points c \<longleftrightarrow> (istart d - istart c) mod circleSize c + IntervalLen d \<le> IntervalLen c"
    (is "_ \<longleftrightarrow> ?o + _ \<le> _")
proof
  have n: "0 < circleSize c" and l: "0 < IntervalLen c" "IntervalLen c < circleSize c" "0 < IntervalLen d"
    using assms by (auto simp: ival_ok_def IsFullCircle_def)
  have st: "0 \<le> Stop c" "Stop c < circleSize c" "(Stop c - istart c) mod circleSize c = IntervalLen c"
    using n l Stop_from [OF assms(1) refl, of "istart c"] by (simp_all add: Stop_def)
  note md = points_from [OF assms(2) assms(3) [symmetric], of _ "istart c"]
  {
    assume sub: "points d \<subseteq> points c"
    have "istart d \<in> points c" "Stop c \<notin> points c"
      using subsetD [OF sub istart_in_points [OF assms(2)]] st(3) by (simp_all add: points_def)
    then have "?o < IntervalLen c" "Stop c \<notin> points d" using sub by (simp add: points_def, blast)
    then show "?o + IntervalLen d \<le> IntervalLen c" using md [OF st(1,2)] unfolding st(3) by (simp add: Let_def)
  }
  assume o: "?o + IntervalLen d \<le> IntervalLen c"
  show "points d \<subseteq> points c"
  proof
    fix p assume p: "p \<in> points d"
    then have "0 \<le> p" "p < circleSize c" using points_range assms(3) by auto
    then have "(p - istart c) mod circleSize c < IntervalLen c" using md [of p] p o l by (simp add: Let_def) linarith
    then show "p \<in> points c" using \<open>0 \<le> p\<close> \<open>p < circleSize c\<close> by (simp add: points_def)
  qed
qed

lemma contain_arith:
  fixes sc lc sd ld n :: int
  assumes "0 \<le> sc" "sc < n" "0 < lc" "lc < n" "0 \<le> sd" "sd < n" "0 < ld" "ld < n"
  defines "tc \<equiv> if sc + lc < n then sc + lc else sc + lc - n"
  defines "td \<equiv> if sd + ld < n then sd + ld else sd + ld - n"
  shows "(if tc < sc then if td < sd then sc \<le> sd \<and> td \<le> tc else td \<le> tc \<or> sc \<le> sd
      else sc \<le> sd \<and> sd < tc \<and> sc \<le> td - 1 \<and> td - 1 < tc \<and> \<not> td < sd) \<longleftrightarrow>
    (if sc \<le> sd then sd - sc else sd - sc + n) + ld \<le> lc"
  using assms(1-8) unfolding tc_def td_def
  by (cases "sc + lc < n"; cases "sd + ld < n"; cases "sc \<le> sd") (simp; linarith)+

text \<open>The containment test answers the inclusion of the points, when it answers.\<close>

lemma DoesFullyContain_points:
  assumes "ival_ok c" "ival_ok d" "circleSize c = circleSize d" "DoesFullyContain c d = Inr b"
  shows "b \<longleftrightarrow> points d \<subseteq> points c"
proof (cases "IsFullCircle c \<or> IsFullCircle d")
  case True
  have "points c \<noteq> {0..<circleSize c}" if "\<not> IsFullCircle c"
  proof -
    have "Stop c \<notin> points c" "0 \<le> Stop c" "Stop c < circleSize c"
      using points_iff [OF assms(1), of "Stop c"] Stop_eq [OF assms(1)] assms(1) that
      by (auto simp: ival_ok_def IsFullCircle_def split: if_splits)
    then show ?thesis by auto
  qed
  moreover have "points c = {0..<circleSize c}" if "IsFullCircle c" using points_full [OF assms(1) that] .
  moreover have "b = IsFullCircle c" using True assms(4) by (cases "IsFullCircle c") (simp_all add: DoesFullyContain_def)
  ultimately show ?thesis
    using True points_sub [of c] points_sub [of d] points_full [OF assms(2)] assms(3)
    by (cases "IsFullCircle c") auto
next
  case False
  have r: "0 \<le> istart c" "istart c < circleSize c" "0 < IntervalLen c" "IntervalLen c < circleSize c"
    "0 \<le> istart d" "istart d < circleSize c" "0 < IntervalLen d" "IntervalLen d < circleSize c"
    using assms(1-3) False by (auto simp: ival_ok_def IsFullCircle_def)
  have sub: "points d \<subseteq> points c \<longleftrightarrow>
      (if istart c \<le> istart d then istart d - istart c else istart d - istart c + circleSize c) + IntervalLen d \<le> IntervalLen c"
    using points_subset_iff [OF assms(1-3)] False r mod_shift [of "istart d" "circleSize c" "istart c"] by simp
  have stop: "Stop c = (if istart c + IntervalLen c < circleSize c then istart c + IntervalLen c
      else istart c + IntervalLen c - circleSize c)" "Stop d = (if istart d + IntervalLen d < circleSize c
      then istart d + IntervalLen d else istart d + IntervalLen d - circleSize c)"
    using Stop_eq [OF assms(1)] Stop_eq [OF assms(2)] assms(3) by simp_all
  have res: "b \<longleftrightarrow> (if Stop c < istart c
      then if Stop d < istart d then istart c \<le> istart d \<and> Stop d \<le> Stop c else Stop d \<le> Stop c \<or> istart c \<le> istart d
      else istart c \<le> istart d \<and> istart d < Stop c \<and> istart c \<le> Stop d - 1 \<and> Stop d - 1 < Stop c \<and> \<not> Stop d < istart d)"
    using assms(4) False r
    by (cases "Stop c < istart c"; cases "Stop d < istart d")
      (auto simp: DoesFullyContain_def and_then_def DoesInclude_def DoesWrapAround_def Start_def split: if_splits)
  show ?thesis unfolding sub res using contain_arith [OF r] unfolding stop .
qed

lemma TryOverlapWith_correct:
  assumes "ival_ok c" "ival_ok d" "circleSize d = circleSize c"
  obtains b w where "TryOverlapWith c d = Inr (b, w)"
    "b \<Longrightarrow> ival_ok w \<and> circleSize w = circleSize c \<and> points w = points c \<union> points d"
    "\<not> b \<Longrightarrow> points c \<inter> points d = {} \<and> Stop c \<notin> points d \<and> Stop d \<notin> points c"
proof (cases "IsFullCircle c \<or> IsFullCircle d")
  case True
  let ?w = "\<lparr>circleSize = circleSize c, istart = 0, IntervalLen = circleSize c\<rparr>"
  have n: "0 < circleSize c" using assms(1) by (simp add: ival_ok_def)
  have "TryOverlapWith c d = Inr (True, ?w)"
    using True n assms(3) by (simp add: TryOverlapWith_def IvalWithFullLen_def Let_def)
  moreover have w: "ival_ok ?w" using n assms(1) by (simp add: ival_ok_def)
  moreover have "points ?w = {0..<circleSize c}" using n by (auto simp: points_def)
  moreover have "{0..<circleSize c} = points c \<union> points d"
    using True points_full [OF assms(1)] points_full [OF assms(2)] points_sub [of c] points_sub [of d] assms(3)
    by (elim disjE) (simp_all add: Un_absorb1 Un_absorb2)
  ultimately show thesis by (intro that) auto
next
  case False
  define n o0 o1 where d: "n = circleSize c" "o0 = (istart d - istart c) mod n" "o1 = (o0 + IntervalLen d) mod n"
  note cases = TryOverlapWith_cases [OF assms(1-3), folded d(1), folded d(2), folded d(3)]
  have r: "0 \<le> istart c" "istart c < n" "0 < IntervalLen c" "IntervalLen c < n"
    "0 \<le> istart d" "istart d < n" "0 < IntervalLen d" "IntervalLen d < n" and n: "0 < n"
    using assms False by (auto simp: ival_ok_def IsFullCircle_def d(1))
  have o: "0 \<le> o0" "o0 < n" using n by (simp_all add: d(2))
  have o1: "o1 = (if o0 + IntervalLen d < n then o0 + IntervalLen d else o0 + IntervalLen d - n)"
    unfolding d(3) using o r by (intro mod_wrap) linarith+
  let ?q = "\<lambda>p. (p - istart c) mod n"
  have q: "0 \<le> ?q p" "?q p < n" for p using n by simp_all
  have mc: "p \<in> points c \<longleftrightarrow> ?q p < IntervalLen c" if "0 \<le> p" "p < n" for p
    using that by (simp add: points_def d(1))
  have md: "p \<in> points d \<longleftrightarrow> (o0 \<le> ?q p \<and> ?q p < o0 + IntervalLen d) \<or> ?q p < o0 + IntervalLen d - n"
    if "0 \<le> p" "p < n" for p
    using points_from [OF assms(2), of n p "istart c"] that assms(3) by (simp add: d(1,2) Let_def)
  have eqI: "points w = points c \<union> points d"
    if w: "circleSize w = n" "\<And>p. 0 \<le> p \<Longrightarrow> p < n \<Longrightarrow> p \<in> points w \<longleftrightarrow> W (?q p)"
      and W: "\<And>q. 0 \<le> q \<Longrightarrow> q < n \<Longrightarrow>
        W q \<longleftrightarrow> q < IntervalLen c \<or> (o0 \<le> q \<and> q < o0 + IntervalLen d) \<or> q < o0 + IntervalLen d - n" for w W
  proof (rule set_eqI)
    fix p
    show "p \<in> points w \<longleftrightarrow> p \<in> points c \<union> points d"
    proof (cases "0 \<le> p \<and> p < n")
      case True
      then show ?thesis using w(2) [of p] W [OF q, of p] mc [of p] md [of p] by simp
    next
      case False
      then show ?thesis
        using points_range [of p c] points_range [of p d] points_range [of p w] w(1) assms(3)
        unfolding d(1) by auto
    qed
  qed
  have st: "?q (Stop c) = IntervalLen c" "?q (Stop d) = o1"
    using Stop_from [OF assms(1), of n "istart c"] Stop_from [OF assms(2), of n "istart c"] n r(3,4) assms(3)
    unfolding d by simp_all
  have rng: "0 \<le> Stop c" "Stop c < n" "0 \<le> Stop d" "Stop d < n"
    using n assms(3) unfolding d by (simp_all add: Stop_def)
  have n62: "n \<le> 2 ^ 62" using assms(1) by (simp add: ival_ok_def d(1))
  note arith = o o1 r
  consider (inside) "o0 < o1" "o1 \<le> IntervalLen c" | (full) "o1 < o0" "o0 \<le> IntervalLen c"
    | (right) "o0 \<le> IntervalLen c" "IntervalLen c \<le> o1" "\<not> (o0 < o1 \<and> o1 \<le> IntervalLen c)" "\<not> o1 < o0"
    | (left) "o1 \<le> IntervalLen c" "IntervalLen c < o0" | (around) "IntervalLen c < o1" "o1 < o0"
    | (apart) "IntervalLen c < o0" "o0 \<le> o1"
    using arith by (cases "o0 + IntervalLen d < n") (simp_all, linarith+)
  then show thesis
  proof cases
    case inside
    have "points c = points c \<union> points d"
      by (rule eqI [where W = "\<lambda>q. q < IntervalLen c"])
        (use mc d(1) inside arith in \<open>auto split: if_splits\<close>)
    with inside assms(1) show thesis using False by (intro that [of True c]) (simp_all add: cases)
  next
    case full
    let ?w = "\<lparr>circleSize = n, istart = 0, IntervalLen = n\<rparr>"
    have "points ?w = points c \<union> points d"
      by (rule eqI [where W = "\<lambda>_. True"])
        (use n full arith in \<open>auto simp: points_def split: if_splits\<close>)
    with full show thesis using False n n62 by (intro that [of True ?w]) (simp_all add: cases d(1) ival_ok_def)
  next
    case right
    let ?w = "\<lparr>circleSize = n, istart = istart c, IntervalLen = o1\<rparr>"
    have ok: "ival_ok ?w" using right arith n62 by (auto simp: ival_ok_def IsFullCircle_def split: if_splits)
    have "points ?w = points c \<union> points d"
      by (rule eqI [where W = "\<lambda>q. q < o1"])
        (use right arith in \<open>auto simp: points_def split: if_splits\<close>)
    with right ok show thesis using False by (intro that [of True ?w]) (auto simp: cases d(1))
  next
    case left
    let ?w = "\<lparr>circleSize = n, istart = istart d, IntervalLen = IntervalLen c - o0 + n\<rparr>"
    have ok: "ival_ok ?w" using left arith n62 by (auto simp: ival_ok_def IsFullCircle_def)
    have "points ?w = points c \<union> points d"
    proof (rule eqI [where W = "\<lambda>q. o0 \<le> q \<or> q < IntervalLen c"])
      fix p assume "0 \<le> p" "p < n"
      then show "p \<in> points ?w \<longleftrightarrow> o0 \<le> ?q p \<or> ?q p < IntervalLen c"
        using points_from [OF ok _, of n p "istart c"] q [of p] left r(3) unfolding d(2) by (simp add: Let_def)
    qed (use left arith in \<open>auto split: if_splits\<close>)
    with left ok show thesis using False by (intro that [of True ?w]) (auto simp: cases d(1))
  next
    case around
    have "points d = points c \<union> points d"
      by (rule eqI [where W = "\<lambda>q. (o0 \<le> q \<and> q < o0 + IntervalLen d) \<or> q < o0 + IntervalLen d - n"])
        (use md d(1) assms(3) around arith in \<open>auto split: if_splits\<close>)
    with around assms(2,3) show thesis using False by (intro that [of True d]) (auto simp: cases d(1))
  next
    case apart
    have "p \<notin> points d" if "p \<in> points c" for p
    proof -
      have "\<not> (Q < IntervalLen c \<and> ((o0 \<le> Q \<and> Q < o0 + IntervalLen d) \<or> Q < o0 + IntervalLen d - n))"
        if "0 \<le> Q" for Q
        using apart arith that by (auto split: if_splits)
      then show ?thesis
        using points_range [OF that] that mc [of p] md [of p] q(1) [of p] unfolding d(1) [symmetric] by blast
    qed
    moreover have "Stop c \<notin> points d" "Stop d \<notin> points c"
      using mc [OF rng(3,4)] md [OF rng(1,2)] st apart arith by (auto split: if_splits)
    ultimately show thesis using False apart by (intro that [of False]) (auto simp: cases)
  qed
qed

subsection \<open>Buckets\<close>

definition before :: "CircularInterval \<Rightarrow> CircularInterval \<Rightarrow> bool" where
  "before x y \<longleftrightarrow> istart x + IntervalLen x < istart y"

definition on_circle :: "int \<Rightarrow> CircularInterval \<Rightarrow> bool" where
  "on_circle n c \<longleftrightarrow> ival_ok c \<and> circleSize c = n"

text \<open>
  Either the buckets stand in order before the last one, or the last one has reached the start of every
  other interval, and will absorb them all.
\<close>

definition buckets_ok :: "CircularInterval list \<Rightarrow> CircularInterval \<Rightarrow> CircularInterval list \<Rightarrow> bool" where
  "buckets_ok bs l rest \<longleftrightarrow>
     (sorted_wrt before bs \<and> (\<forall>x\<in>set bs. before x l) \<and> (\<forall>y\<in>set rest. istart l \<le> istart y)) \<or>
     (\<forall>x\<in>set bs \<union> set rest. istart x \<in> points l)"

lemma not_full_pair: "on_circle n c \<Longrightarrow> \<not> IsFullCircle c \<Longrightarrow>
  0 \<le> istart c \<and> istart c < n \<and> 0 < IntervalLen c \<and> IntervalLen c < n"
  by (auto simp: on_circle_def ival_ok_def IsFullCircle_def)

lemma overlap_total:
  assumes "on_circle n c" "on_circle n d"
  obtains b w where "TryOverlapWith c d = Inr (b, w)"
    "b \<Longrightarrow> on_circle n w \<and> points w = points c \<union> points d"
    "\<not> b \<Longrightarrow> points c \<inter> points d = {}"
proof -
  have c: "ival_ok c" "ival_ok d" "circleSize c = n" "circleSize d = circleSize c"
    using assms by (auto simp: on_circle_def)
  obtain b w where "TryOverlapWith c d = Inr (b, w)"
    "b \<Longrightarrow> ival_ok w \<and> circleSize w = circleSize c \<and> points w = points c \<union> points d"
    "\<not> b \<Longrightarrow> points c \<inter> points d = {} \<and> Stop c \<notin> points d \<and> Stop d \<notin> points c"
    using TryOverlapWith_correct [OF c(1,2,4)] by metis
  then show thesis using c(3) by (intro that [of b w]) (auto simp: on_circle_def)
qed

lemma overlap_not_full:
  assumes "on_circle n l" "on_circle n d" "\<not> IsFullCircle l" "\<not> IsFullCircle d" "TryOverlapWith l d = Inr (b, w)"
  defines "o0 \<equiv> (istart d - istart l) mod n"
  shows "if b then istart w = istart l \<or> n \<le> o0 + IntervalLen d else IntervalLen l < o0"
proof -
  define o1 where "o1 = (o0 + IntervalLen d) mod n"
  note r = not_full_pair [OF assms(1,3)] not_full_pair [OF assms(2,4)]
  have n: "circleSize l = n" "circleSize d = n" "ival_ok l" "ival_ok d"
    using assms(1,2) by (auto simp: on_circle_def)
  have o: "0 \<le> o0" "o0 < n" using r by (simp_all add: o0_def)
  have o1: "o1 = (if o0 + IntervalLen d < n then o0 + IntervalLen d else o0 + IntervalLen d - n)"
    unfolding o1_def using r o by (intro mod_wrap) auto
  note cases = TryOverlapWith_cases [OF n(3,4) _ assms(3,4), unfolded n(1,2), OF refl, folded o0_def, folded o1_def]
  show ?thesis
    using assms(5) r o o1 unfolding cases by (cases "o0 + IntervalLen d < n") (simp_all split: if_splits, clarsimp)
qed

lemma overlap_sorted:
  assumes "on_circle n l" "on_circle n d" "istart l \<le> istart d" "TryOverlapWith l d = Inr (b, w)"
  shows "if b then istart w = istart l \<or> ({0..istart l} \<subseteq> points w \<and> {istart d..<n} \<subseteq> points w) else before l d"
proof -
  obtain b' w' where ov: "TryOverlapWith l d = Inr (b', w')" "b' \<Longrightarrow> on_circle n w' \<and> points w' = points l \<union> points d"
    using overlap_total [OF assms(1,2)] by metis
  have e [simp]: "b' = b" "w' = w" using ov(1) assms(4) by simp_all
  have n: "circleSize l = n" "circleSize d = n" "ival_ok l" "ival_ok d"
    using assms(1,2) by (auto simp: on_circle_def)
  have r: "0 \<le> istart l" "istart l < n" "0 \<le> istart d" "istart d < n" using n by (auto simp: ival_ok_def)
  show ?thesis
  proof (cases "IsFullCircle l \<or> IsFullCircle d")
    case True
    then have "b" using assms(4) n r by (simp add: TryOverlapWith_def IvalWithFullLen_def Let_def)
    moreover have "{0..<n} \<subseteq> points l \<union> points d"
      using True points_full [OF n(3)] points_full [OF n(4)] n(1,2) by auto
    moreover have "{0..istart l} \<subseteq> {0..<n}" "{istart d..<n} \<subseteq> {0..<n}" using r by auto
    ultimately show ?thesis using ov(2) by (metis e(1,2) subset_trans)
  next
    case False
    have o: "(istart d - istart l) mod n = istart d - istart l" using r assms(3) by (simp add: mod_pos_pos_trivial)
    have "{0..istart l} \<subseteq> points l \<union> points d \<and> {istart d..<n} \<subseteq> points l \<union> points d"
      if w: "n \<le> istart d - istart l + IntervalLen d"
    proof -
      have pt: "x \<in> points l \<union> points d" if "0 \<le> x" "x < n" "x \<le> istart l \<or> istart d \<le> x" for x
        using points_iff [OF n(4), of x] istart_in_points [OF n(3)] that w n(2) r(1) by (cases "x = istart l") auto
      show ?thesis by (intro conjI subsetI pt) (use r in auto)
    qed
    with overlap_not_full [OF assms(1,2) _ _ assms(4)] False ov(2) show ?thesis
      unfolding o before_def by (auto split: if_splits)
  qed
qed

lemma absorbed_overlaps:
  assumes "on_circle n l" "on_circle n d" "istart d \<in> points l"
  obtains w where "TryOverlapWith l d = Inr (True, w)" "on_circle n w" "points w = points l \<union> points d"
proof -
  obtain b w where ov: "TryOverlapWith l d = Inr (b, w)" "b \<Longrightarrow> on_circle n w \<and> points w = points l \<union> points d"
    "\<not> b \<Longrightarrow> points l \<inter> points d = {}"
    using overlap_total [OF assms(1,2)] by metis
  have "istart d \<in> points d" using assms(2) istart_in_points by (simp add: on_circle_def)
  then have b using ov(3) assms(3) by auto
  then show thesis using ov(1,2) by (intro that [of w]) auto
qed

text \<open>One step of the merging loop keeps the shape of the buckets.\<close>

lemma buckets_step:
  assumes "list_all (on_circle n) (l # d # bs @ rest)" "buckets_ok bs l (d # rest)" "sorted (map istart (d # rest))"
    "TryOverlapWith l d = Inr (b, w)"
  shows "if b then on_circle n w \<and> points w = points l \<union> points d \<and> buckets_ok bs w rest
    else buckets_ok (bs @ [l]) d rest"
proof -
  have on: "on_circle n l" "on_circle n d" "\<forall>x\<in>set bs \<union> set rest. on_circle n x"
    using assms(1) by (auto simp: list_all_iff)
  have srt: "\<forall>y\<in>set rest. istart d \<le> istart y" using assms(3) by auto
  show ?thesis
  proof (cases "\<forall>x\<in>set bs \<union> set (d # rest). istart x \<in> points l")
    case True
    obtain w' where "TryOverlapWith l d = Inr (True, w')" "on_circle n w'" "points w' = points l \<union> points d"
      using absorbed_overlaps [OF on(1,2)] True by auto
    then show ?thesis using assms(4) True by (auto simp: buckets_ok_def)
  next
    case False
    then have nice: "sorted_wrt before bs" "\<forall>x\<in>set bs. before x l" "istart l \<le> istart d"
      using assms(2) by (auto simp: buckets_ok_def)
    obtain b' w' where ov: "TryOverlapWith l d = Inr (b', w')" "b' \<Longrightarrow> on_circle n w' \<and> points w' = points l \<union> points d"
      using overlap_total [OF on(1,2)] by metis
    have e: "b' = b" "w' = w" using ov(1) assms(4) by simp_all
    have rng: "0 \<le> istart x \<and> istart x \<le> istart l" if "x \<in> set bs" for x
      using on(3) [rule_format, of x] nice(2) [rule_format, of x] that by (simp add: on_circle_def ival_ok_def before_def)
    have rng': "istart d \<le> istart x \<and> istart x < n" if "x \<in> set rest" for x
      using on(3) [rule_format, of x] srt that by (simp add: on_circle_def ival_ok_def)
    have far: "\<forall>x\<in>set bs. before x d" using nice(2,3) by (auto simp: before_def)
    show ?thesis
    proof (cases b)
      case True
      then consider "istart w = istart l" | "{0..istart l} \<subseteq> points w" "{istart d..<n} \<subseteq> points w"
        using overlap_sorted [OF on(1,2) nice(3) assms(4)] by auto
      then have "buckets_ok bs w rest"
      proof cases
        case 1
        then show ?thesis using nice srt by (fastforce simp: buckets_ok_def before_def)
      next
        case 2
        have "istart x \<in> points w" if "x \<in> set bs \<union> set rest" for x
          using rng [of x] rng' [of x] 2 that by (auto simp: subset_iff)
        then show ?thesis by (simp add: buckets_ok_def)
      qed
      then show ?thesis using True ov(2) by (simp add: e)
    next
      case False
      then have "before l d" using overlap_sorted [OF on(1,2) nice(3) assms(4)] by simp
      then show ?thesis using False nice far srt by (auto simp: buckets_ok_def sorted_wrt_append)
    qed
  qed
qed

definition covered :: "CircularInterval list \<Rightarrow> int set" where
  "covered xs = (\<Union>x\<in>set xs. points x)"

lemma covered_simps [simp]: "covered [] = {}" "covered (x # xs) = points x \<union> covered xs"
  "covered (xs @ ys) = covered xs \<union> covered ys"
  by (auto simp: covered_def)

lemma cover_merge_ok:
  assumes "list_all (on_circle n) (l # bs @ rest)" "buckets_ok bs l rest" "sorted (map istart rest)"
  shows "\<exists>bs' l'. cover_merge (bs, l) rest = Inr (bs', l') \<and> list_all (on_circle n) (l' # bs') \<and>
    buckets_ok bs' l' [] \<and> covered (l' # bs') = covered (l # bs @ rest)"
  using assms
proof (induction rest arbitrary: bs l)
  case (Cons d rest)
  have on: "on_circle n l" "on_circle n d" using Cons.prems(1) by auto
  obtain b w where ov: "TryOverlapWith l d = Inr (b, w)" using overlap_total [OF on] by metis
  have step: "if b then on_circle n w \<and> points w = points l \<union> points d \<and> buckets_ok bs w rest
      else buckets_ok (bs @ [l]) d rest"
    by (rule buckets_step [OF _ Cons.prems(2,3) ov]) (use Cons.prems(1) in auto)
  have srt: "sorted (map istart rest)" using Cons.prems(3) by simp
  show ?case
  proof (cases b)
    case True
    have "covered (w # bs @ rest) = covered (l # bs @ d # rest)" using True step by auto
    with Cons.IH [of w bs] True step srt Cons.prems(1) show ?thesis by (simp add: ov)
  next
    case False
    have "covered (d # (bs @ [l]) @ rest) = covered (l # bs @ d # rest)" by auto
    with Cons.IH [of d "bs @ [l]"] False step srt Cons.prems(1) show ?thesis by (simp add: ov)
  qed
qed simp

lemma overlap_wrap:
  assumes "on_circle n l" "on_circle n b" "before b l" "TryOverlapWith l b = Inr (ok, w)"
  shows "if ok then istart w = istart l else istart l + IntervalLen l < istart b + n"
proof -
  have r: "0 \<le> istart b" "0 < IntervalLen b" "istart l < n" "istart b + IntervalLen b < istart l"
    using assms(1-3) by (auto simp: on_circle_def ival_ok_def before_def)
  have "\<not> IsFullCircle l" "\<not> IsFullCircle b"
    using assms(1,2) r by (auto simp: on_circle_def ival_ok_def IsFullCircle_def)
  moreover have "(istart b - istart l) mod n = istart b - istart l + n"
    using r mod_shift [of "istart b" n "istart l"] by simp
  ultimately show ?thesis
    using overlap_not_full [OF assms(1,2) _ _ assms(4)] r by (auto split: if_splits)
qed

lemma cover_wrap_ok:
  assumes "list_all (on_circle n) (l # bs)" "buckets_ok bs l []"
  shows "\<exists>bs' l'. cover_wrap bs l = Inr (bs', l') \<and> list_all (on_circle n) (l' # bs') \<and>
    covered (l' # bs') = covered (l # bs) \<and>
    (bs' \<noteq> [] \<longrightarrow> sorted_wrt before (bs' @ [l']) \<and> istart l' + IntervalLen l' < istart (hd bs') + n)"
  using assms
proof (induction bs arbitrary: l)
  case (Cons b bs)
  have on: "on_circle n l" "on_circle n b" using Cons.prems(1) by auto
  obtain ok w where ov: "TryOverlapWith l b = Inr (ok, w)" "ok \<Longrightarrow> on_circle n w \<and> points w = points l \<union> points b"
    using overlap_total [OF on] by metis
  have "ok \<and> (\<forall>x\<in>set bs. istart x \<in> points w) \<or> sorted_wrt before (b # bs @ [l])"
  proof (cases "\<forall>x\<in>set (b # bs). istart x \<in> points l")
    case True
    then have "istart b \<in> points l" by simp
    from absorbed_overlaps [OF on this] obtain w' where "TryOverlapWith l b = Inr (True, w')" by metis
    then show ?thesis using ov True by auto
  next
    case False
    then show ?thesis using Cons.prems(2) by (auto simp: buckets_ok_def sorted_wrt_append)
  qed
  then consider (swallow) ok "buckets_ok bs w []" | (nice) "sorted_wrt before (b # bs @ [l])"
    by (auto simp: buckets_ok_def)
  then show ?case
  proof cases
    case swallow
    then show ?thesis using Cons.IH [of w] Cons.prems(1) ov by (simp add: Un_assoc)
  next
    case nice
    then have w: "if ok then istart w = istart l else istart l + IntervalLen l < istart b + n"
      by (intro overlap_wrap [OF on _ ov(1)]) (simp add: sorted_wrt_append)
    show ?thesis
    proof (cases ok)
      case True
      then have "buckets_ok bs w []" using w nice by (auto simp: buckets_ok_def before_def sorted_wrt_append)
      then show ?thesis using True Cons.IH [of w] Cons.prems(1) ov by (simp add: Un_assoc)
    next
      case False
      then show ?thesis using w nice Cons.prems(1) ov(1) by simp
    qed
  qed
qed simp

subsection \<open>Gaps\<close>

text \<open>
  Disjoint buckets in order, the last one ending before the first one comes round again. \<open>edge\<close> is the
  start of a bucket on the line, the first one counted again one turn later.
\<close>

definition ring :: "int \<Rightarrow> CircularInterval list \<Rightarrow> bool" where
  "ring n xs \<longleftrightarrow> list_all (on_circle n) xs \<and> sorted_wrt before xs \<and> 2 \<le> length xs \<and>
     istart (last xs) + IntervalLen (last xs) < istart (hd xs) + n"

definition edge :: "int \<Rightarrow> CircularInterval list \<Rightarrow> nat \<Rightarrow> int" where
  "edge n xs i = (if i < length xs then istart (xs ! i) else istart (xs ! 0) + n)"

definition end_of :: "CircularInterval list \<Rightarrow> nat \<Rightarrow> int" where
  "end_of xs i = istart (xs ! i) + IntervalLen (xs ! i)"

definition gap :: "int \<Rightarrow> CircularInterval list \<Rightarrow> nat \<Rightarrow> int" where
  "gap n xs i = PositiveMod (Start (xs ! ((i + 1) mod length xs)) - Stop (xs ! i)) n"

lemma ring_nth:
  assumes "ring n xs" "i < length xs"
  shows "on_circle n (xs ! i)" "0 \<le> istart (xs ! i)" "istart (xs ! i) < n" "0 < IntervalLen (xs ! i)"
    "edge n xs i < end_of xs i"
  using assms by (auto simp: ring_def list_all_length on_circle_def ival_ok_def edge_def end_of_def)

lemma ring_order: "ring n xs \<Longrightarrow> i < j \<Longrightarrow> j < length xs \<Longrightarrow> end_of xs i < edge n xs j"
  by (auto simp: ring_def sorted_wrt_iff_nth_less before_def edge_def end_of_def)

lemma ring_end_mono: "ring n xs \<Longrightarrow> i \<le> j \<Longrightarrow> j < length xs \<Longrightarrow> end_of xs i \<le> end_of xs j"
  using ring_order [of n xs i j] ring_nth(5) [of n xs j] by (cases "i = j") auto

lemma ring_edge_mono: "ring n xs \<Longrightarrow> i \<le> j \<Longrightarrow> j < length xs \<Longrightarrow> edge n xs i \<le> edge n xs j"
  using ring_order [of n xs i j] ring_nth(5) [of n xs i] by (cases "i = j") auto

lemma ring_close:
  assumes "ring n xs" "i < length xs"
  shows "end_of xs i < edge n xs 0 + n"
proof -
  have "xs \<noteq> []" using assms(2) by auto
  then have "end_of xs (length xs - 1) < edge n xs 0 + n"
    using assms by (auto simp: ring_def edge_def end_of_def last_conv_nth hd_conv_nth)
  moreover have "end_of xs i \<le> end_of xs (length xs - 1)"
    by (rule ring_end_mono [OF assms(1)]) (use assms(2) in auto)
  ultimately show ?thesis by simp
qed

lemma ring_next:
  assumes "ring n xs" "i < length xs"
  shows "end_of xs i < edge n xs (i + 1)"
  using ring_close [OF assms] ring_order [OF assms(1), of i "i + 1"] assms(2)
  by (cases "i + 1 < length xs"; cases "xs = []") (auto simp: edge_def)

lemma edge_mod:
  assumes "i < length xs"
  shows "(istart (xs ! ((i + 1) mod length xs)) - a) mod n = (edge n xs (i + 1) - a) mod n"
    "(a - istart (xs ! ((i + 1) mod length xs))) mod n = (a - edge n xs (i + 1)) mod n"
proof -
  let ?x = "istart (xs ! ((i + 1) mod length xs))"
  have "edge n xs (i + 1) = ?x \<or> edge n xs (i + 1) = ?x + n"
    using assms by (cases "i + 1 = length xs") (auto simp: edge_def)
  moreover have "(?x + n - a) mod n = (?x - a) mod n" "(a - (?x + n)) mod n = (a - ?x) mod n"
    by (simp add: diff_add_eq [symmetric], metis diff_diff_add minus_mod_self2)
  ultimately show "(?x - a) mod n = (edge n xs (i + 1) - a) mod n" "(a - ?x) mod n = (a - edge n xs (i + 1)) mod n"
    by auto
qed

lemma ring_gap:
  assumes "ring n xs" "i < length xs"
  shows "gap n xs i = edge n xs (i + 1) - end_of xs i" "0 < gap n xs i" "gap n xs i < n"
proof -
  have n: "0 < n" using ring_nth(2,3) [OF assms] by simp
  have "gap n xs i = (istart (xs ! ((i + 1) mod length xs)) - end_of xs i) mod n"
    using ring_nth(1) [OF assms] n
    by (simp add: gap_def Start_def Stop_mod on_circle_def end_of_def mod_diff_right_eq)
  also have "\<dots> = (edge n xs (i + 1) - end_of xs i) mod n" by (rule edge_mod(1) [OF assms(2)])
  also have "\<dots> = edge n xs (i + 1) - end_of xs i"
  proof (rule mod_pos_pos_trivial)
    show "0 \<le> edge n xs (i + 1) - end_of xs i" using ring_next [OF assms] by simp
    have "edge n xs (i + 1) \<le> edge n xs 0 + n"
      using ring_nth(2) [OF assms(1), of 0] ring_nth(3) [OF assms(1), of "i + 1"] assms(2)
      by (cases "i + 1 < length xs") (auto simp: edge_def)
    moreover have "edge n xs 0 < end_of xs i"
      using ring_nth(5) [OF assms] ring_edge_mono [OF assms(1), of 0 i] assms(2) by simp
    ultimately show "edge n xs (i + 1) - end_of xs i < n" by simp
  qed
  finally show e: "gap n xs i = edge n xs (i + 1) - end_of xs i" .
  show "0 < gap n xs i" using ring_next [OF assms] by (simp add: e)
  show "gap n xs i < n" using n by (simp add: gap_def)
qed

lemma max_gap_spec:
  "max_gap n xs i m best = (g, j) \<Longrightarrow>
   fst best \<le> g \<and> ((g, j) = best \<or> (i \<le> j \<and> j < i + m \<and> g = gap n xs j)) \<and> (\<forall>i'. i \<le> i' \<longrightarrow> i' < i + m \<longrightarrow> gap n xs i' \<le> g)"
proof (induction m arbitrary: i best)
  case (Suc m)
  define best' where "best' = (if gap n xs i > fst best then (gap n xs i, i) else best)"
  have "max_gap n xs (i + 1) m best' = (g, j)"
    using Suc.prems unfolding max_gap.simps Let_def gap_def [symmetric] best'_def [symmetric] .
  note ih = Suc.IH [OF this]
  have b: "fst best \<le> fst best'" "gap n xs i \<le> fst best'" "best' = best \<or> best' = (gap n xs i, i)"
    by (auto simp: best'_def)
  have "gap n xs i' \<le> g" if "i \<le> i'" "i' < i + Suc m" for i'
    using ih b that by (cases "i' = i") auto
  then show ?case using ih b by auto
qed simp

text \<open>The interval left when the gap after bucket \<open>j\<close> is cut out of the circle.\<close>

definition outside_gap :: "int \<Rightarrow> CircularInterval list \<Rightarrow> nat \<Rightarrow> CircularInterval" where
  "outside_gap n xs j =
     \<lparr>circleSize = n, istart = istart (xs ! ((j + 1) mod length xs)), IntervalLen = n - gap n xs j\<rparr>"

lemma ring_result:
  assumes "ring n xs" "j < length xs"
  shows "IvalWithStartStop (Start (xs ! ((j + 1) mod length xs))) (Stop (xs ! j)) n = Inr (outside_gap n xs j)"
    "on_circle n (outside_gap n xs j)" "\<not> IsFullCircle (outside_gap n xs j)"
proof -
  let ?x = "xs ! ((j + 1) mod length xs)" and ?y = "xs ! j"
  have lt: "(j + 1) mod length xs < length xs" using assms(2) by (intro mod_less_divisor) linarith
  have x: "0 \<le> istart ?x" "istart ?x < n" using ring_nth(2,3) [OF assms(1) lt] .
  then have n: "0 < n" by simp
  have y: "0 \<le> Stop ?y" "Stop ?y < n" using ring_nth(1) [OF assms] n by (simp_all add: Stop_def on_circle_def)
  have g: "(istart ?x - Stop ?y) mod n = gap n xs j" using n by (simp add: gap_def Start_def)
  have "istart ?x \<noteq> Stop ?y" using g ring_gap(2) [OF assms] by auto
  moreover have "(Stop ?y - istart ?x) mod n = n - gap n xs j"
    using zmod_zminus1_eq_if [of "istart ?x - Stop ?y" n] g ring_gap(2) [OF assms] by simp
  ultimately show "IvalWithStartStop (Start ?x) (Stop ?y) n = Inr (outside_gap n xs j)"
    using x y n by (simp add: IvalWithStartStop_def Start_def outside_gap_def)
  show "on_circle n (outside_gap n xs j)" "\<not> IsFullCircle (outside_gap n xs j)"
    using x ring_gap(2,3) [OF assms] ring_nth(1) [OF assms] by (simp_all add: on_circle_def ival_ok_def IsFullCircle_def outside_gap_def)
qed

lemma ring_covers:
  assumes "ring n xs" "j < length xs" "i < length xs"
  shows "points (xs ! i) \<subseteq> points (outside_gap n xs j)"
proof -
  have n: "circleSize (outside_gap n xs j) = circleSize (xs ! i)" "circleSize (outside_gap n xs j) = n"
    using ring_nth(1) [OF assms(1,3)] by (simp_all add: on_circle_def outside_gap_def)
  have e: "edge n xs i = istart (xs ! i)" using assms(3) by (simp add: edge_def)
  have "(istart (xs ! i) - istart (outside_gap n xs j)) mod n = (edge n xs i - edge n xs (j + 1)) mod n"
    using edge_mod(2) [OF assms(2), of "edge n xs i" n] by (simp add: outside_gap_def e)
  also have "\<dots> = (if j < i then edge n xs i - edge n xs (j + 1) else edge n xs i - edge n xs (j + 1) + n)"
  proof (cases "j < i")
    case True
    then have "edge n xs (j + 1) \<le> edge n xs i" "0 \<le> edge n xs (j + 1)" "edge n xs i < n"
      using ring_edge_mono [OF assms(1), of "j + 1" i] ring_nth(2) [OF assms(1), of "j + 1"] ring_nth(3) [OF assms(1,3)] assms(3)
      by (auto simp: edge_def)
    then show ?thesis using True by (simp add: mod_pos_pos_trivial)
  next
    case False
    have "edge n xs i < edge n xs (j + 1)"
      using ring_next [OF assms(1,2)] ring_nth(5) [OF assms(1,2)] ring_edge_mono [OF assms(1), of i j] False assms(2) by simp
    moreover have "edge n xs (j + 1) \<le> edge n xs i + n"
      using ring_edge_mono [OF assms(1), of 0 i] ring_nth(2) [OF assms(1,3)] ring_nth(3) [OF assms(1), of "j + 1"] assms(2,3)
      by (cases "j + 1 < length xs"; cases "xs = []") (auto simp: edge_def)
    ultimately have "(edge n xs i - edge n xs (j + 1) + n) mod n = edge n xs i - edge n xs (j + 1) + n"
      by (intro mod_pos_pos_trivial) auto
    then show ?thesis using False by simp
  qed
  finally have off: "(istart (xs ! i) - istart (outside_gap n xs j)) mod n = \<dots>" .
  have "end_of xs i \<le> (if j < i then end_of xs j + n else end_of xs j)"
    using ring_end_mono [OF assms(1), of i j] ring_close [OF assms(1,3)] ring_edge_mono [OF assms(1), of 0 j]
      ring_nth(5) [OF assms(1,2)] assms(2) by (cases "j < i") auto
  then have "(istart (xs ! i) - istart (outside_gap n xs j)) mod n + IntervalLen (xs ! i) \<le> IntervalLen (outside_gap n xs j)"
    unfolding off using ring_gap(1) [OF assms(1,2)] e
    by (cases "j < i") (simp_all add: outside_gap_def end_of_def)
  then show ?thesis
    using points_subset_iff [OF _ _ n(1)] ring_result(2,3) [OF assms(1,2)] ring_nth(1) [OF assms(1,3)] n(2)
    by (simp add: on_circle_def)
qed

lemma step_crossed: "f 0 \<le> t \<Longrightarrow> t < f k \<Longrightarrow> \<exists>j<k. f j \<le> t \<and> t < f (j + 1)" for f :: "nat \<Rightarrow> int"
proof (induction k)
  case (Suc k)
  show ?case
  proof (cases "t < f k")
    case True
    then obtain j where "j < k" "f j \<le> t" "t < f (j + 1)" using Suc by blast
    then show ?thesis by (intro exI [of _ j]) simp
  next
    case False
    then show ?thesis using Suc.prems by (intro exI [of _ k]) simp
  qed
qed simp

lemma ring_least:
  assumes "ring n xs" "on_circle n w" "\<And>i. i < length xs \<Longrightarrow> points (xs ! i) \<subseteq> points w"
    "\<And>i. i < length xs \<Longrightarrow> gap n xs i \<le> g"
  shows "n - g \<le> IntervalLen w"
proof (cases "IsFullCircle w")
  case True
  have "0 < length xs" using assms(1) by (auto simp: ring_def)
  then have "0 < g" using assms(4) [of 0] ring_gap(2) [OF assms(1), of 0] by simp
  then show ?thesis using True assms(2) by (simp add: IsFullCircle_def on_circle_def)
next
  case False
  define t where "t = edge n xs 0 + (Stop w - edge n xs 0) mod n"
  have k: "0 < length xs" "xs \<noteq> []" using assms(1) by (auto simp: ring_def)
  have w: "0 < IntervalLen w" "IntervalLen w < n" "circleSize w = n" "ival_ok w"
    using not_full_pair [OF assms(2) False] assms(2) by (auto simp: on_circle_def)
  have n: "0 < n" using w by simp
  have st: "(Stop w - istart w) mod n = IntervalLen w" "0 \<le> Stop w" "Stop w < n"
    using Stop_from [OF w(4,3), of "istart w"] w n by (simp_all add: Stop_def)
  have out: "Stop w \<notin> points w" using st w by (simp add: points_def)
  have "edge n xs 0 \<le> t" "t < edge n xs (length xs)" using n k by (simp_all add: t_def edge_def)
  then obtain j where j: "j < length xs" "edge n xs j \<le> t" "t < edge n xs (j + 1)"
    using step_crossed [of "edge n xs" t "length xs"] by auto
  have "end_of xs j \<le> t"
  proof (rule ccontr)
    assume a: "\<not> end_of xs j \<le> t"
    have x: "ival_ok (xs ! j)" "circleSize (xs ! j) = n" using ring_nth(1) [OF assms(1) j(1)] by (simp_all add: on_circle_def)
    have "(istart (xs ! j) - edge n xs 0) mod n = istart (xs ! j) - edge n xs 0"
      using ring_edge_mono [OF assms(1), of 0 j] j(1) ring_nth(3) [OF assms(1) j(1)] ring_nth(2) [OF assms(1) k(1)] k
      by (intro mod_pos_pos_trivial) (auto simp: edge_def)
    then have "Stop w \<in> points (xs ! j)"
      using points_from [OF x st(2,3), of "edge n xs 0"] a j by (simp add: Let_def t_def edge_def end_of_def)
    then show False using assms(3) [OF j(1)] out by auto
  qed
  moreover have "n - IntervalLen w \<le> edge n xs (j + 1) - t"
  proof (rule ccontr)
    assume a: "\<not> n - IntervalLen w \<le> edge n xs (j + 1) - t"
    let ?x = "xs ! ((j + 1) mod length xs)"
    have lt: "(j + 1) mod length xs < length xs" using j(1) by (intro mod_less_divisor) linarith
    have "istart ?x \<in> points w"
      using assms(3) [OF lt] istart_in_points [of ?x] ring_nth(1) [OF assms(1) lt] by (auto simp: on_circle_def)
    then have "(edge n xs (j + 1) - istart w) mod n < IntervalLen w"
      using edge_mod(1) [OF j(1), of "istart w" n] w(3) by (simp add: points_def)
    moreover have "(t - istart w) mod n = IntervalLen w"
    proof -
      have "(t - istart w) mod n = ((Stop w - edge n xs 0) mod n + (edge n xs 0 - istart w)) mod n" 
        by (rule arg_cong [where f = "\<lambda>x. x mod n"]) (simp add: t_def)
      also have "\<dots> = (Stop w - edge n xs 0 + (edge n xs 0 - istart w)) mod n" by (rule mod_add_left_eq)
      also have "\<dots> = (Stop w - istart w) mod n" by simp
      finally show ?thesis using st(1) by simp
    qed
    then have "(t - istart w + (edge n xs (j + 1) - t)) mod n = (IntervalLen w + (edge n xs (j + 1) - t)) mod n"
      by (metis mod_add_left_eq)
    then have "(edge n xs (j + 1) - istart w) mod n = (IntervalLen w + (edge n xs (j + 1) - t)) mod n" by simp
    moreover have "(IntervalLen w + (edge n xs (j + 1) - t)) mod n = IntervalLen w + (edge n xs (j + 1) - t)"
      using a w j(3) by (intro mod_pos_pos_trivial) auto
    ultimately show False using j(3) by simp
  qed
  ultimately show ?thesis using assms(4) [OF j(1)] ring_gap(1) [OF assms(1) j(1)] by simp
qed

lemma points_mono_len:
  assumes "on_circle n c" "on_circle n d" "points d \<subseteq> points c"
  shows "IntervalLen d \<le> IntervalLen c"
proof (cases "IsFullCircle c")
  case False
  then have "(istart d - istart c) mod n + IntervalLen d \<le> IntervalLen c"
    using points_subset_iff [of c d] assms by (simp add: on_circle_def)
  moreover have "0 \<le> (istart d - istart c) mod n" using not_full_pair [OF assms(1) False] by simp
  ultimately show ?thesis by simp
qed (use assms in \<open>auto simp: on_circle_def ival_ok_def IsFullCircle_def\<close>)

subsection \<open>The smallest cover\<close>

definition smallest_cover :: "int \<Rightarrow> CircularInterval list \<Rightarrow> CircularInterval \<Rightarrow> bool" where
  "smallest_cover n is r \<longleftrightarrow> on_circle n r \<and> covered is \<subseteq> points r \<and>
     (\<forall>w. on_circle n w \<longrightarrow> covered is \<subseteq> points w \<longrightarrow> IntervalLen r \<le> IntervalLen w)"

lemma ring_smallest:
  assumes "ring n xs" "max_gap n xs 0 (length xs) (0, 0) = (g, j)"
  shows "0 < g" "smallest_cover n xs (outside_gap n xs j)" "j < length xs"
proof -
  have k: "0 < length xs" using assms(1) by (auto simp: ring_def)
  note mx = max_gap_spec [OF assms(2)]
  have all: "gap n xs i \<le> g" if "i < length xs" for i using mx that by simp
  show g: "0 < g" using all [OF k] ring_gap(2) [OF assms(1) k] by simp
  have gj: "g = gap n xs j" using g mx by auto
  show j: "j < length xs" using g mx by auto
  have "covered xs \<subseteq> points (outside_gap n xs j)"
    using ring_covers [OF assms(1) j] by (force simp: covered_def in_set_conv_nth)
  moreover have "IntervalLen (outside_gap n xs j) \<le> IntervalLen w"
    if "on_circle n w" "covered xs \<subseteq> points w" for w
  proof -
    have "points (xs ! i) \<subseteq> points w" if "i < length xs" for i
      using \<open>covered xs \<subseteq> points w\<close> nth_mem [OF that] by (auto simp: covered_def)
    from ring_least [OF assms(1) that(1) this all] show ?thesis by (simp add: outside_gap_def gj)
  qed
  ultimately show "smallest_cover n xs (outside_gap n xs j)"
    using ring_result(2) [OF assms(1) j] by (simp add: smallest_cover_def)
qed

theorem SmallestCoverInterval_least:
  assumes "is \<noteq> []" "list_all (on_circle n) is" "mset (srt is) = mset is" "sorted (map istart (srt is))"
  shows "\<exists>r. SmallestCoverInterval srt is = Inr r \<and> smallest_cover n is r"
proof -
  have s: "set (srt is) = set is" by (rule mset_eq_setD [OF assms(3)])
  then obtain l rest where sr: "srt is = l # rest" using assms(1) by (cases "srt is") auto
  have on: "list_all (on_circle n) (l # rest)" using assms(2) by (simp only: list_all_iff sr [symmetric] s)
  have cov: "covered is = covered (l # rest)" by (simp only: covered_def sr [symmetric] s)
  have "buckets_ok [] l rest" "sorted (map istart rest)" using assms(4) unfolding sr by (auto simp: buckets_ok_def)
  then have "\<exists>bs' l'. cover_merge ([], l) rest = Inr (bs', l') \<and> list_all (on_circle n) (l' # bs') \<and>
      buckets_ok bs' l' [] \<and> covered (l' # bs') = covered (l # [] @ rest)"
    using on by (intro cover_merge_ok) simp_all
  then obtain bs1 l1 where m: "cover_merge ([], l) rest = Inr (bs1, l1)" "list_all (on_circle n) (l1 # bs1)"
    "buckets_ok bs1 l1 []" "covered (l1 # bs1) = covered (l # rest)"
    unfolding append.simps by blast
  obtain bs2 l2 where w: "cover_wrap bs1 l1 = Inr (bs2, l2)" "list_all (on_circle n) (l2 # bs2)"
    "covered (l2 # bs2) = covered (l1 # bs1)"
    "bs2 \<noteq> [] \<longrightarrow> sorted_wrt before (bs2 @ [l2]) \<and> istart l2 + IntervalLen l2 < istart (hd bs2) + n"
    using cover_wrap_ok [OF m(2,3)] by metis
  obtain i0 "is'" where i0: "is = i0 # is'" using assms(1) by (cases "is") auto
  have n: "circleSize i0 = n" "circleSize l = n" using assms(2) on by (auto simp: i0 on_circle_def)
  have run: "SmallestCoverInterval srt is =
      (let xs = bs2 @ [l2] in
       if length xs = 1 then Inr (xs ! 0)
       else let (maxGap, posMaxGap) = max_gap n xs 0 (length xs) (0, 0) in
         if maxGap < 1 then Inl (Panic ''Max gap'')
         else IvalWithStartStop (Start (xs ! ((posMaxGap + 1) mod length xs))) (Stop (xs ! posMaxGap)) n)"
    using sr unfolding SmallestCoverInterval_def i0 by (simp add: n m(1) w(1) require_def Let_def)
  have cov2: "covered (bs2 @ [l2]) = covered is" using cov m(4) w(3) by auto
  show ?thesis
  proof (cases "bs2 = []")
    case True
    then have "SmallestCoverInterval srt is = Inr l2"
      by (simp add: run)
    moreover have "smallest_cover n is l2"
    proof -
      have "covered is = points l2" "on_circle n l2" using True cov2 w(2) by simp_all
      then show ?thesis using points_mono_len [of n _ l2] unfolding smallest_cover_def by blast
    qed
    ultimately show ?thesis by blast
  next
    case False
    let ?xs = "bs2 @ [l2]"
    have ring: "ring n ?xs" using False w(2,4) by (cases bs2) (simp_all add: ring_def)
    obtain g j where mg: "max_gap n ?xs 0 (length ?xs) (0, 0) = (g, j)" by (meson surj_pair)
    note r = ring_smallest [OF ring mg]
    have "SmallestCoverInterval srt is = IvalWithStartStop (Start (?xs ! ((j + 1) mod length ?xs))) (Stop (?xs ! j)) n"
      using mg r(1) False by (simp add: run Let_def)
    also have "\<dots> = Inr (outside_gap n ?xs j)" by (rule ring_result(1) [OF ring r(3)])
    finally show ?thesis using r(2) unfolding smallest_cover_def cov2 by blast
  qed
qed

end
