(* ===== verification/SmartVec.thy ===== *)
theory SmartVec
  imports Circular
begin

text \<open>
  Smart vectors, \<open>src/prover/maths/common/smartvectors\<close> (\<open>constant.go\<close>, \<open>regular.go\<close>,
  \<open>windowed.go\<close>, \<open>rotated.go\<close>, \<open>vecutil.go\<close> and the conversions of \<open>smartvectors.go\<close>), over the base
  field. A smart vector is one of four representations of a vector of field elements. \<open>value_at\<close> is
  the element a representation denotes at a position, and every operation is shown to act on the
  denoted vector as the same operation on plain slices does. The types over the field extension
  are not values of the model, so the branches that select them are left out.

  An offset a caller chooses is an arbitrary \<open>int\<close>, so the sums with it wrap. Lengths of vectors stay
  below \<open>2\<^sup>6\<^sup>2\<close>.
\<close>

subsection \<open>The four representations\<close>

record 'f Constant =
  const_value :: 'f
  const_length :: int

record 'f PaddedCircularWindow =
  pcw_window :: "'f list"
  pcw_padding :: 'f
  pcw_totlen :: int
  pcw_offset :: int

record 'f Rotated =
  rot_v :: "'f list"
  rot_offset :: int

datatype 'f SmartVector =
    SvConstant "'f Constant"
  | SvRegular "'f list"
  | SvWindow "'f PaddedCircularWindow"
  | SvRotated "'f Rotated"

subsubsection \<open>Assertions and slices\<close>

definition assertCorrectBound :: "int \<Rightarrow> int \<Rightarrow> unit result" where
  "assertCorrectBound pos len = require (\<not> pos \<ge> len) (Panic ''Bound assertion failed'')"

definition assertHasLength :: "int \<Rightarrow> int \<Rightarrow> unit result" where
  "assertHasLength a b = require (\<not> a \<noteq> b) (Panic ''the two slices should have the same length'')"

definition assertStrictPositiveLen :: "int \<Rightarrow> unit result" where
  "assertStrictPositiveLen l =
     (if l = 0 then Inl (Panic ''FORBIDDEN : Got a null length vector'')
      else require (\<not> l \<le> 0) (Panic ''FORBIDDEN : Got a negative length''))"

definition assertPowerOfTwoLen :: "int \<Rightarrow> unit result" where
  "assertPowerOfTwoLen l = require (IsPowerOfTwo l) (Panic ''Slice should have a power of two length'')"

abbreviation llen :: "'a list \<Rightarrow> int" where
  "llen xs \<equiv> int (length xs)"

text \<open>\<open>copy(dst, src)\<close>.\<close>

definition go_copy :: "'a list \<Rightarrow> 'a list \<Rightarrow> 'a list" where
  "go_copy dst src = take (length dst) src @ drop (length src) dst"

text \<open>\<open>make([]field.Element, n)\<close>.\<close>

definition make_vec :: "int \<Rightarrow> ('f::zero) list result" where
  "make_vec n = (if n < 0 then Inl (Panic ''makeslice: len out of range'') else Inr (replicate (nat n) 0))"

subsubsection \<open>Constant vectors\<close>

definition NewConstant :: "'f \<Rightarrow> int \<Rightarrow> 'f Constant result" where
  "NewConstant val len =
     (if len \<le> 0 then Inl (Panic ''zero or negative length are not allowed'')
      else Inr \<lparr>const_value = val, const_length = len\<rparr>)"

definition Constant_SubVector :: "'f Constant \<Rightarrow> int \<Rightarrow> int \<Rightarrow> 'f SmartVector result" where
  "Constant_SubVector c start stop =
     (if start > stop then Inl (Panic ''negative length are not allowed'')
      else if start = stop then Inl (Panic ''zero length are not allowed'')
      else rbind (assertCorrectBound start (const_length c)) (\<lambda>_.
           rbind (assertCorrectBound stop (const_length c + 1)) (\<lambda>_.
           rbind (NewConstant (const_value c) (wrap64 (stop - start))) (\<lambda>r. Inr (SvConstant r)))))"

definition Constant_RotateRight :: "'f Constant \<Rightarrow> int \<Rightarrow> 'f SmartVector result" where
  "Constant_RotateRight c offset = rbind (NewConstant (const_value c) (const_length c)) (\<lambda>r. Inr (SvConstant r))"

definition Constant_WriteInSlice :: "'f Constant \<Rightarrow> 'f list \<Rightarrow> 'f list result" where
  "Constant_WriteInSlice c s =
     rbind (assertHasLength (llen s) (const_length c)) (\<lambda>_. Inr (map (\<lambda>_. const_value c) s))"

definition Constant_DeepCopy :: "'f Constant \<Rightarrow> 'f SmartVector result" where
  "Constant_DeepCopy c = rbind (NewConstant (const_value c) (const_length c)) (\<lambda>r. Inr (SvConstant r))"

subsubsection \<open>Rotated vectors\<close>

definition NewRotated :: "'f list \<Rightarrow> int \<Rightarrow> 'f Rotated result" where
  "NewRotated reg offset =
     (if reg = [] then Inl (Panic ''got an empty vector'')
      else if offset < 0 \<and> wrap64 (- offset) > llen reg then Inl (Panic ''len is less than, offset'')
      else if offset > llen reg then Inl (Panic ''len, is less than, offset'')
      else Inr \<lparr>rot_v = reg, rot_offset = offset\<rparr>)"

definition Rotated_GetBase :: "'f Rotated \<Rightarrow> int \<Rightarrow> 'f result" where
  "Rotated_GetBase r n = index (rot_v r) (PositiveMod (wrap64 (n + rot_offset r)) (llen (rot_v r)))"

definition copySubVector :: "'a list \<Rightarrow> int \<Rightarrow> int \<Rightarrow> int \<Rightarrow> 'a list \<Rightarrow> 'a list result" where
  "copySubVector src offset start stop dst =
     (let size = llen src; spanSize = stop - start in
      if start < 0 \<or> stop > size \<or> stop \<le> start \<or> llen dst \<noteq> spanSize
      then Inl (Panic ''invalid subvector range or destination size'')
      else
        let startWithOffsetClean = PositiveMod (wrap64 (start + offset)) size in
        if startWithOffsetClean + spanSize \<le> size
        then rbind (go_slice src startWithOffsetClean (startWithOffsetClean + spanSize)) (\<lambda>s. Inr (go_copy dst s))
        else
          let n1 = size - startWithOffsetClean in
          rbind (go_slice src startWithOffsetClean size) (\<lambda>s.
          let dst = go_copy dst s; n2 = spanSize - n1 in
          rbind (go_slice dst n1 (llen dst)) (\<lambda>d.
          rbind (go_slice src 0 n2) (\<lambda>s. Inr (take (nat n1) dst @ go_copy d s)))))"

definition Rotated_SubVector :: "('f::zero) Rotated \<Rightarrow> int \<Rightarrow> int \<Rightarrow> 'f list result" where
  "Rotated_SubVector r start stop =
     rbind (make_vec (stop - start)) (\<lambda>res. copySubVector (rot_v r) (rot_offset r) start stop res)"

definition WriteSubVectorInSlice :: "'f Rotated \<Rightarrow> int \<Rightarrow> int \<Rightarrow> 'f list \<Rightarrow> 'f list result" where
  "WriteSubVectorInSlice r start stop s = copySubVector (rot_v r) (rot_offset r) start stop s"

definition Rotated_DeepCopy :: "'f Rotated \<Rightarrow> 'f Rotated result" where
  "Rotated_DeepCopy r = NewRotated (rot_v r) (rot_offset r)"

definition Rotated_RotateRight :: "'f Rotated \<Rightarrow> int \<Rightarrow> 'f SmartVector result" where
  "Rotated_RotateRight r offset =
     (if offset > 2 ^ 40 then Inl (Panic ''offset is too large'')
      else rbind (Rotated_DeepCopy r) (\<lambda>res.
           Inr (SvRotated (res\<lparr>rot_offset := wrap64 (rot_offset res + offset)\<rparr>))))"

definition Rotated_WriteInSlice :: "'f Rotated \<Rightarrow> 'f list \<Rightarrow> 'f list result" where
  "Rotated_WriteInSlice r s = WriteSubVectorInSlice r 0 (llen (rot_v r)) s"

definition rotatedAsRegular :: "('f::zero) Rotated \<Rightarrow> 'f list result" where
  "rotatedAsRegular r = Rotated_SubVector r 0 (llen (rot_v r))"

subsubsection \<open>Regular vectors\<close>

definition NewRegular :: "'f list \<Rightarrow> 'f SmartVector result" where
  "NewRegular v = rbind (assertStrictPositiveLen (llen v)) (\<lambda>_. Inr (SvRegular v))"

definition Regular_SubVector :: "'f list \<Rightarrow> int \<Rightarrow> int \<Rightarrow> 'f SmartVector result" where
  "Regular_SubVector r start stop =
     (if start > stop then Inl (Panic ''Negative length are not allowed'')
      else if start = stop then Inl (Panic ''Subvector of zero lengths are not allowed'')
      else rbind (go_slice r start stop) (\<lambda>s. Inr (SvRegular s)))"

definition Regular_RotateRight :: "'f list \<Rightarrow> int \<Rightarrow> 'f SmartVector result" where
  "Regular_RotateRight r offset = rbind (NewRotated r (wrap64 (- offset))) (\<lambda>x. Inr (SvRotated x))"

definition Regular_WriteInSlice :: "'f list \<Rightarrow> 'f list \<Rightarrow> 'f list result" where
  "Regular_WriteInSlice r s = rbind (assertHasLength (llen s) (llen r)) (\<lambda>_. Inr (go_copy s r))"

subsubsection \<open>Windows on a padding value\<close>

definition NewPaddedCircularWindow ::
  "'f list \<Rightarrow> 'f \<Rightarrow> int \<Rightarrow> int \<Rightarrow> 'f PaddedCircularWindow result" where
  "NewPaddedCircularWindow window paddingVal offset totLen =
     (if llen window > totLen then Inl (Panic ''The window size is too large'')
      else if llen window = totLen then Inl (Panic ''Forbidden : the window should not take the full length'')
      else if window = [] then Inl (Panic ''Forbidden : empty window'')
      else Inr \<lparr>pcw_window = window, pcw_padding = paddingVal, pcw_totlen = totLen,
                pcw_offset = PositiveMod offset totLen\<rparr>)"

definition pcw_interval :: "'f PaddedCircularWindow \<Rightarrow> CircularInterval result" where
  "pcw_interval p = IvalWithStartLen (pcw_offset p) (llen (pcw_window p)) (pcw_totlen p)"

definition normalize :: "int \<Rightarrow> int \<Rightarrow> int \<Rightarrow> int" where
  "normalize x newRef n = PositiveMod (x - newRef) n"

definition Window_GetBase :: "'f PaddedCircularWindow \<Rightarrow> int \<Rightarrow> 'f result" where
  "Window_GetBase p n =
     (let posFromWindowsPoV = PositiveMod (wrap64 (n - pcw_offset p)) (pcw_totlen p) in
      if posFromWindowsPoV < llen (pcw_window p) then index (pcw_window p) posFromWindowsPoV
      else Inr (pcw_padding p))"

definition Window_SubVector :: "'f PaddedCircularWindow \<Rightarrow> int \<Rightarrow> int \<Rightarrow> 'f SmartVector result" where
  "Window_SubVector p start stop =
     (if start < 0 then Inl (Panic ''negative Start value is not allowed'')
      else rbind (assertCorrectBound start (pcw_totlen p)) (\<lambda>_.
      rbind (assertCorrectBound stop (pcw_totlen p + 1)) (\<lambda>_.
      if start > stop then Inl (Panic ''rollover are forbidden'')
      else if start = stop then Inl (Panic ''zero length subvector is forbidden'')
      else
        rbind (pcw_interval p) (\<lambda>ival.
        let n = pcw_totlen p;
            b = stop - start;
            c = normalize (Start ival) start n;
            d = normalize (Stop ival) start n;
            window = pcw_window p;
            pad = pcw_padding p;
            pcw = (\<lambda>w off. rbind (NewPaddedCircularWindow w pad off b) (\<lambda>r. Inr (SvWindow r)))
        in
        if b \<le> c \<and> c < d then rbind (NewConstant pad b) (\<lambda>r. Inr (SvConstant r))
        else if b \<le> d \<and> d < c then rbind (go_slice window (n - c) (n - c + b)) (\<lambda>reg. Inr (SvRegular reg))
        else if b \<le> d \<and> c = 0 then rbind (go_slice window 0 b) (\<lambda>reg. Inr (SvRegular reg))
        else if c < d \<and> d \<le> b then pcw window c
        else if c < b \<and> c \<le> d then rbind (go_slice window 0 (b - c)) (\<lambda>w. pcw w c)
        else if d < c \<and> c < b
        then rbind (go_slice window 0 (b - c)) (\<lambda>left.
             rbind (go_slice window (n - c) (llen window)) (\<lambda>right. pcw (left @ right) c))
        else if 0 < d \<and> d < b \<and> b \<le> c
        then rbind (go_slice window (n - c) (llen window)) (\<lambda>w. pcw w 0)
        else if d = 0 \<and> b \<le> c then rbind (NewConstant pad b) (\<lambda>r. Inr (SvConstant r))
        else Inl (Panic ''unsupported case'')))))"

definition Window_RotateRight :: "'f PaddedCircularWindow \<Rightarrow> int \<Rightarrow> 'f SmartVector result" where
  "Window_RotateRight p offset =
     rbind (NewPaddedCircularWindow (pcw_window p) (pcw_padding p) (wrap64 (pcw_offset p + offset)) (pcw_totlen p))
       (\<lambda>r. Inr (SvWindow r))"

definition Window_WriteInSlice :: "'f PaddedCircularWindow \<Rightarrow> 'f list \<Rightarrow> 'f list result" where
  "Window_WriteInSlice p buff =
     rbind (assertHasLength (llen buff) (pcw_totlen p)) (\<lambda>_.
     rbind (foldM (\<lambda>buff i.
         rbind (index (pcw_window p) i) (\<lambda>x.
         set_index buff (PositiveMod (i + pcw_offset p) (pcw_totlen p)) x)) buff [0..llen (pcw_window p) - 1]) (\<lambda>buff.
     foldM (\<lambda>buff i. set_index buff (PositiveMod (i + pcw_offset p) (pcw_totlen p)) (pcw_padding p)) buff
       [llen (pcw_window p)..pcw_totlen p - 1]))"

definition Window_DeepCopy :: "'f PaddedCircularWindow \<Rightarrow> 'f SmartVector result" where
  "Window_DeepCopy w =
     rbind (NewPaddedCircularWindow (pcw_window w) (pcw_padding w) (pcw_offset w) (pcw_totlen w))
       (\<lambda>r. Inr (SvWindow r))"

subsubsection \<open>The interface\<close>

fun Len :: "'f SmartVector \<Rightarrow> int" where
  "Len (SvConstant c) = const_length c"
| "Len (SvRegular r) = llen r"
| "Len (SvWindow p) = pcw_totlen p"
| "Len (SvRotated r) = llen (rot_v r)"

fun Get :: "'f SmartVector \<Rightarrow> int \<Rightarrow> 'f result" where
  "Get (SvConstant c) n = Inr (const_value c)"
| "Get (SvRegular r) n = index r n"
| "Get (SvWindow p) n = Window_GetBase p n"
| "Get (SvRotated r) n = Rotated_GetBase r n"

text \<open>\<open>GetPtr\<close>, as the element the pointer leads to.\<close>

fun GetPtr :: "'f SmartVector \<Rightarrow> int \<Rightarrow> 'f result" where
  "GetPtr (SvConstant c) n = Inr (const_value c)"
| "GetPtr (SvRegular r) n = index r n"
| "GetPtr (SvWindow p) n =
     (let n = wrap64 (n - pcw_offset p); n = (if n < 0 then n + pcw_totlen p else n) in
      if n < llen (pcw_window p) then index (pcw_window p) n else Inr (pcw_padding p))"
| "GetPtr (SvRotated r) n = index (rot_v r) (PositiveMod (wrap64 (n + rot_offset r)) (llen (rot_v r)))"

fun SubVector :: "('f::zero) SmartVector \<Rightarrow> int \<Rightarrow> int \<Rightarrow> 'f SmartVector result" where
  "SubVector (SvConstant c) start stop = Constant_SubVector c start stop"
| "SubVector (SvRegular r) start stop = Regular_SubVector r start stop"
| "SubVector (SvWindow p) start stop = Window_SubVector p start stop"
| "SubVector (SvRotated r) start stop = rbind (Rotated_SubVector r start stop) (\<lambda>s. Inr (SvRegular s))"

fun RotateRight :: "'f SmartVector \<Rightarrow> int \<Rightarrow> 'f SmartVector result" where
  "RotateRight (SvConstant c) offset = Constant_RotateRight c offset"
| "RotateRight (SvRegular r) offset = Regular_RotateRight r offset"
| "RotateRight (SvWindow p) offset = Window_RotateRight p offset"
| "RotateRight (SvRotated r) offset = Rotated_RotateRight r offset"

fun WriteInSlice :: "'f SmartVector \<Rightarrow> 'f list \<Rightarrow> 'f list result" where
  "WriteInSlice (SvConstant c) s = Constant_WriteInSlice c s"
| "WriteInSlice (SvRegular r) s = Regular_WriteInSlice r s"
| "WriteInSlice (SvWindow p) s = Window_WriteInSlice p s"
| "WriteInSlice (SvRotated r) s = Rotated_WriteInSlice r s"

fun DeepCopy :: "'f SmartVector \<Rightarrow> 'f SmartVector result" where
  "DeepCopy (SvConstant c) = Constant_DeepCopy c"
| "DeepCopy (SvRegular r) = NewRegular r"
| "DeepCopy (SvWindow p) = Window_DeepCopy p"
| "DeepCopy (SvRotated r) = rbind (Rotated_DeepCopy r) (\<lambda>x. Inr (SvRotated x))"

definition IntoRegVec :: "('f::zero) SmartVector \<Rightarrow> 'f list result" where
  "IntoRegVec s = rbind (make_vec (Len s)) (\<lambda>res. WriteInSlice s res)"

fun IntoRegVecSaveAlloc :: "('f::zero) SmartVector \<Rightarrow> 'f list result" where
  "IntoRegVecSaveAlloc (SvConstant c) = IntoRegVec (SvConstant c)"
| "IntoRegVecSaveAlloc (SvRegular r) = Inr r"
| "IntoRegVecSaveAlloc (SvWindow p) = IntoRegVec (SvWindow p)"
| "IntoRegVecSaveAlloc (SvRotated r) = rotatedAsRegular r"

text \<open>The iterators, as the list of the elements they yield.\<close>

definition Window_IterateCompact :: "('f::zero) PaddedCircularWindow \<Rightarrow> 'f list result" where
  "Window_IterateCompact p =
     (if pcw_offset p > 0 \<and> pcw_offset p + llen (pcw_window p) \<noteq> pcw_totlen p
      then IntoRegVecSaveAlloc (SvWindow p)
      else Inr ((if pcw_offset p > 0 then [pcw_padding p] else []) @ pcw_window p @
                (if pcw_offset p + llen (pcw_window p) < pcw_totlen p then [pcw_padding p] else [])))"

fun IterateCompact :: "('f::zero) SmartVector \<Rightarrow> 'f list result" where
  "IterateCompact (SvConstant c) = Inr [const_value c]"
| "IterateCompact (SvRegular r) = Inr r"
| "IterateCompact (SvWindow p) = Window_IterateCompact p"
| "IterateCompact (SvRotated r) = rotatedAsRegular r"

fun IterateSkipPadding :: "('f::zero) SmartVector \<Rightarrow> 'f list result" where
  "IterateSkipPadding (SvConstant c) = Inr []"
| "IterateSkipPadding (SvRegular r) = Inr r"
| "IterateSkipPadding (SvWindow p) = Inr (pcw_window p)"
| "IterateSkipPadding (SvRotated r) = rotatedAsRegular r"

definition SoftRotate :: "'f SmartVector \<Rightarrow> int \<Rightarrow> 'f SmartVector result" where
  "SoftRotate v offset =
     (case v of
        SvRegular r \<Rightarrow> rbind (NewRotated r offset) (\<lambda>x. Inr (SvRotated x))
      | SvRotated r \<Rightarrow> rbind (NewRotated (rot_v r) (PositiveMod (wrap64 (offset + rot_offset r)) (Len v))) (\<lambda>x. Inr (SvRotated x))
      | SvWindow p \<Rightarrow> rbind (NewPaddedCircularWindow (pcw_window p) (pcw_padding p)
                        (PositiveMod (wrap64 (pcw_offset p + offset)) (Len v)) (Len v)) (\<lambda>x. Inr (SvWindow x))
      | SvConstant c \<Rightarrow> Inr v)"

subsection \<open>What a smart vector denotes\<close>

fun sv_ok :: "'f SmartVector \<Rightarrow> bool" where
  "sv_ok (SvConstant c) \<longleftrightarrow> 0 < const_length c \<and> const_length c < 2 ^ 62"
| "sv_ok (SvRegular r) \<longleftrightarrow> r \<noteq> [] \<and> llen r < 2 ^ 62"
| "sv_ok (SvWindow p) \<longleftrightarrow> pcw_window p \<noteq> [] \<and> llen (pcw_window p) < pcw_totlen p \<and> pcw_totlen p < 2 ^ 62 \<and>
     0 \<le> pcw_offset p \<and> pcw_offset p < pcw_totlen p"
| "sv_ok (SvRotated r) \<longleftrightarrow> rot_v r \<noteq> [] \<and> llen (rot_v r) < 2 ^ 62 \<and> \<bar>rot_offset r\<bar> \<le> 2 ^ 62"

fun value_at :: "'f SmartVector \<Rightarrow> int \<Rightarrow> 'f" where
  "value_at (SvConstant c) i = const_value c"
| "value_at (SvRegular r) i = r ! nat i"
| "value_at (SvWindow p) i =
     (let q = (i - pcw_offset p) mod pcw_totlen p in
      if q < llen (pcw_window p) then pcw_window p ! nat q else pcw_padding p)"
| "value_at (SvRotated r) i = rot_v r ! nat ((i + rot_offset r) mod llen (rot_v r))"

definition elems :: "'f SmartVector \<Rightarrow> 'f list" where
  "elems v = map (\<lambda>i. value_at v (int i)) [0..<nat (Len v)]"

definition denotes :: "'f SmartVector \<Rightarrow> int \<Rightarrow> (int \<Rightarrow> 'f) \<Rightarrow> bool" where
  "denotes v n f \<longleftrightarrow> sv_ok v \<and> Len v = n \<and> (\<forall>i. 0 \<le> i \<longrightarrow> i < n \<longrightarrow> value_at v i = f i)"

lemma Len_pos: "sv_ok v \<Longrightarrow> 0 < Len v \<and> Len v < 2 ^ 62"
  by (cases v) auto

lemma length_elems [simp]: "length (elems v) = nat (Len v)"
  by (simp add: elems_def)

lemma nth_elems [simp]: "i < nat (Len v) \<Longrightarrow> elems v ! i = value_at v (int i)"
  by (simp add: elems_def)

lemma denotes_elems: "denotes v n f \<Longrightarrow> elems v = map (\<lambda>i. f (int i)) [0..<nat n]"
  by (auto simp: denotes_def elems_def)

lemma elems_eqI:
  assumes "Len v = n" "\<And>i. 0 \<le> i \<Longrightarrow> i < n \<Longrightarrow> value_at v i = f i"
  shows "elems v = map (\<lambda>i. f (int i)) [0..<nat n]"
  using assms by (auto simp: elems_def)

lemma elems_Regular [simp]: "elems (SvRegular r) = r"
  by (simp add: elems_def map_nth)

lemma int64_small: "- (2 ^ 62) \<le> x \<Longrightarrow> x \<le> 2 ^ 62 \<Longrightarrow> - (2 ^ 62) < y \<Longrightarrow> y < 2 ^ 62 \<Longrightarrow>
    is_int64 (x + y) \<and> is_int64 (x - y)" for x y :: int
  by (simp add: is_int64_def)

lemma Get_ok: "sv_ok v \<Longrightarrow> 0 \<le> i \<Longrightarrow> i < Len v \<Longrightarrow> Get v i = Inr (value_at v i)"
proof (cases v)
  case (SvWindow p)
  assume "sv_ok v" "0 \<le> i" "i < Len v"
  then show ?thesis
    using SvWindow int64_small [of i "pcw_offset p"] by (auto simp: Window_GetBase_def Let_def index_in)
next
  case (SvRotated r)
  assume a: "sv_ok v" "0 \<le> i" "i < Len v"
  then have "is_int64 (i + rot_offset r)" using SvRotated by (auto simp: is_int64_def)
  then show ?thesis
    using SvRotated a by (simp add: Rotated_GetBase_def index_in)
qed (auto simp: index_in)

lemma GetPtr_ok: "sv_ok v \<Longrightarrow> 0 \<le> i \<Longrightarrow> i < Len v \<Longrightarrow> GetPtr v i = Inr (value_at v i)"
proof (cases v)
  case (SvWindow p)
  assume "sv_ok v" "0 \<le> i" "i < Len v"
  then show ?thesis
    using SvWindow int64_small [of i "pcw_offset p"] mod_shift [of i "pcw_totlen p" "pcw_offset p"]
    by (auto simp: Let_def index_in)
next
  case (SvRotated r)
  assume a: "sv_ok v" "0 \<le> i" "i < Len v"
  then have "is_int64 (i + rot_offset r)" using SvRotated by (auto simp: is_int64_def)
  then show ?thesis
    using SvRotated a by (simp add: index_in)
qed (auto simp: index_in)

lemma go_copy_same [simp]: "length dst = length src \<Longrightarrow> go_copy dst src = src"
  by (simp add: go_copy_def)

lemma copySubVector_ok:
  assumes "0 \<le> start" "start < stop" "stop \<le> llen src" "llen dst = stop - start" "is_int64 (start + offset)"
  shows "copySubVector src offset start stop dst =
    Inr (map (\<lambda>i. src ! nat ((start + int i + offset) mod llen src)) [0..<nat (stop - start)])"
proof -
  let ?n = "llen src" and ?sc = "(start + offset) mod llen src" and ?k = "stop - start"
  have n: "0 < ?n" using assms by linarith
  have sc: "0 \<le> ?sc" "?sc < ?n" using n by simp_all
  have pos: "(start + int i + offset) mod ?n = (if ?sc + int i < ?n then ?sc + int i else ?sc + int i - ?n)"
    if "int i < ?k" for i
  proof -
    have "start + int i + offset = start + offset + int i" by simp
    then have "(start + int i + offset) mod ?n = (?sc + int i) mod ?n" by (simp only: mod_add_left_eq)
    then show ?thesis using mod_wrap [of "?sc + int i" ?n] sc that assms by simp
  qed
  show ?thesis
  proof (cases "?sc + ?k \<le> ?n")
    case True
    then have "go_slice src ?sc (?sc + ?k) = Inr (take (nat ?k) (drop (nat ?sc) src))"
      using sc assms by (simp add: slice_in)
    moreover have "take (nat ?k) (drop (nat ?sc) src) =
        map (\<lambda>i. src ! nat ((start + int i + offset) mod ?n)) [0..<nat ?k]"
    proof (rule nth_equalityI)
      show "length (take (nat ?k) (drop (nat ?sc) src)) =
          length (map (\<lambda>i. src ! nat ((start + int i + offset) mod ?n)) [0..<nat ?k])"
        using True sc assms by (simp add: le_diff_conv nat_le_iff)
    next
      fix i assume "i < length (take (nat ?k) (drop (nat ?sc) src))"
      then have i: "int i < ?k" "i < nat ?k" by auto
      then have "nat ((start + int i + offset) mod ?n) = nat ?sc + i"
        using pos [OF i(1)] True sc by (simp add: nat_add_distrib)
      then show "take (nat ?k) (drop (nat ?sc) src) ! i =
          map (\<lambda>i. src ! nat ((start + int i + offset) mod ?n)) [0..<nat ?k] ! i"
        using i sc by simp
    qed
    moreover have "length dst = length (take (nat ?k) (drop (nat ?sc) src))"
      using True sc assms by (simp add: nat_le_iff)
    ultimately show ?thesis
      using True assms n by (simp add: copySubVector_def Let_def)
  next
    case False
    define n1 n2 where nn: "n1 = ?n - ?sc" "n2 = ?k - n1"
    have b: "0 < n1" "n1 < ?k" "0 < n2" "n2 \<le> ?n" "nat n1 \<le> length dst"
      using False sc assms by (simp_all add: nn)
    have s1: "go_slice src ?sc ?n = Inr (drop (nat ?sc) src)" using sc by (simp add: slice_in nat_diff_distrib)
    have l1: "length (drop (nat ?sc) src) = nat n1" using sc by (simp add: nn nat_diff_distrib)
    have cp: "go_copy dst (drop (nat ?sc) src) = drop (nat ?sc) src @ drop (nat n1) dst"
      using b(5) l1 by (simp add: go_copy_def)
    have s2: "go_slice (go_copy dst (drop (nat ?sc) src)) n1 (llen (go_copy dst (drop (nat ?sc) src))) =
        Inr (drop (nat n1) dst)"
      using b l1 unfolding cp by (simp add: slice_in nat_diff_distrib)
    have s3: "go_slice src 0 n2 = Inr (take (nat n2) src)" using b by (simp add: slice_in)
    have "length (drop (nat n1) dst) = length (take (nat n2) src)"
      using b assms(4) by (simp add: nn nat_diff_distrib)
    then have run: "copySubVector src offset start stop dst = Inr (drop (nat ?sc) src @ take (nat n2) src)"
      using False assms n s1 s2 s3 l1
      by (simp add: copySubVector_def Let_def nn [symmetric] cp)
    have "drop (nat ?sc) src @ take (nat n2) src =
        map (\<lambda>i. src ! nat ((start + int i + offset) mod ?n)) [0..<nat ?k]"
    proof (rule nth_equalityI)
      show "length (drop (nat ?sc) src @ take (nat n2) src) =
          length (map (\<lambda>i. src ! nat ((start + int i + offset) mod ?n)) [0..<nat ?k])"
        using b l1 by (simp add: nn)
    next
      fix i assume "i < length (drop (nat ?sc) src @ take (nat n2) src)"
      then have i: "int i < ?k" "i < nat ?k" using b l1 by (auto simp: nn)
      show "(drop (nat ?sc) src @ take (nat n2) src) ! i =
          map (\<lambda>i. src ! nat ((start + int i + offset) mod ?n)) [0..<nat ?k] ! i"
      proof (cases "int i < n1")
        case True
        then have "i < nat n1" by linarith
        moreover have "nat ((start + int i + offset) mod ?n) = nat ?sc + i"
          using True pos [OF i(1)] sc by (simp add: nn nat_add_distrib)
        ultimately show ?thesis using i l1 by (simp add: nth_append)
      next
        case False
        have "nat ((start + int i + offset) mod ?n) = i - nat n1" "i - nat n1 < nat n2"
          using pos [OF i(1)] False i sc b by (simp_all add: nn)
        moreover have "\<not> i < nat n1" using False by linarith
        ultimately show ?thesis using i l1 by (simp add: nth_append)
      qed
    qed
    with run show ?thesis by simp
  qed
qed

lemma length_fold_update [simp]: "length (fold (\<lambda>i b. b[p i := v i]) is b) = length b"
  by (induction "is" arbitrary: b) simp_all

lemma foldM_set_index:
  assumes "\<And>i. i \<in> set is \<Longrightarrow> 0 \<le> p i \<and> p i < llen b \<and> w i = Inr (v i)"
  shows "foldM (\<lambda>b i. rbind (w i) (set_index b (p i))) b is = Inr (fold (\<lambda>i b. b[nat (p i) := v i]) is b)"
  using assms by (induction "is" arbitrary: b) (simp_all add: set_index_in)

lemma fold_update_other: "k \<notin> p ` set is \<Longrightarrow> fold (\<lambda>i b. b[p i := v i]) is b ! k = b ! k"
  by (induction "is" arbitrary: b) (auto simp: nth_list_update_neq)

lemma fold_update_nth:
  "j \<in> set is \<Longrightarrow> inj_on p (set is) \<Longrightarrow> distinct is \<Longrightarrow> p j < length b \<Longrightarrow>
   fold (\<lambda>i b. b[p i := v i]) is b ! p j = v j"
proof (induction "is" arbitrary: b)
  case (Cons i "is")
  show ?case
  proof (cases "j = i")
    case True
    have "p j \<notin> p ` set is" using Cons.prems True by (auto simp: inj_on_def)
    then show ?thesis using Cons.prems True by (simp add: fold_update_other)
  next
    case False
    then show ?thesis using Cons by (auto simp: inj_on_def)
  qed
qed simp

lemma upto_split: "a \<le> b \<Longrightarrow> b \<le> c \<Longrightarrow> [a..b - 1] @ [b..c - 1] = [a..c - 1]" for a b c :: int
  using upto_split1 [of a b "c - 1"] by (cases "b = c") auto

lemma Window_WriteInSlice_ok:
  assumes "sv_ok (SvWindow p)" "llen buff = pcw_totlen p"
  shows "Window_WriteInSlice p buff = Inr (elems (SvWindow p))"
proof -
  let ?n = "pcw_totlen p" and ?l = "llen (pcw_window p)" and ?off = "pcw_offset p"
  let ?pos = "\<lambda>i. (i + ?off) mod ?n"
  let ?v = "\<lambda>i. if i < ?l then pcw_window p ! nat i else pcw_padding p"
  have n: "0 < ?n" and l: "0 \<le> ?l" "?l \<le> ?n" using assms(1) by auto
  define out where "out = fold (\<lambda>i b. b[nat (?pos i) := ?v i]) [0..?n - 1] buff"
  have "foldM (\<lambda>b i. rbind (Inr (?v i)) (set_index b (?pos i))) buff [0..?n - 1] = Inr out"
    unfolding out_def by (rule foldM_set_index) (use n assms(2) in auto)
  moreover have "foldM (\<lambda>b i. rbind (Inr (?v i)) (set_index b (?pos i))) buff [0..?n - 1] =
      rbind (foldM (\<lambda>b i. rbind (index (pcw_window p) i) (set_index b (?pos i))) buff [0..?l - 1])
        (\<lambda>b. foldM (\<lambda>b i. set_index b (?pos i) (pcw_padding p)) b [?l..?n - 1])"
    unfolding upto_split [OF l, symmetric] foldM_append
    by (intro rbind_cong foldM_cong) (auto simp: index_in)
  ultimately have "Window_WriteInSlice p buff = Inr out"
    using n assms(2) by (simp add: Window_WriteInSlice_def assertHasLength_def)
  moreover have "out = elems (SvWindow p)"
  proof (rule nth_equalityI)
    show "length out = length (elems (SvWindow p))" using assms(2) by (simp add: out_def)
  next
    fix k assume "k < length out"
    then have k: "int k < ?n" using assms(2) by (simp add: out_def)
    define j where "j = (int k - ?off) mod ?n"
    have pj: "nat (?pos j) = k"
      using k n by (simp add: j_def mod_add_left_eq)
    have inj: "inj_on (\<lambda>i. nat (?pos i)) (set [0..?n - 1])"
    proof (rule inj_onI)
      fix x y assume a: "x \<in> set [0..?n - 1]" "y \<in> set [0..?n - 1]" "nat (?pos x) = nat (?pos y)"
      then have "?pos x = ?pos y" using n by (metis nat_eq_iff2 nat_0_le pos_mod_sign)
      then have "(?pos x - ?off) mod ?n = (?pos y - ?off) mod ?n" by simp
      then show "x = y" using a by (simp add: mod_diff_left_eq)
    qed
    have "out ! nat (?pos j) = ?v j"
      unfolding out_def by (rule fold_update_nth [OF _ inj]) (use n k pj assms(2) in \<open>auto simp: j_def\<close>)
    then show "out ! k = elems (SvWindow p) ! k" using k pj by (simp add: j_def Let_def)
  qed
  ultimately show ?thesis by simp
qed

lemma Rotated_copy_ok:
  assumes "sv_ok (SvRotated r)" "0 \<le> start" "start < stop" "stop \<le> llen (rot_v r)" "llen dst = stop - start"
  shows "copySubVector (rot_v r) (rot_offset r) start stop dst =
    Inr (map (\<lambda>i. value_at (SvRotated r) (start + int i)) [0..<nat (stop - start)])"
proof -
  have "is_int64 (start + rot_offset r)" using assms by (auto simp: is_int64_def)
  then show ?thesis using copySubVector_ok [OF assms(2-5)] by simp
qed

lemma WriteInSlice_ok:
  assumes "sv_ok v" "llen buff = Len v"
  shows "WriteInSlice v buff = Inr (elems v)"
proof (cases v)
  case (SvConstant c)
  then have l: "length buff = nat (const_length c)" using assms by simp
  have "map (\<lambda>_. const_value c) buff = elems v"
    by (rule nth_equalityI) (simp_all add: SvConstant l)
  then show ?thesis using assms SvConstant by (simp add: Constant_WriteInSlice_def assertHasLength_def)
next
  case (SvRegular r)
  then show ?thesis using assms by (simp add: Regular_WriteInSlice_def assertHasLength_def)
next
  case (SvWindow p)
  then show ?thesis using assms Window_WriteInSlice_ok by simp
next
  case (SvRotated r)
  then show ?thesis
    using assms Rotated_copy_ok [of r 0 "llen (rot_v r)" buff]
    by (simp add: Rotated_WriteInSlice_def WriteSubVectorInSlice_def elems_def)
qed

lemma WriteInSlice_refuses: "llen buff \<noteq> Len v \<Longrightarrow> \<exists>m. WriteInSlice v buff = Inl (Panic m)"
  by (cases v) (auto simp: Constant_WriteInSlice_def Regular_WriteInSlice_def Window_WriteInSlice_def
      Rotated_WriteInSlice_def WriteSubVectorInSlice_def copySubVector_def assertHasLength_def Let_def)

lemma make_vec_ok [simp]: "0 \<le> n \<Longrightarrow> make_vec n = Inr (replicate (nat n) 0)"
  by (simp add: make_vec_def)

lemma IntoRegVec_ok: "sv_ok v \<Longrightarrow> IntoRegVec v = Inr (elems v)"
  using Len_pos [of v] by (simp add: IntoRegVec_def WriteInSlice_ok)

lemma rotatedAsRegular_ok: "sv_ok (SvRotated r) \<Longrightarrow> rotatedAsRegular r = Inr (elems (SvRotated r))"
  using Rotated_copy_ok [of r 0 "llen (rot_v r)"]
  by (simp add: rotatedAsRegular_def Rotated_SubVector_def elems_def)

lemma IntoRegVecSaveAlloc_ok: "sv_ok v \<Longrightarrow> IntoRegVecSaveAlloc v = Inr (elems v)"
  by (cases v) (simp_all add: IntoRegVec_ok rotatedAsRegular_ok)

subsection \<open>Constructors\<close>

lemma NewConstant_ok: "0 < n \<Longrightarrow> NewConstant x n = Inr \<lparr>const_value = x, const_length = n\<rparr>"
  by (simp add: NewConstant_def)

lemma denotes_Constant: "0 < n \<Longrightarrow> n < 2 ^ 62 \<Longrightarrow> (\<And>i. 0 \<le> i \<Longrightarrow> i < n \<Longrightarrow> f i = x) \<Longrightarrow>
    denotes (SvConstant \<lparr>const_value = x, const_length = n\<rparr>) n f"
  by (simp add: denotes_def)

lemma denotes_Regular: "r \<noteq> [] \<Longrightarrow> llen r = n \<Longrightarrow> n < 2 ^ 62 \<Longrightarrow> (\<And>i. 0 \<le> i \<Longrightarrow> i < n \<Longrightarrow> r ! nat i = f i) \<Longrightarrow>
    denotes (SvRegular r) n f"
  by (auto simp: denotes_def)

lemma NewRegular_ok [simp]: "r \<noteq> [] \<Longrightarrow> NewRegular r = Inr (SvRegular r)"
  by (simp add: NewRegular_def assertStrictPositiveLen_def)

lemma NewWindow_ok:
  assumes "w \<noteq> []" "llen w < n" "n < 2 ^ 62"
    "\<And>i. 0 \<le> i \<Longrightarrow> i < n \<Longrightarrow> (let q = (i - off) mod n in if q < llen w then w ! nat q else pad) = f i"
  shows "\<exists>p. NewPaddedCircularWindow w pad off n = Inr p \<and> denotes (SvWindow p) n f"
proof -
  have n: "0 < n" using assms(2) by linarith
  define p where "p = \<lparr>pcw_window = w, pcw_padding = pad, pcw_totlen = n, pcw_offset = off mod n\<rparr>"
  have "value_at (SvWindow p) i = f i" if "0 \<le> i" "i < n" for i
    using assms(4) [OF that] by (auto simp: p_def Let_def mod_diff_right_eq split: if_splits)
  moreover have "sv_ok (SvWindow p)" "Len (SvWindow p) = n" using assms n by (simp_all add: p_def)
  moreover have "NewPaddedCircularWindow w pad off n = Inr p"
    using assms n by (simp add: NewPaddedCircularWindow_def p_def)
  ultimately show ?thesis unfolding denotes_def by blast
qed

lemma DeepCopy_ok:
  assumes "sv_ok v" "\<And>r. v = SvRotated r \<Longrightarrow> \<bar>rot_offset r\<bar> \<le> llen (rot_v r)"
  shows "DeepCopy v = Inr v"
proof (cases v)
  case (SvRotated r)
  have "wrap64 (- rot_offset r) = - rot_offset r"
    using assms(1) SvRotated by (intro wrap64_id) (auto simp: is_int64_def)
  then show ?thesis using assms SvRotated by (auto simp: Rotated_DeepCopy_def NewRotated_def)
next
  case (SvWindow p)
  then show ?thesis using assms by (auto simp: Window_DeepCopy_def NewPaddedCircularWindow_def)
qed (use assms in \<open>auto simp: Constant_DeepCopy_def NewConstant_def\<close>)

text \<open>A copy of a rotation by more than the length of the vector is refused.\<close>

lemma DeepCopy_refuses:
  assumes "llen (rot_v r) < \<bar>rot_offset r\<bar>" "rot_v r \<noteq> []" "- (2 ^ 63) < rot_offset r" "rot_offset r < 2 ^ 63"
  shows "\<exists>m. DeepCopy (SvRotated r) = Inl (Panic m)"
proof -
  have "wrap64 (- rot_offset r) = - rot_offset r"
    using assms(3,4) by (intro wrap64_id) (auto simp: is_int64_def)
  then show ?thesis using assms by (auto simp: Rotated_DeepCopy_def NewRotated_def)
qed

subsection \<open>Subvectors\<close>

lemma take_drop_nth: "0 \<le> a \<Longrightarrow> 0 \<le> i \<Longrightarrow> i < b - a \<Longrightarrow> b \<le> llen xs \<Longrightarrow>
    take (nat (b - a)) (drop (nat a) xs) ! nat i = xs ! nat (a + i)"
  by (simp add: nat_add_distrib)

text \<open>The seven cases of the window, seen from the start of the subvector.\<close>

lemma Window_SubVector_ok:
  assumes "sv_ok (SvWindow p)" "0 \<le> start" "start < stop" "stop \<le> pcw_totlen p"
  shows "\<exists>w. Window_SubVector p start stop = Inr w \<and>
    denotes w (stop - start) (\<lambda>i. value_at (SvWindow p) (start + i))"
proof -
  define n l off b where d: "n = pcw_totlen p" "l = llen (pcw_window p)" "off = pcw_offset p" "b = stop - start"
  define c where "c = (off - start) mod n"
  define d where "d = (c + l) mod n"
  have r: "0 < l" "l < n" "n < 2 ^ 62" "0 \<le> off" "off < n" "0 < b" "b \<le> n"
    using assms by (auto simp: d)
  have c: "0 \<le> c" "c < n" using r by (simp_all add: c_def)
  have dd: "d = (if c + l < n then c + l else c + l - n)"
    unfolding d_def using r c by (intro mod_wrap) auto
  define f where "f = (\<lambda>i. value_at (SvWindow p) (start + i))"
  have fc: "f i = (let q = (i - c) mod n in if q < l then pcw_window p ! nat q else pcw_padding p)" for i
    by (simp add: f_def d c_def Let_def mod_diff_right_eq algebra_simps)
  have fq: "(i - c) mod n = (if c \<le> i then i - c else i - c + n)" if "0 \<le> i" "i < b" for i
    using that r c by (intro mod_shift) auto
  have iv: "pcw_interval p = Inr \<lparr>circleSize = n, istart = off, IntervalLen = l\<rparr>"
    using r by (simp add: pcw_interval_def IvalWithStartLen_def d [symmetric])
  have nc: "normalize (Start \<lparr>circleSize = n, istart = off, IntervalLen = l\<rparr>) start n = c"
    using r by (simp add: normalize_def Start_def c_def)
  have nd: "normalize (Stop \<lparr>circleSize = n, istart = off, IntervalLen = l\<rparr>) start n = d"
    using r Stop_from [of "\<lparr>circleSize = n, istart = off, IntervalLen = l\<rparr>" n start]
    by (simp add: normalize_def c_def d_def ival_ok_def IsFullCircle_def)
  let ?win = "pcw_window p" and ?pad = "pcw_padding p"
  let ?pcw = "\<lambda>w off. rbind (NewPaddedCircularWindow w ?pad off b) (\<lambda>r. Inr (SvWindow r))"
  let ?goal = "\<lambda>r. \<exists>w. r = Inr w \<and> denotes w b f"
  have run: "Window_SubVector p start stop =
      (if b \<le> c \<and> c < d then rbind (NewConstant ?pad b) (\<lambda>r. Inr (SvConstant r))
       else if b \<le> d \<and> d < c then rbind (go_slice ?win (n - c) (n - c + b)) (\<lambda>reg. Inr (SvRegular reg))
       else if b \<le> d \<and> c = 0 then rbind (go_slice ?win 0 b) (\<lambda>reg. Inr (SvRegular reg))
       else if c < d \<and> d \<le> b then ?pcw ?win c
       else if c < b \<and> c \<le> d then rbind (go_slice ?win 0 (b - c)) (\<lambda>w. ?pcw w c)
       else if d < c \<and> c < b
       then rbind (go_slice ?win 0 (b - c)) (\<lambda>left. rbind (go_slice ?win (n - c) l) (\<lambda>right. ?pcw (left @ right) c))
       else if 0 < d \<and> d < b \<and> b \<le> c then rbind (go_slice ?win (n - c) l) (\<lambda>w. ?pcw w 0)
       else if d = 0 \<and> b \<le> c then rbind (NewConstant ?pad b) (\<lambda>r. Inr (SvConstant r))
       else Inl (Panic ''unsupported case''))"
    using assms r unfolding Window_SubVector_def
    by (simp add: assertCorrectBound_def Let_def iv nc nd flip: d)
  have const: "?goal (rbind (NewConstant ?pad b) (\<lambda>r. Inr (SvConstant r)))"
    if "\<And>i. 0 \<le> i \<Longrightarrow> i < b \<Longrightarrow> f i = ?pad"
    using r that by (simp add: NewConstant_ok denotes_Constant)
  have reg: "?goal (rbind (go_slice ?win a (a + b)) (\<lambda>reg. Inr (SvRegular reg)))"
    if "0 \<le> a" "a + b \<le> l" "\<And>i. 0 \<le> i \<Longrightarrow> i < b \<Longrightarrow> f i = ?win ! nat (a + i)" for a
    using r that take_drop_nth [of a _ "a + b" ?win]
    by (auto simp: slice_in d(2) nat_add_distrib intro!: denotes_Regular)
  have win: "?goal (?pcw w off)"
    if "w \<noteq> []" "llen w < b" "\<And>i. 0 \<le> i \<Longrightarrow> i < b \<Longrightarrow> (let q = (i - off) mod b in if q < llen w then w ! nat q else ?pad) = f i"
    for w off
    using NewWindow_ok [OF that(1,2) _ that(3)] r by auto
  have fi: "f i = (let q = (if c \<le> i then i - c else i - c + n) in if q < l then ?win ! nat q else ?pad)"
    if "0 \<le> i" "i < b" for i
    using fq [OF that] by (simp add: fc)
  have in_b: "(i - c) mod b = (if c \<le> i then i - c else i - c + b)" if "0 \<le> i" "i < b" "c < b" for i
    using that c by (intro mod_shift) auto
  have "?goal (Window_SubVector p start stop)"
  proof -
    consider (out) "b \<le> c" "c < d \<or> d = 0" | (inside) "b \<le> d" "d < c" | (inside0) "b \<le> d" "c = 0"
      | (whole) "c < d" "d \<le> b" "0 < c \<or> d < b" | (left) "0 < c" "c < b" "b < d"
      | (both) "d < c" "c < b" | (right) "0 < d" "d < b" "b \<le> c" "d < c"
      using r c dd by (simp split: if_splits) linarith+
    then show ?thesis
    proof cases
      case out
      have "f i = ?pad" if "0 \<le> i" "i < b" for i
        using fi [OF that] out dd that r c by (simp add: Let_def split: if_splits)
      then show ?thesis using const out r unfolding run by auto
    next
      case inside
      have "?goal (rbind (go_slice ?win (n - c) (n - c + b)) (\<lambda>reg. Inr (SvRegular reg)))"
      proof (rule reg)
        fix i assume i: "0 \<le> i" "i < b"
        then show "f i = ?win ! nat (n - c + i)"
          using fi [OF i] inside dd r c by (simp add: Let_def algebra_simps split: if_splits)
      qed (use inside dd c r in \<open>simp_all split: if_splits\<close>)
      then show ?thesis using inside r unfolding run by simp
    next
      case inside0
      have "?goal (rbind (go_slice ?win 0 (0 + b)) (\<lambda>reg. Inr (SvRegular reg)))"
      proof (rule reg)
        fix i assume i: "0 \<le> i" "i < b"
        then show "f i = ?win ! nat (0 + i)"
          using fi [OF i] inside0 dd r c by (simp add: Let_def split: if_splits)
      qed (use inside0 dd c r in \<open>simp_all split: if_splits\<close>)
      then show ?thesis using inside0 r unfolding run by simp
    next
      case whole
      have "?goal (?pcw ?win c)"
      proof (rule win)
        fix i assume i: "0 \<le> i" "i < b"
        then show "(let q = (i - c) mod b in if q < llen ?win then ?win ! nat q else ?pad) = f i"
          using fi [OF i] in_b [OF i] whole dd r c by (simp add: Let_def d(2) split: if_splits)
      qed (use whole dd c r in \<open>auto simp: d(2) split: if_splits\<close>)
      then show ?thesis using whole c r unfolding run by auto
    next
      case left
      have "?goal (?pcw (take (nat (b - c)) ?win) c)"
      proof (rule win)
        fix i assume i: "0 \<le> i" "i < b"
        then show "(let q = (i - c) mod b in if q < llen (take (nat (b - c)) ?win)
            then take (nat (b - c)) ?win ! nat q else ?pad) = f i"
          using fi [OF i] in_b [OF i] left dd r c by (auto simp: Let_def d(2) split: if_splits)
      qed (use left dd c r in \<open>auto simp: d(2) split: if_splits\<close>)
      moreover have "go_slice ?win 0 (b - c) = Inr (take (nat (b - c)) ?win)"
        using left dd r by (simp add: slice_in d(2) split: if_splits)
      ultimately show ?thesis using left unfolding run by simp
    next
      case both
      let ?w = "take (nat (b - c)) ?win @ drop (nat (n - c)) ?win"
      have "?goal (?pcw ?w c)"
      proof (rule win)
        fix i assume i: "0 \<le> i" "i < b"
        have e: "nat (n - c) + nat (i - c + b) - nat (b - c) = nat (i - c + n)" if "i < c" using i both r c by linarith
        show "(let q = (i - c) mod b in if q < llen ?w then ?w ! nat q else ?pad) = f i"
          using e fi [OF i] i in_b [OF i] both dd r c by (auto simp: Let_def d(2) nth_append split: if_splits)
      qed (use both dd c r in \<open>auto simp: d(2) split: if_splits\<close>)
      moreover have "go_slice ?win 0 (b - c) = Inr (take (nat (b - c)) ?win)"
        "go_slice ?win (n - c) l = Inr (drop (nat (n - c)) ?win)"
        using both dd r c by (simp_all add: slice_in d(2) nat_diff_distrib split: if_splits)
      ultimately show ?thesis using both r unfolding run by simp
    next
      case right
      have "?goal (?pcw (drop (nat (n - c)) ?win) 0)"
      proof (rule win)
        fix i assume i: "0 \<le> i" "i < b"
        have e: "nat n + nat i - nat c = nat (i - c + n)" using i right r c by linarith
        show "(let q = (i - 0) mod b in if q < llen (drop (nat (n - c)) ?win)
            then drop (nat (n - c)) ?win ! nat q else ?pad) = f i"
          using e fi [OF i] i right dd r c by (auto simp: Let_def d(2) mod_pos_pos_trivial nat_diff_distrib nat_add_distrib split: if_splits)
      qed (use right dd c r in \<open>auto simp: d(2) split: if_splits\<close>)
      moreover have "go_slice ?win (n - c) l = Inr (drop (nat (n - c)) ?win)"
        using right dd r c by (simp add: slice_in d(2) nat_diff_distrib split: if_splits)
      ultimately show ?thesis using right r unfolding run by auto
    qed
  qed
  then show ?thesis by (simp add: d f_def)
qed

theorem SubVector_ok:
  assumes "sv_ok v" "0 \<le> start" "start < stop" "stop \<le> Len v"
  shows "\<exists>w. SubVector v start stop = Inr w \<and> denotes w (stop - start) (\<lambda>i. value_at v (start + i))"
proof (cases v)
  case (SvConstant c)
  have "wrap64 (stop - start) = stop - start"
    using assms Len_pos [OF assms(1)] by (intro wrap64_id) (simp add: is_int64_def)
  then show ?thesis
    using assms SvConstant by (simp add: Constant_SubVector_def assertCorrectBound_def NewConstant_ok denotes_def)
next
  case (SvRegular r)
  then show ?thesis
    using assms take_drop_nth [of start _ stop r]
    by (auto simp: Regular_SubVector_def slice_in intro!: denotes_Regular)
next
  case (SvWindow p)
  then show ?thesis using assms Window_SubVector_ok by simp
next
  case (SvRotated r)
  have "denotes (SvRegular (map (\<lambda>i. value_at v (start + int i)) [0..<nat (stop - start)])) (stop - start)
      (\<lambda>i. value_at v (start + i))"
    using assms Len_pos [OF assms(1)] by (intro denotes_Regular) auto
  then show ?thesis
    using assms SvRotated Rotated_copy_ok [of r start stop]
    by (simp add: Rotated_SubVector_def)
qed

lemma SubVector_elems:
  assumes "sv_ok v" "0 \<le> start" "start < stop" "stop \<le> Len v"
  shows "\<exists>w. SubVector v start stop = Inr w \<and> sv_ok w \<and> elems w = take (nat (stop - start)) (drop (nat start) (elems v))"
proof -
  obtain w where w: "SubVector v start stop = Inr w" "denotes w (stop - start) (\<lambda>i. value_at v (start + i))"
    using SubVector_ok [OF assms] by blast
  have "elems w = take (nat (stop - start)) (drop (nat start) (elems v))"
    unfolding denotes_elems [OF w(2)] using assms by (intro nth_equalityI) auto
  then show ?thesis using w by (auto simp: denotes_def)
qed

lemma SubVector_empty: "sv_ok v \<Longrightarrow> stop \<le> start \<Longrightarrow> \<exists>m. SubVector v start stop = Inl (Panic m)"
  by (cases v) (auto simp: Constant_SubVector_def Regular_SubVector_def Window_SubVector_def Rotated_SubVector_def
      make_vec_def copySubVector_def assertCorrectBound_def require_def)

subsection \<open>Rotations\<close>

text \<open>
  A window and a regular vector rotate to the right: position \<open>i\<close> of the result is position
  \<open>i - offset\<close> of the vector. A vector that is already rotated goes the other way.
\<close>

lemma value_at_shift: "sv_ok v \<Longrightarrow> 0 \<le> i \<Longrightarrow> i < Len v \<Longrightarrow> value_at v (i mod Len v) = value_at v i"
  by (simp add: mod_pos_pos_trivial)

lemma Window_RotateRight_ok:
  assumes "sv_ok (SvWindow p)" "\<bar>offset\<bar> \<le> 2 ^ 62"
  shows "\<exists>w. RotateRight (SvWindow p) offset = Inr w \<and>
    denotes w (pcw_totlen p) (\<lambda>i. value_at (SvWindow p) (i - offset))"
proof -
  have "wrap64 (pcw_offset p + offset) = pcw_offset p + offset"
    using assms by (intro wrap64_id) (auto simp: is_int64_def)
  moreover have "\<exists>w. NewPaddedCircularWindow (pcw_window p) (pcw_padding p) (pcw_offset p + offset) (pcw_totlen p) = Inr w \<and>
      denotes (SvWindow w) (pcw_totlen p) (\<lambda>i. value_at (SvWindow p) (i - offset))"
    by (rule NewWindow_ok) (use assms in \<open>auto simp: Let_def algebra_simps\<close>)
  ultimately show ?thesis by (auto simp: Window_RotateRight_def)
qed

lemma Regular_RotateRight_ok:
  assumes "sv_ok (SvRegular r)" "\<bar>offset\<bar> \<le> llen r"
  shows "\<exists>w. RotateRight (SvRegular r) offset = Inr w \<and>
    denotes w (llen r) (\<lambda>i. value_at (SvRegular r) ((i - offset) mod llen r))"
proof -
  have w: "wrap64 (- offset) = - offset" "wrap64 offset = offset"
    using assms by (auto intro!: wrap64_id simp: is_int64_def)
  then show ?thesis
    using assms by (auto simp: Regular_RotateRight_def NewRotated_def denotes_def)
qed

lemma Rotated_RotateRight_ok:
  assumes "sv_ok (SvRotated r)" "\<bar>rot_offset r\<bar> \<le> llen (rot_v r)" "- (2 ^ 61) \<le> offset" "offset \<le> 2 ^ 40" "llen (rot_v r) < 2 ^ 61"
  shows "\<exists>w. RotateRight (SvRotated r) offset = Inr w \<and>
    denotes w (llen (rot_v r)) (\<lambda>i. value_at (SvRotated r) (i + offset))"
proof -
  have "wrap64 (rot_offset r + offset) = rot_offset r + offset" "wrap64 (- rot_offset r) = - rot_offset r"
    using assms by (auto intro!: wrap64_id simp: is_int64_def)
  then show ?thesis
    using assms by (auto simp: Rotated_RotateRight_def Rotated_DeepCopy_def NewRotated_def denotes_def algebra_simps)
qed

text \<open>Two rotations of a regular vector by the same offset cancel.\<close>

lemma RotateRight_twice:
  assumes "sv_ok (SvRegular r)" "0 \<le> k" "k \<le> llen r" "k \<le> 2 ^ 40"
  shows "\<exists>w w'. RotateRight (SvRegular r) k = Inr w \<and> RotateRight w k = Inr w' \<and> sv_ok w' \<and> elems w' = r"
proof -
  have w: "wrap64 (- k) = - k" "wrap64 k = k" using assms by (auto intro!: wrap64_id simp: is_int64_def)
  have "wrap64 0 = 0" by (simp add: is_int64_def)
  moreover have "elems (SvRotated \<lparr>rot_v = r, rot_offset = 0\<rparr>) = r"
    by (rule nth_equalityI) auto
  ultimately show ?thesis
    using assms w
    by (auto simp: Regular_RotateRight_def Rotated_RotateRight_def Rotated_DeepCopy_def NewRotated_def)
qed

text \<open>\<open>SoftRotate\<close> moves a window to the right and a slice to the left.\<close>

lemma SoftRotate_window:
  assumes "sv_ok (SvWindow p)" "\<bar>offset\<bar> \<le> 2 ^ 62"
  shows "\<exists>w. SoftRotate (SvWindow p) offset = Inr w \<and>
    denotes w (pcw_totlen p) (\<lambda>i. value_at (SvWindow p) (i - offset))"
proof -
  have "wrap64 (pcw_offset p + offset) = pcw_offset p + offset"
    using assms by (intro wrap64_id) (auto simp: is_int64_def)
  moreover have "\<exists>w. NewPaddedCircularWindow (pcw_window p) (pcw_padding p) ((pcw_offset p + offset) mod pcw_totlen p) (pcw_totlen p) = Inr w \<and>
      denotes (SvWindow w) (pcw_totlen p) (\<lambda>i. value_at (SvWindow p) (i - offset))"
    by (rule NewWindow_ok) (use assms in \<open>auto simp: Let_def mod_diff_right_eq algebra_simps\<close>)
  ultimately show ?thesis using assms(1) by (auto simp: SoftRotate_def)
qed

lemma SoftRotate_regular:
  assumes "sv_ok (SvRegular r)" "\<bar>offset\<bar> \<le> llen r"
  shows "\<exists>w. SoftRotate (SvRegular r) offset = Inr w \<and>
    denotes w (llen r) (\<lambda>i. value_at (SvRegular r) ((i + offset) mod llen r))"
proof -
  have "wrap64 (- offset) = - offset" using assms by (auto intro!: wrap64_id simp: is_int64_def)
  then show ?thesis using assms by (auto simp: SoftRotate_def NewRotated_def denotes_def)
qed

end
