(* ===== verification/Vectors.thy ===== *)
theory Vectors
  imports SmartVec
begin

text \<open>
  Slices of field elements, \<open>src/prover/maths/common/vector/vector_wizard.go\<close>, polynomials in coefficient form,
  \<open>src/prover/maths/common/poly/poly.go\<close>, and \<open>ExpToInt\<close> of \<open>src/prover/maths/field/element.go\<close>.

  gnark-crypto's operations on field elements are those of the type class of the elements; its operations on whole
  vectors, its exponentiation and its inversions are the record \<open>gnark\<close>, with what their documentation says as
  \<open>gnark_ok\<close>. An operation that writes into its first argument returns the new contents of that slice.
\<close>

subsection \<open>gnark-crypto\<close>

record 'f gnark =
  vec_Add :: "'f list \<Rightarrow> 'f list \<Rightarrow> 'f list \<Rightarrow> 'f list result"
  vec_Sub :: "'f list \<Rightarrow> 'f list \<Rightarrow> 'f list \<Rightarrow> 'f list result"
  vec_Mul :: "'f list \<Rightarrow> 'f list \<Rightarrow> 'f list \<Rightarrow> 'f list result"
  vec_ScalarMul :: "'f list \<Rightarrow> 'f list \<Rightarrow> 'f \<Rightarrow> 'f list result"
  vec_InnerProduct :: "'f list \<Rightarrow> 'f list \<Rightarrow> 'f result"
  elem_Exp :: "'f \<Rightarrow> int \<Rightarrow> 'f"
  elem_Inverse :: "'f \<Rightarrow> 'f"
  elem_BatchInvert :: "'f list \<Rightarrow> 'f list"

text \<open>A vector operation works position by position and panics when the lengths differ; an exponent may be
  negative, and the inverse of zero is zero.\<close>

definition pow_int :: "('f::comm_ring_1) gnark \<Rightarrow> 'f \<Rightarrow> int \<Rightarrow> 'f" where
  "pow_int g x k = (if 0 \<le> k then x ^ nat k else elem_Inverse g x ^ nat (- k))"

definition pointwise ::
  "('f list \<Rightarrow> 'f list \<Rightarrow> 'f list \<Rightarrow> 'f list result) \<Rightarrow> ('f \<Rightarrow> 'f \<Rightarrow> 'f) \<Rightarrow> bool" where
  "pointwise vop f \<longleftrightarrow>
     (\<forall>r a b. (length a = length r \<and> length b = length r \<longrightarrow> vop r a b = Inr (map2 f a b)) \<and>
              (\<not> (length a = length r \<and> length b = length r) \<longrightarrow> (\<exists>m. vop r a b = Inl (Panic m))))"

definition gnark_ok :: "('f::comm_ring_1) gnark \<Rightarrow> bool" where
  "gnark_ok g \<longleftrightarrow>
     pointwise (vec_Add g) (+) \<and> pointwise (vec_Sub g) (-) \<and> pointwise (vec_Mul g) (*) \<and>
     (\<forall>r a s. length a = length r \<longrightarrow> vec_ScalarMul g r a s = Inr (map (\<lambda>x. x * s) a)) \<and>
     (\<forall>r a s. length a \<noteq> length r \<longrightarrow> (\<exists>m. vec_ScalarMul g r a s = Inl (Panic m))) \<and>
     (\<forall>a b. length a = length b \<longrightarrow> vec_InnerProduct g a b = Inr (sum_list (map2 (*) a b))) \<and>
     (\<forall>a b. length a \<noteq> length b \<longrightarrow> (\<exists>m. vec_InnerProduct g a b = Inl (Panic m))) \<and>
     (\<forall>x k. elem_Exp g x k = pow_int g x k) \<and>
     elem_Inverse g 0 = 0 \<and> (\<forall>x. x \<noteq> 0 \<longrightarrow> x * elem_Inverse g x = 1) \<and>
     (\<forall>xs. elem_BatchInvert g xs = map (elem_Inverse g) xs)"

subsection \<open>Operations on slices\<close>

definition Vec_ScalarMul :: "'f gnark \<Rightarrow> 'f list \<Rightarrow> 'f list \<Rightarrow> 'f \<Rightarrow> 'f list result" where
  "Vec_ScalarMul g res vec scalar =
     (if length res + length vec = 0 then Inr res else vec_ScalarMul g res vec scalar)"

definition Vec_ScalarProd :: "'f gnark \<Rightarrow> 'f list \<Rightarrow> 'f list \<Rightarrow> 'f result" where
  "Vec_ScalarProd g a b = vec_InnerProduct g a b"

definition Vec_MulElementWise :: "'f gnark \<Rightarrow> 'f list \<Rightarrow> 'f list \<Rightarrow> 'f list \<Rightarrow> 'f list result" where
  "Vec_MulElementWise g res a b = vec_Mul g res a b"

definition Vec_Reverse :: "'f list \<Rightarrow> 'f list result" where
  "Vec_Reverse v =
     (let n = llen v - 1 in
      foldM (\<lambda>v i. rbind (index v (n - i)) (\<lambda>x. rbind (index v i) (\<lambda>y.
               rbind (set_index v i x) (\<lambda>v. set_index v (n - i) y)))) v [0..llen v div 2 - 1])"

definition Vec_Fill :: "'f list \<Rightarrow> 'f \<Rightarrow> 'f list" where
  "Vec_Fill v val = map (\<lambda>_. val) v"

definition Vec_Repeat :: "('f::zero) \<Rightarrow> int \<Rightarrow> 'f list result" where
  "Vec_Repeat x n = rbind (make_vec n) (\<lambda>res. Inr (map (\<lambda>_. x) res))"

definition Vec_ForTest :: "int list \<Rightarrow> ('f::ring_1) list" where
  "Vec_ForTest xs = map of_int xs"

definition Vec_Add :: "'f gnark \<Rightarrow> 'f list \<Rightarrow> 'f list \<Rightarrow> 'f list \<Rightarrow> 'f list list \<Rightarrow> 'f list result" where
  "Vec_Add g res a b extras =
     (if length res + length a + length b = 0 then Inr res
      else rbind (vec_Add g res a b) (\<lambda>r. foldM (\<lambda>r x. vec_Add g r r x) r extras))"

definition Vec_Sub :: "'f gnark \<Rightarrow> 'f list \<Rightarrow> 'f list \<Rightarrow> 'f list \<Rightarrow> 'f list result" where
  "Vec_Sub g res a b =
     (if length res + length a + length b = 0 then Inr res else vec_Sub g res a b)"

definition Vec_ZeroPad :: "('f::zero) list \<Rightarrow> int \<Rightarrow> 'f list result" where
  "Vec_ZeroPad v newLen =
     (if newLen < llen v then Inl (Panic ''newLen < len(v)'')
      else rbind (make_vec newLen) (\<lambda>res. Inr (go_copy res v)))"

definition Vec_Interleave :: "('f::zero) list list \<Rightarrow> 'f list result" where
  "Vec_Interleave vecs =
     rbind (index vecs 0) (\<lambda>v0.
     let numVecs = llen vecs; vecSize = llen v0 in
     rbind (require (list_all (\<lambda>v. llen v = vecSize) vecs) (Panic ''length mismatch'')) (\<lambda>_.
     rbind (make_vec (numVecs * vecSize)) (\<lambda>res.
     foldM (\<lambda>res i. foldM (\<lambda>res j.
         rbind (index vecs j) (\<lambda>v. rbind (index v i) (\<lambda>x. set_index res (i * numVecs + j) x)))
       res [0..numVecs - 1]) res [0..vecSize - 1])))"

definition Vec_PowerVec :: "('f::comm_ring_1) \<Rightarrow> int \<Rightarrow> 'f list result" where
  "Vec_PowerVec x n =
     (if x = 0 then Inl (Panic ''cannot build a power vec for x=0'')
      else if n = 0 then Inr []
      else rbind (make_vec n) (\<lambda>res.
           rbind (set_index res 0 1) (\<lambda>res.
           foldM (\<lambda>res i. rbind (index res (i - 1)) (\<lambda>y. set_index res i (y * x))) res [1..n - 1])))"

definition Vec_Equal :: "'f list \<Rightarrow> 'f list \<Rightarrow> bool result" where
  "Vec_Equal a b =
     (if length a \<noteq> length b then Inl (Panic ''a and b don't have the same length'')
      else Inr (list_all (\<lambda>(x, y). \<not> x \<noteq> y) (zip a b)))"

definition Vec_Zero :: "int \<Rightarrow> ('f::zero) list result" where
  "Vec_Zero n = rbind (make_vec n) (\<lambda>slice. Inr (map (\<lambda>_. 0) slice))"

definition Vec_PeriodicOne :: "int \<Rightarrow> int \<Rightarrow> ('f::comm_ring_1) list result" where
  "Vec_PeriodicOne period n =
     rbind (make_vec n) (\<lambda>slice.
     mapM (\<lambda>i. if period = 0 then Inl (Panic ''integer divide by zero'')
               else Inr (if go_rem i period = 0 then 1 else 0)) [0..llen slice - 1])"

subsection \<open>Polynomials and powers\<close>

definition Poly_Eval :: "('f::comm_ring_1) list \<Rightarrow> 'f \<Rightarrow> 'f" where
  "Poly_Eval pol x = foldl (\<lambda>res a. res * x + a) 0 (rev pol)"

definition Poly_Mul :: "('f::comm_ring_1) list \<Rightarrow> 'f list \<Rightarrow> 'f list result" where
  "Poly_Mul a b =
     (if a = [] \<or> b = [] then Inr []
      else rbind (make_vec (llen a + llen b - 1)) (\<lambda>res.
        foldM (\<lambda>res i. foldM (\<lambda>res j.
            rbind (index a i) (\<lambda>x. rbind (index b j) (\<lambda>y.
            rbind (index res (i + j)) (\<lambda>r. set_index res (i + j) (r + x * y)))))
          res [0..llen b - 1]) res [0..llen a - 1]))"

definition Poly_Add :: "('f::comm_ring_1) list \<Rightarrow> 'f list \<Rightarrow> 'f list result" where
  "Poly_Add a b =
     rbind (make_vec (max (llen a) (llen b))) (\<lambda>res.
     foldM (\<lambda>res i. rbind (index b i) (\<lambda>y. rbind (index res i) (\<lambda>r. set_index res i (r + y))))
       (go_copy res a) [0..llen b - 1])"

text \<open>\<open>bits.Len\<close>.\<close>

fun bits_Len :: "nat \<Rightarrow> nat" where
  "bits_Len k = (if k = 0 then 0 else Suc (bits_Len (k div 2)))"

declare bits_Len.simps [simp del]

fun ExpToInt_loop :: "('f::comm_ring_1) \<Rightarrow> int \<Rightarrow> nat \<Rightarrow> 'f \<Rightarrow> 'f" where
  "ExpToInt_loop x k 0 z = z"
| "ExpToInt_loop x k (Suc i) z =
     (let z = z * z; z = (if drop_bit i k AND 1 = 1 then z * x else z) in ExpToInt_loop x k i z)"

definition ExpToInt :: "('f::comm_ring_1) gnark \<Rightarrow> 'f \<Rightarrow> int \<Rightarrow> 'f" where
  "ExpToInt g x k =
     (if k = 0 then 1
      else let (x, k) = (if k < 0 then (elem_Inverse g x, wrap64 (- k)) else (x, k)) in
        ExpToInt_loop x k (bits_Len (nat (k mod 2 ^ 64)) - 1) x)"

subsection \<open>What they compute\<close>

lemma make_vec_nat [simp]: "make_vec (int n) = Inr (replicate n 0)"
  by (simp add: make_vec_def)

lemma bits_Len_bounds: "0 < k \<Longrightarrow> 0 < bits_Len k \<and> 2 ^ (bits_Len k - 1) \<le> k \<and> k < 2 ^ bits_Len k"
proof (induction k rule: bits_Len.induct)
  case (1 k)
  show ?case
  proof (cases "k div 2 = 0")
    case True
    then have "k = 1" using 1 by auto
    then show ?thesis by (simp add: bits_Len.simps)
  next
    case False
    then have "0 < bits_Len (k div 2)" "2 ^ (bits_Len (k div 2) - 1) \<le> k div 2" "k div 2 < 2 ^ bits_Len (k div 2)"
      using 1 by auto
    moreover have "bits_Len k = Suc (bits_Len (k div 2))" using 1 by (subst bits_Len.simps) simp
    ultimately show ?thesis by (cases "bits_Len (k div 2)") auto
  qed
qed

lemma ExpToInt_loop_mod: "n \<le> 64 \<Longrightarrow> ExpToInt_loop x k n z = ExpToInt_loop x (k mod 2 ^ 64) n z"
proof (induction n arbitrary: z)
  case (Suc n)
  have b: "drop_bit n l AND 1 = 1 \<longleftrightarrow> bit l n" for l :: int
    by (simp add: and_one_eq bit_iff_odd_drop_bit odd_iff_mod_2_eq_one)
  have "bit (k mod 2 ^ 64) n \<longleftrightarrow> bit k n"
    using Suc.prems unfolding take_bit_eq_mod [symmetric] bit_take_bit_iff by simp
  then have "drop_bit n k AND 1 = 1 \<longleftrightarrow> drop_bit n (k mod 2 ^ 64) AND 1 = 1" by (simp only: b)
  then show ?case using Suc by simp
qed simp

lemma ExpToInt_loop_pow:
  assumes "0 \<le> k"
  shows "ExpToInt_loop x k n (x ^ nat (k div 2 ^ n)) = x ^ nat k"
proof (induction n)
  case (Suc n)
  let ?h = "k div 2 ^ Suc n"
  have "?h = k div 2 ^ n div 2" by (simp add: zdiv_zmult2_eq [symmetric] mult.commute)
  then have e: "k div 2 ^ n = 2 * ?h + k div 2 ^ n mod 2" by simp
  have h: "0 \<le> ?h" using assms by (simp add: pos_imp_zdiv_nonneg_iff)
  have "(let z = x ^ nat ?h * x ^ nat ?h in if drop_bit n k AND 1 = 1 then z * x else z) = x ^ nat (k div 2 ^ n)"
  proof (cases "k div 2 ^ n mod 2 = 1")
    case True
    then have "nat (k div 2 ^ n) = nat ?h + nat ?h + 1" using e h by simp
    then show ?thesis using True by (simp add: drop_bit_eq_div and_one_eq power_add)
  next
    case False
    then have "nat (k div 2 ^ n) = nat ?h + nat ?h" using e h by (simp add: not_mod_2_eq_1_eq_0)
    then show ?thesis using False by (simp add: drop_bit_eq_div and_one_eq power_add)
  qed
  then show ?case using Suc by (simp add: Let_def)
qed simp

lemma ExpToInt_pos:
  assumes "k mod 2 ^ 64 \<noteq> 0"
  shows "ExpToInt_loop x k (bits_Len (nat (k mod 2 ^ 64)) - 1) x = x ^ nat (k mod 2 ^ 64)"
proof -
  let ?m = "k mod 2 ^ 64"
  let ?n = "bits_Len (nat ?m) - 1"
  have b: "0 < nat ?m" using assms by (simp add: order_less_le)
  from bits_Len_bounds [OF b] have l: "2 ^ ?n \<le> nat ?m" "nat ?m < 2 ^ Suc ?n" by auto
  have "(2::nat) ^ ?n < 2 ^ 64" using l(1) by (rule le_less_trans) (simp add: nat_less_iff)
  then have n: "?n \<le> 64" by (rule power_less_imp_less_exp [of "2::nat", THEN less_imp_le, rotated]) simp
  have "int (2 ^ ?n) \<le> ?m" "?m < int (2 ^ Suc ?n)" using l by (simp_all add: le_nat_iff nat_less_iff)
  then have "?m div 2 ^ ?n = 1" by (intro div_pos_geq [THEN trans]) (auto simp: div_pos_pos_trivial)
  then have "ExpToInt_loop x ?m ?n x = x ^ nat ?m" using ExpToInt_loop_pow [of ?m x ?n] by simp
  then show ?thesis using ExpToInt_loop_mod [OF n] by metis
qed

lemma ExpToInt_ok:
  assumes "is_int64 k"
  shows "ExpToInt g x k = pow_int g x k"
proof -
  have "k mod 2 ^ 64 = k" if "0 \<le> k" using assms that by (simp add: is_int64_def)
  moreover have "wrap64 (- k) mod 2 ^ 64 = - k" if "k < 0"
  proof (cases "k = - (2 ^ 63)")
    case True
    then show ?thesis by (simp add: wrap64_def)
  next
    case False
    then have "is_int64 (- k)" using assms that by (simp add: is_int64_def)
    then show ?thesis using assms that by (simp add: is_int64_def)
  qed
  ultimately show ?thesis
    using ExpToInt_pos [of k x] ExpToInt_pos [of "wrap64 (- k)" "elem_Inverse g x"]
    by (cases "k < 0") (auto simp: ExpToInt_def pow_int_def)
qed

lemma Poly_Eval_simps [simp]: "Poly_Eval [] x = 0" "Poly_Eval (a # p) x = a + x * Poly_Eval p x"
  by (simp_all add: Poly_Eval_def)

lemma Poly_Eval_sum: "Poly_Eval p x = (\<Sum>i < length p. p ! i * x ^ i)"
  by (induction p) (simp_all add: sum.lessThan_Suc_shift sum_distrib_left algebra_simps del: sum.lessThan_Suc)

lemma Poly_Eval_replicate [simp]: "Poly_Eval (replicate n 0) x = 0"
  by (induction n) simp_all

lemma Poly_Eval_append: "Poly_Eval (p @ q) x = Poly_Eval p x + x ^ length p * Poly_Eval q x"
  by (induction p) (simp_all add: algebra_simps)

lemma Poly_Eval_update: "i < length r \<Longrightarrow> Poly_Eval (r[i := r ! i + t]) x = Poly_Eval r x + t * x ^ i"
  by (induction r arbitrary: i) (auto simp: algebra_simps split: nat.splits)

lemma Poly_add_loop:
  assumes "length b \<le> length r"
  shows "\<exists>r'. foldM (\<lambda>res i. rbind (index b i) (\<lambda>y. rbind (index res i) (\<lambda>r. set_index res i (r + y)))) r [0..llen b - 1] = Inr r' \<and>
    length r' = length r \<and> (\<forall>x. Poly_Eval r' x = Poly_Eval r x + Poly_Eval (take (length b) b) x)"
  by (rule for_range [where P = "\<lambda>i r'. length r' = length r \<and> (\<forall>x. Poly_Eval r' x = Poly_Eval r x + Poly_Eval (take i b) x)"])
    (use assms in \<open>auto simp: index_nat set_index_in Poly_Eval_update take_Suc_conv_app_nth Poly_Eval_append algebra_simps\<close>)

lemma Poly_Add_ok:
  "\<exists>r. Poly_Add a b = Inr r \<and> length r = max (length a) (length b) \<and>
    (\<forall>x. Poly_Eval r x = Poly_Eval a x + Poly_Eval b x)"
proof -
  let ?r = "go_copy (replicate (max (length a) (length b)) 0) a"
  have "?r = a @ replicate (max (length a) (length b) - length a) 0" by (simp add: go_copy_def)
  then have r: "length ?r = max (length a) (length b)" "\<And>x. Poly_Eval ?r x = Poly_Eval a x"
    by (simp_all add: Poly_Eval_append)
  have "make_vec (max (llen a) (llen b)) = Inr (replicate (max (length a) (length b)) 0)"
    using make_vec_nat [of "max (length a) (length b)"] by (simp add: of_nat_max)
  then show ?thesis using Poly_add_loop [of b ?r] r by (auto simp: Poly_Add_def)
qed

text \<open>The schoolbook product is the product of the polynomials.\<close>

lemma Poly_Mul_row:
  assumes "i < length a" "length r = length a + length b - 1"
  shows "\<exists>r'. foldM (\<lambda>res j. rbind (index a (int i)) (\<lambda>x. rbind (index b j) (\<lambda>y.
      rbind (index res (int i + j)) (\<lambda>r. set_index res (int i + j) (r + x * y))))) r [0..llen b - 1] = Inr r' \<and>
    length r' = length r \<and> (\<forall>x. Poly_Eval r' x = Poly_Eval r x + a ! i * x ^ i * Poly_Eval (take (length b) b) x)"
  by (rule for_range [where P = "\<lambda>j r'. length r' = length r \<and>
          (\<forall>x. Poly_Eval r' x = Poly_Eval r x + a ! i * x ^ i * Poly_Eval (take j b) x)"])
    (use assms in \<open>auto simp: index_nat index_in set_index_in nat_add_distrib Poly_Eval_update take_Suc_conv_app_nth
       Poly_Eval_append power_add algebra_simps\<close>)

lemma Poly_Mul_ok:
  "\<exists>r. Poly_Mul a b = Inr r \<and> (\<forall>x. Poly_Eval r x = Poly_Eval a x * Poly_Eval b x) \<and>
    (a \<noteq> [] \<longrightarrow> b \<noteq> [] \<longrightarrow> length r = length a + length b - 1)"
  for a b :: "'f::comm_ring_1 list"
proof (cases "a = [] \<or> b = []")
  case False
  let ?n = "length a + length b - 1"
  have m: "make_vec (llen a + llen b - 1) = Inr (replicate ?n (0 :: 'f))"
    using False make_vec_nat [of ?n] by (cases a) (simp_all add: of_nat_diff)
  have "\<exists>r'. foldM (\<lambda>res i. foldM (\<lambda>res j. rbind (index a i) (\<lambda>x. rbind (index b j) (\<lambda>y.
          rbind (index res (i + j)) (\<lambda>r. set_index res (i + j) (r + x * y))))) res [0..llen b - 1])
        (replicate ?n 0) [0..llen a - 1] = Inr r' \<and>
      (length r' = ?n \<and> (\<forall>x. Poly_Eval r' x = Poly_Eval (take (length a) a) x * Poly_Eval b x))"
  proof (rule for_range [where P = "\<lambda>i r'. length r' = ?n \<and> (\<forall>x. Poly_Eval r' x = Poly_Eval (take i a) x * Poly_Eval b x)"])
    fix i r
    assume i: "i < length a" and r: "length r = ?n \<and> (\<forall>x. Poly_Eval r x = Poly_Eval (take i a) x * Poly_Eval b x)"
    from Poly_Mul_row [OF i, of r b] r i
    show "\<exists>r'. foldM (\<lambda>res j. rbind (index a (0 + int i)) (\<lambda>x. rbind (index b j) (\<lambda>y.
          rbind (index res (0 + int i + j)) (\<lambda>r. set_index res (0 + int i + j) (r + x * y))))) r [0..llen b - 1] = Inr r' \<and>
        length r' = ?n \<and> (\<forall>x. Poly_Eval r' x = Poly_Eval (take (Suc i) a) x * Poly_Eval b x)"
      by (auto simp: take_Suc_conv_app_nth Poly_Eval_append algebra_simps)
  qed auto
  with m False show ?thesis by (auto simp: Poly_Mul_def)
qed (auto simp: Poly_Mul_def)

lemma Vec_PowerVec_ok:
  assumes "x \<noteq> 0"
  shows "Vec_PowerVec x (int n) = Inr (map (\<lambda>i. x ^ i) [0..<n])"
proof (cases n)
  case (Suc m)
  have "\<exists>r. foldM (\<lambda>res i. rbind (index res (i - 1)) (\<lambda>y. set_index res i (y * x))) ((replicate n 0)[0 := 1]) [1..int n - 1] = Inr r \<and>
      (length r = n \<and> (\<forall>j \<le> m. r ! j = x ^ j))"
    by (rule for_range [where P = "\<lambda>i r. length r = n \<and> (\<forall>j \<le> i. r ! j = x ^ j)"])
      (use Suc in \<open>auto simp: index_in set_index_in nat_add_distrib nth_list_update le_Suc_eq mult.commute\<close>)
  then obtain r where r: "foldM (\<lambda>res i. rbind (index res (i - 1)) (\<lambda>y. set_index res i (y * x))) ((replicate n 0)[0 := 1]) [1..int n - 1] = Inr r"
    "length r = n" "\<forall>j \<le> m. r ! j = x ^ j" by blast
  have "r = map (\<lambda>i. x ^ i) [0..<n]" using r(2,3) Suc by (intro nth_equalityI) (auto simp del: upt_Suc)
  then show ?thesis using assms Suc r(1) by (simp add: Vec_PowerVec_def set_index_in del: of_nat_Suc)
qed (simp add: Vec_PowerVec_def assms)

lemma Vec_Reverse_ok: "Vec_Reverse v = Inr (rev v)"
proof -
  let ?n = "length v"
  let ?f = "\<lambda>u i. rbind (index u (llen v - 1 - i)) (\<lambda>x. rbind (index u i) (\<lambda>y.
          rbind (set_index u i x) (\<lambda>u. set_index u (llen v - 1 - i) y)))"
  let ?P = "\<lambda>i r. length r = ?n \<and> (\<forall>k < ?n. r ! k = (if k < i \<or> ?n - 1 - k < i then v ! (?n - 1 - k) else v ! k))"
  have "\<exists>r. foldM ?f v [0..llen v div 2 - 1] = Inr r \<and> ?P (?n div 2) r"
  proof (rule for_range [where P = ?P])
    fix i r
    assume i: "i < ?n div 2" and r: "?P i r"
    have d: "nat (llen v - 1 - int i) = ?n - 1 - i" "0 \<le> llen v - 1 - int i" "llen v - 1 - int i < llen v" using i by auto
    then have "?f r (0 + int i) = Inr (r[i := r ! (?n - 1 - i), ?n - 1 - i := r ! i])"
      using i r by (simp add: index_in set_index_in)
    moreover have "?P (Suc i) (r[i := r ! (?n - 1 - i), ?n - 1 - i := r ! i])"
      using i r by (auto simp: nth_list_update)
    ultimately show "\<exists>r'. ?f r (0 + int i) = Inr r' \<and> ?P (Suc i) r'" by blast
  qed (auto simp: zdiv_int)
  then obtain r where r: "foldM ?f v [0..llen v div 2 - 1] = Inr r" "?P (?n div 2) r" by blast
  have "r = rev v"
  proof (rule nth_equalityI)
    fix k assume "k < length r"
    moreover have "k < ?n div 2 \<or> ?n - 1 - k < ?n div 2 \<or> ?n - 1 - k = k" using calculation r(2) by linarith
    ultimately show "r ! k = rev v ! k" using r(2) by (auto simp: rev_nth)
  qed (simp add: r(2))
  then show ?thesis using r(1) by (simp add: Vec_Reverse_def Let_def)
qed

lemma grid_index:
  assumes "j < k" "j' < (k::nat)"
  shows "i * k + j = i' * k + j' \<longleftrightarrow> i = i' \<and> j = j'"
proof
  assume e: "i * k + j = i' * k + j'"
  from arg_cong [OF e, of "\<lambda>x. x div k"] arg_cong [OF e, of "\<lambda>x. x mod k"] assms show "i = i' \<and> j = j'" by simp
qed simp

lemma Vec_Interleave_ok:
  assumes "vecs \<noteq> []" "\<And>v. v \<in> set vecs \<Longrightarrow> length v = m"
  shows "\<exists>res. Vec_Interleave vecs = Inr res \<and> length res = length vecs * m \<and>
    (\<forall>i < m. \<forall>j < length vecs. res ! (i * length vecs + j) = vecs ! j ! i)"
proof -
  let ?k = "length vecs"
  let ?f = "\<lambda>i res j. rbind (index vecs j) (\<lambda>v. rbind (index v i) (\<lambda>x. set_index res (i * int ?k + j) x))"
  let ?P = "\<lambda>i j r. length r = ?k * m \<and>
    (\<forall>i' < m. \<forall>j' < ?k. i' < i \<or> i' = i \<and> j' < j \<longrightarrow> r ! (i' * ?k + j') = vecs ! j' ! i')"
  have row: "\<exists>r'. foldM (?f (int i)) r [0..int ?k - 1] = Inr r' \<and> ?P i ?k r'" if "i < m" "?P i 0 r" for i r
  proof (rule for_range [where P = "?P i"])
    fix j r
    assume j: "j < ?k" and r: "?P i j r"
    have "i * ?k + j < Suc i * ?k" using j by simp
    also have "\<dots> \<le> m * ?k" using that(1) by (intro mult_right_mono) auto
    finally have b: "i * ?k + j < ?k * m" by (simp add: mult.commute)
    have "?f (int i) r (0 + int j) = Inr (r[i * ?k + j := vecs ! j ! i])"
      using j that(1) assms(2) [of "vecs ! j"] r b
      by (simp add: index_nat set_index_def flip: of_nat_mult of_nat_add)
    moreover have "?P i (Suc j) (r[i * ?k + j := vecs ! j ! i])"
      using r j b by (auto simp: nth_list_update grid_index less_Suc_eq)
    ultimately show "\<exists>r'. ?f (int i) r (0 + int j) = Inr r' \<and> ?P i (Suc j) r'" by blast
  qed (use that in auto)
  have "\<exists>r'. foldM (\<lambda>res i. foldM (?f i) res [0..int ?k - 1]) (replicate (?k * m) 0) [0..int m - 1] = Inr r' \<and> ?P m 0 r'"
  proof (rule for_range [where P = "\<lambda>i. ?P i 0"])
    fix i r
    assume "i < m" "?P i 0 r"
    with row obtain r' where "foldM (?f (int i)) r [0..int ?k - 1] = Inr r'" "?P i ?k r'" by blast
    then show "\<exists>r'. foldM (?f (0 + int i)) r [0..int ?k - 1] = Inr r' \<and> ?P (Suc i) 0 r'"
      by (auto simp: less_Suc_eq)
  qed auto
  moreover have "llen (vecs ! 0) = int m" using assms by simp
  moreover have "list_all (\<lambda>v. llen v = int m) vecs" using assms(2) by (simp add: list_all_iff)
  moreover have "make_vec (int ?k * int m) = Inr (replicate (?k * m) 0)" by (simp flip: of_nat_mult)
  ultimately show ?thesis using assms(1) by (auto simp: Vec_Interleave_def index_in)
qed

end
