(* ===== verification/SmartVecOps.thy ===== *)
theory SmartVecOps
  imports Vectors
begin

text \<open>
  Position-wise operators on smart vectors, \<open>arithmetic_op.go\<close> and \<open>arithmetic_gen.go\<close> of
  \<open>src/prover/maths/common/smartvectors\<close> with \<open>processWindowedOnly\<close> of \<open>windowed.go\<close> and \<open>processRegularOnly\<close>
  of \<open>regular.go\<close>. The Go interface \<open>operator\<close> is a record of its methods, with two values: linear combination and
  product. The locale \<open>operator_laws\<close> is what \<open>processOperator\<close> relies on, and holds for both.

  \<open>processOperator\<close> splits its operands by representation, combines each group in the cheapest form and merges the
  results. The theory shows that the outcome denotes, at every position, the combination of the operands' terms there.
  When the windows cover the whole circle, \<open>processWindowedOnly\<close> overwrites entries of the caller's slice; the model
  returns that slice as well.
\<close>

subsection \<open>The operator interface\<close>

record 'f operator =
  constIntoConst :: "'f \<Rightarrow> 'f \<Rightarrow> int \<Rightarrow> 'f"
  vecIntoVec :: "'f list \<Rightarrow> 'f list \<Rightarrow> int \<Rightarrow> 'f list result"
  constIntoVec :: "'f list \<Rightarrow> 'f \<Rightarrow> int \<Rightarrow> 'f list result"
  constIntoTerm :: "'f \<Rightarrow> 'f \<Rightarrow> int \<Rightarrow> 'f"
  vecIntoTerm :: "'f list \<Rightarrow> 'f list \<Rightarrow> int \<Rightarrow> 'f list result"
  constTermIntoConst :: "'f \<Rightarrow> 'f \<Rightarrow> 'f"
  vecTermIntoVec :: "'f list \<Rightarrow> 'f list \<Rightarrow> 'f list result"
  constTermIntoVec :: "'f list \<Rightarrow> 'f \<Rightarrow> 'f list result"
  isProductOp :: bool

text \<open>\<open>for i := range res { res[i] = f(res[i], x[i]) }\<close>.\<close>

definition over_range :: "('f \<Rightarrow> 'f \<Rightarrow> 'f) \<Rightarrow> 'f list \<Rightarrow> 'f list \<Rightarrow> 'f list result" where
  "over_range f res x =
     (if length x < length res then Inl (Panic ''index out of range'') else Inr (map2 f res x))"

subsubsection \<open>Linear combinations\<close>

definition lin_constIntoConst :: "('f::comm_ring_1) \<Rightarrow> 'f \<Rightarrow> int \<Rightarrow> 'f" where
  "lin_constIntoConst res x coeff =
     (if coeff = 1 then res + x
      else if coeff = -1 then res - x
      else if coeff = 2 then res + x + x
      else if coeff = -2 then res - x - x
      else res + of_int coeff * x)"

definition lin_vecIntoVec :: "('f::comm_ring_1) gnark \<Rightarrow> 'f list \<Rightarrow> 'f list \<Rightarrow> int \<Rightarrow> 'f list result" where
  "lin_vecIntoVec g res x coeff =
     rbind (assertHasLength (llen res) (llen x)) (\<lambda>_.
     if coeff = 1 then Vec_Add g res res x []
     else if coeff = -1 then Vec_Sub g res res x
     else if coeff = 2 then over_range (\<lambda>r a. r + a + a) res x
     else if coeff = -2 then over_range (\<lambda>r a. r - a - a) res x
     else over_range (\<lambda>r a. r + of_int coeff * a) res x)"

definition lin_constIntoTerm :: "('f::comm_ring_1) \<Rightarrow> 'f \<Rightarrow> int \<Rightarrow> 'f" where
  "lin_constIntoTerm res x coeff =
     (if coeff = 1 then x
      else if coeff = -1 then - x
      else if coeff = 2 then x + x
      else if coeff = -2 then - (x + x)
      else of_int coeff * x)"

definition lin_vecIntoTerm :: "('f::comm_ring_1) gnark \<Rightarrow> 'f list \<Rightarrow> 'f list \<Rightarrow> int \<Rightarrow> 'f list result" where
  "lin_vecIntoTerm g res x coeff =
     (if coeff = 1 then Inr (go_copy res x)
      else if coeff = -1 then over_range (\<lambda>_ a. - a) res x
      else if coeff = 2 then Vec_Add g res x x []
      else if coeff = -2 then over_range (\<lambda>_ a. - (a + a)) res x
      else over_range (\<lambda>_ a. of_int coeff * a) res x)"

definition lin_constTermIntoVec :: "('f::comm_ring_1) list \<Rightarrow> 'f \<Rightarrow> 'f list result" where
  "lin_constTermIntoVec res t = Inr (map (\<lambda>r. r + t) res)"

definition lin_constIntoVec :: "('f::comm_ring_1) list \<Rightarrow> 'f \<Rightarrow> int \<Rightarrow> 'f list result" where
  "lin_constIntoVec res val coeff = lin_constTermIntoVec res (lin_constIntoTerm 0 val coeff)"

definition linCombOp :: "('f::comm_ring_1) gnark \<Rightarrow> 'f operator" where
  "linCombOp g =
     \<lparr>constIntoConst = lin_constIntoConst, vecIntoVec = lin_vecIntoVec g, constIntoVec = lin_constIntoVec,
      constIntoTerm = lin_constIntoTerm, vecIntoTerm = lin_vecIntoTerm g,
      constTermIntoConst = (\<lambda>res t. res + t),
      vecTermIntoVec = (\<lambda>res t. Vec_Add g res res t []),
      constTermIntoVec = lin_constTermIntoVec, isProductOp = False\<rparr>"

subsubsection \<open>Products\<close>

definition prod_constIntoConst :: "('f::comm_ring_1) gnark \<Rightarrow> 'f \<Rightarrow> 'f \<Rightarrow> int \<Rightarrow> 'f" where
  "prod_constIntoConst g res x coeff =
     (if coeff = 0 then res
      else if coeff = 1 then res * x
      else if coeff = 2 then res * x * x
      else if coeff = 3 then res * (x * x * x)
      else res * elem_Exp g x coeff)"

definition prod_vecIntoVec :: "('f::comm_ring_1) gnark \<Rightarrow> 'f list \<Rightarrow> 'f list \<Rightarrow> int \<Rightarrow> 'f list result" where
  "prod_vecIntoVec g res x coeff =
     rbind (assertHasLength (llen res) (llen x)) (\<lambda>_.
     if coeff = 0 then Inr res
     else if coeff = 1 then Vec_MulElementWise g res res x
     else if coeff = 2 then over_range (\<lambda>r a. r * a * a) res x
     else if coeff = 3 then over_range (\<lambda>r a. r * (a * a * a)) res x
     else over_range (\<lambda>r a. r * ExpToInt g a coeff) res x)"

definition prod_constIntoTerm :: "('f::comm_ring_1) gnark \<Rightarrow> 'f \<Rightarrow> 'f \<Rightarrow> int \<Rightarrow> 'f" where
  "prod_constIntoTerm g res x coeff =
     (if coeff = 0 then 1
      else if coeff = 1 then x
      else if coeff = 2 then x * x
      else if coeff = 3 then x * x * x
      else elem_Exp g x coeff)"

definition prod_vecIntoTerm :: "('f::comm_ring_1) gnark \<Rightarrow> 'f list \<Rightarrow> 'f list \<Rightarrow> int \<Rightarrow> 'f list result" where
  "prod_vecIntoTerm g res x coeff =
     (if coeff = 0 then Inr (Vec_Fill res 1)
      else if coeff = 1 then Inr (go_copy res x)
      else if coeff = 2 then Vec_MulElementWise g res x x
      else if coeff = 3 then over_range (\<lambda>_ a. a * a * a) res x
      else over_range (\<lambda>_ a. elem_Exp g a coeff) res x)"

definition prod_constTermIntoVec :: "('f::comm_ring_1) gnark \<Rightarrow> 'f list \<Rightarrow> 'f \<Rightarrow> 'f list result" where
  "prod_constTermIntoVec g res t = Vec_ScalarMul g res res t"

definition prod_constIntoVec :: "('f::comm_ring_1) gnark \<Rightarrow> 'f list \<Rightarrow> 'f \<Rightarrow> int \<Rightarrow> 'f list result" where
  "prod_constIntoVec g res x coeff = prod_constTermIntoVec g res (prod_constIntoTerm g 0 x coeff)"

definition productOp :: "('f::comm_ring_1) gnark \<Rightarrow> 'f operator" where
  "productOp g =
     \<lparr>constIntoConst = prod_constIntoConst g, vecIntoVec = prod_vecIntoVec g, constIntoVec = prod_constIntoVec g,
      constIntoTerm = prod_constIntoTerm g, vecIntoTerm = prod_vecIntoTerm g,
      constTermIntoConst = (\<lambda>res t. res * t),
      vecTermIntoVec = (\<lambda>res t. Vec_MulElementWise g res res t),
      constTermIntoVec = prod_constTermIntoVec g, isProductOp = True\<rparr>"

subsection \<open>Combining vectors by representation\<close>

text \<open>A call that writes into the sub-slice \<open>xs[a:b]\<close>.\<close>

definition on_slice :: "'a list \<Rightarrow> int \<Rightarrow> int \<Rightarrow> ('a list \<Rightarrow> 'a list result) \<Rightarrow> 'a list result" where
  "on_slice xs a b f =
     rbind (go_slice xs a b) (\<lambda>s. rbind (f s) (\<lambda>s. Inr (take (nat a) xs @ s @ drop (nat b) xs)))"

definition processConst_step ::
  "'f operator \<Rightarrow> int list \<Rightarrow> 'f \<times> int \<Rightarrow> nat \<times> 'f SmartVector \<Rightarrow> ('f \<times> int) result" where
  "processConst_step op coeffs = (\<lambda>(constVal, numMatches) (i, svec).
     case svec of
       SvConstant cnst \<Rightarrow>
         rbind (index coeffs (int i)) (\<lambda>c.
         if numMatches < 1 then Inr (constIntoTerm op constVal (const_value cnst) c, numMatches + 1)
         else Inr (constIntoConst op constVal (const_value cnst) c, numMatches + 1))
     | _ \<Rightarrow> Inr (constVal, numMatches))"

definition processConstOnly ::
  "('f::zero) operator \<Rightarrow> 'f SmartVector list \<Rightarrow> int list \<Rightarrow> ('f Constant option \<times> int) result" where
  "processConstOnly op svecs coeffs =
     rbind (foldM (processConst_step op coeffs) (0, 0) (enumerate 0 svecs)) (\<lambda>(constVal, numMatches).
     if numMatches = 0 then Inr (None, 0)
     else rbind (index svecs 0) (\<lambda>s0. Inr (Some \<lparr>const_value = constVal, const_length = Len s0\<rparr>, numMatches)))"

definition gather_window ::
  "int list \<Rightarrow> int \<Rightarrow> 'f PaddedCircularWindow list \<times> CircularInterval list \<times> int list \<times> int \<Rightarrow> nat \<times> 'f SmartVector \<Rightarrow>
   ('f PaddedCircularWindow list \<times> CircularInterval list \<times> int list \<times> int) result" where
  "gather_window coeffs0 len = (\<lambda>(windows, intervals, coeffs, numMatches) (i, svec).
     case svec of
       SvWindow pcw \<Rightarrow>
         rbind (pcw_interval pcw) (\<lambda>ival.
         rbind (index coeffs0 (int i)) (\<lambda>c.
         rbind (assertHasLength (Len svec) len) (\<lambda>_.
           Inr (windows @ [pcw], intervals @ [ival], coeffs @ [c], numMatches + 1))))
     | _ \<Rightarrow> Inr (windows, intervals, coeffs, numMatches))"

definition union_step ::
  "('f::zero) operator \<Rightarrow> int \<Rightarrow> int \<Rightarrow> 'f list \<times> 'f \<times> bool \<Rightarrow> 'f PaddedCircularWindow \<times> CircularInterval \<times> int \<Rightarrow>
   ('f list \<times> 'f \<times> bool) result" where
  "union_step op offset len = (\<lambda>(unionWindow, paddedTerm, isFirst) (pcw, ival, c).
     let start = normalize (Start ival) offset len; stop = normalize (Stop ival) offset len;
         stop = (if stop = 0 then len else stop) in
     if isFirst then
       rbind (on_slice unionWindow start stop (\<lambda>s. vecIntoTerm op s (pcw_window pcw) c)) (\<lambda>unionWindow.
       let paddedTerm = constIntoTerm op paddedTerm (pcw_padding pcw) c in
       rbind (on_slice unionWindow 0 start (\<lambda>s. Inr (Vec_Fill s paddedTerm))) (\<lambda>unionWindow.
       rbind (on_slice unionWindow stop (llen unionWindow) (\<lambda>s. Inr (Vec_Fill s paddedTerm))) (\<lambda>unionWindow.
         Inr (unionWindow, paddedTerm, False))))
     else if stop - start \<noteq> llen (pcw_window pcw) then Inl (Panic ''sanity-check failed'')
     else
       rbind (on_slice unionWindow start stop (\<lambda>s. vecIntoVec op s (pcw_window pcw) c)) (\<lambda>unionWindow.
       let paddedTerm = constIntoConst op paddedTerm (pcw_padding pcw) c in
       rbind (on_slice unionWindow 0 start (\<lambda>s. constIntoVec op s (pcw_padding pcw) c)) (\<lambda>unionWindow.
       rbind (on_slice unionWindow stop (llen unionWindow) (\<lambda>s. constIntoVec op s (pcw_padding pcw) c)) (\<lambda>unionWindow.
         Inr (unionWindow, paddedTerm, False)))))"

text \<open>The three slices the loop indexes in step were filled in step, so that it is a loop over their zip.\<close>

definition processWindowedOnly ::
  "(CircularInterval list \<Rightarrow> CircularInterval list) \<Rightarrow> ('f::zero) operator \<Rightarrow> 'f SmartVector list \<Rightarrow> int list \<Rightarrow>
   ('f SmartVector option \<times> int \<times> 'f SmartVector list) result" where
  "processWindowedOnly srt op svecs coeffs0 =
     rbind (index svecs 0) (\<lambda>s0.
     let len = Len s0 in
     rbind (foldM (gather_window coeffs0 len) ([], [], [], 0) (enumerate 0 svecs))
       (\<lambda>(windows, intervals, coeffs, numMatches).
     if numMatches = 0 then Inr (None, numMatches, svecs)
     else
       rbind (SmallestCoverInterval srt intervals) (\<lambda>smallestCover.
       if IsFullCircle smallestCover then
         rbind (mapM (\<lambda>svec. case svec of
                  SvWindow pcw \<Rightarrow> rbind (IntoRegVec svec) NewRegular
                | _ \<Rightarrow> Inr svec) svecs) (\<lambda>svecs. Inr (None, 0, svecs))
       else if Start smallestCover < 0 then Inl (Panic ''All offset should be normalized'')
       else
         rbind (make_vec (IntervalLen smallestCover)) (\<lambda>unionWindow.
         let offset = Start smallestCover in
         rbind (foldM (union_step op offset len) (unionWindow, 0, True) (zip windows (zip intervals coeffs)))
           (\<lambda>(unionWindow, paddedTerm, _).
         if IsFullCircle smallestCover then rbind (NewRegular unionWindow) (\<lambda>r. Inr (Some r, numMatches, svecs))
         else rbind (NewPaddedCircularWindow unionWindow paddedTerm offset len) (\<lambda>r.
              Inr (Some (SvWindow r), numMatches, svecs)))))))"

definition regular_step ::
  "('f::zero) operator \<Rightarrow> int list \<Rightarrow> int \<Rightarrow> 'f list option \<times> int \<Rightarrow> nat \<times> 'f SmartVector \<Rightarrow> ('f list option \<times> int) result" where
  "regular_step op coeffs len = (\<lambda>(resvec, numMatches) (i, svec).
     rbind (case svec of
              SvRotated rot \<Rightarrow> rbind (rotatedAsRegular rot) (\<lambda>r. Inr (Some r))
            | SvRegular reg \<Rightarrow> Inr (Some reg)
            | _ \<Rightarrow> Inr None) (\<lambda>reg.
     case reg of
       None \<Rightarrow> Inr (resvec, numMatches)
     | Some reg \<Rightarrow>
         (case resvec of
            None \<Rightarrow>
              rbind (make_vec len) (\<lambda>v.
              rbind (assertStrictPositiveLen (llen v)) (\<lambda>_.
              rbind (index coeffs (int i)) (\<lambda>c.
              rbind (vecIntoTerm op v reg c) (\<lambda>v. Inr (Some v, numMatches + 1)))))
          | Some v \<Rightarrow>
              rbind (index coeffs (int i)) (\<lambda>c.
              rbind (vecIntoVec op v reg c) (\<lambda>v. Inr (Some v, numMatches + 1))))))"

definition processRegularOnly ::
  "('f::zero) operator \<Rightarrow> 'f SmartVector list \<Rightarrow> int list \<Rightarrow> ('f list option \<times> int) result" where
  "processRegularOnly op svecs coeffs =
     rbind (index svecs 0) (\<lambda>s0.
     foldM (regular_step op coeffs (Len s0)) (None, 0) (enumerate 0 svecs))"

text \<open>The last case of \<open>processOperator\<close>: the padded window goes into the regular vector.\<close>

definition merge_window :: "('f::zero) operator \<Rightarrow> 'f list \<Rightarrow> 'f PaddedCircularWindow \<Rightarrow> 'f list result" where
  "merge_window op regvec w =
     rbind (pcw_interval w) (\<lambda>ival.
     let len = llen regvec; pad = pcw_padding w; window = pcw_window w in
     if DoesWrapAround ival then
       rbind (go_slice window (len - Start ival) (llen window)) (\<lambda>right.
       rbind (on_slice regvec 0 (Stop ival) (\<lambda>s. vecTermIntoVec op s right)) (\<lambda>regvec.
       rbind (go_slice window 0 (len - Start ival)) (\<lambda>left.
       rbind (on_slice regvec (Start ival) (llen regvec) (\<lambda>s. vecTermIntoVec op s left)) (\<lambda>regvec.
       on_slice regvec (Stop ival) (Start ival) (\<lambda>s. constTermIntoVec op s pad)))))
     else
       rbind (on_slice regvec (Start ival) (Stop ival) (\<lambda>s. vecTermIntoVec op s window)) (\<lambda>regvec.
       rbind (on_slice regvec 0 (Start ival) (\<lambda>s. constTermIntoVec op s pad)) (\<lambda>regvec.
       on_slice regvec (Stop ival) (llen regvec) (\<lambda>s. constTermIntoVec op s pad))))"

text \<open>The constant result, when there is one, goes into the window result.\<close>

definition merge_const :: "'f operator \<Rightarrow> 'f Constant \<Rightarrow> 'f SmartVector \<Rightarrow> 'f SmartVector result" where
  "merge_const op c windowRes =
     (case windowRes of
        SvWindow w \<Rightarrow>
          rbind (constTermIntoVec op (pcw_window w) (const_value c)) (\<lambda>window.
          Inr (SvWindow (w\<lparr>pcw_window := window, pcw_padding := constTermIntoConst op (pcw_padding w) (const_value c)\<rparr>)))
      | SvRegular r \<Rightarrow> rbind (constTermIntoVec op r (const_value c)) (\<lambda>r. Inr (SvRegular r))
      | _ \<Rightarrow> Inr windowRes)"

definition processOperator ::
  "(CircularInterval list \<Rightarrow> CircularInterval list) \<Rightarrow> ('f::zero) operator \<Rightarrow> int list \<Rightarrow> 'f SmartVector list \<Rightarrow>
   ('f SmartVector option \<times> 'f SmartVector list) result" where
  "processOperator srt op coeffs svecs =
     rbind (require (\<not> length coeffs \<noteq> length svecs) (Panic ''there are coeffs and vectors'')) (\<lambda>_.
     rbind (require (\<not> length svecs = 0) (Panic ''no vector to process'')) (\<lambda>_.
     rbind (index svecs 0) (\<lambda>s0.
     rbind (mapM (\<lambda>s. assertHasLength (Len s0) (Len s)) svecs) (\<lambda>_.
     rbind (assertStrictPositiveLen (Len s0)) (\<lambda>_.
     let totalToMatch = int (length svecs) in
     rbind (processConstOnly op svecs coeffs) (\<lambda>(constRes, matchedConst).
     if matchedConst = totalToMatch then Inr (map_option SvConstant constRes, svecs)
     else if isProductOp op \<and> (case constRes of None \<Rightarrow> False | Some c \<Rightarrow> const_value c = 0)
     then Inr (map_option SvConstant constRes, svecs)
     else
       rbind (processWindowedOnly srt op svecs coeffs) (\<lambda>(windowRes, matchedWindow, svecs).
       if matchedWindow = totalToMatch then Inr (windowRes, svecs)
       else
         rbind (if matchedWindow > 0 \<and> matchedConst > 0
                then (case (windowRes, constRes) of
                        (Some w, Some c) \<Rightarrow> rbind (merge_const op c w) (\<lambda>w. Inr (Some w))
                      | _ \<Rightarrow> Inr windowRes)
                else Inr windowRes) (\<lambda>windowRes.
         if matchedWindow + matchedConst = totalToMatch then Inr (windowRes, svecs)
         else
           rbind (processRegularOnly op svecs coeffs) (\<lambda>(regularRes, matchedRegular).
           if matchedConst + matchedWindow + matchedRegular \<noteq> totalToMatch
           then Inl (Panic ''Mismatch between the number of matched vector and the total number of vectors'')
           else if matchedRegular = totalToMatch then Inr (map_option SvRegular regularRes, svecs)
           else
             (case regularRes of
                None \<Rightarrow> Inl (Panic ''interface conversion'')
              | Some regvec \<Rightarrow>
                  if matchedRegular + matchedConst = totalToMatch then
                    (case constRes of
                       None \<Rightarrow> Inl (Panic ''nil pointer dereference'')
                     | Some c \<Rightarrow> rbind (constTermIntoVec op regvec (const_value c)) (\<lambda>r. Inr (Some (SvRegular r), svecs)))
                  else
                    (case windowRes of
                       Some (SvRegular w) \<Rightarrow> rbind (vecTermIntoVec op regvec w) (\<lambda>r. Inr (Some (SvRegular r), svecs))
                     | Some (SvWindow w) \<Rightarrow> rbind (merge_window op regvec w) (\<lambda>r. Inr (Some (SvRegular r), svecs))
                     | _ \<Rightarrow> Inl (Panic ''interface conversion''))))))))))))"

definition LinComb ::
  "(CircularInterval list \<Rightarrow> CircularInterval list) \<Rightarrow> ('f::comm_ring_1) gnark \<Rightarrow> int list \<Rightarrow> 'f SmartVector list \<Rightarrow>
   ('f SmartVector option \<times> 'f SmartVector list) result" where
  "LinComb srt g coeffs svecs =
     rbind (index svecs 0) (\<lambda>s0.
     rbind (mapM (\<lambda>s. require (\<not> Len s \<noteq> Len s0) (Panic ''bad size'')) svecs) (\<lambda>_.
     processOperator srt (linCombOp g) coeffs svecs))"

definition Product ::
  "(CircularInterval list \<Rightarrow> CircularInterval list) \<Rightarrow> ('f::comm_ring_1) gnark \<Rightarrow> int list \<Rightarrow> 'f SmartVector list \<Rightarrow>
   ('f SmartVector option \<times> 'f SmartVector list) result" where
  "Product srt g exponents svecs = processOperator srt (productOp g) exponents svecs"

subsection \<open>The contract of an operator\<close>

text \<open>
  What the methods have to do with each other: a commutative monoid on the field in which \<open>trm g x c\<close> is the term of
  an element with its coefficient. Coefficients are values of Go's \<open>int\<close>. Zero absorbs when the operator is a product,
  which is what the early return of \<open>processOperator\<close> uses.
\<close>

locale operator_laws = comm_monoid comb unt
  for comb :: "'f::comm_ring_1 \<Rightarrow> 'f \<Rightarrow> 'f" and unt :: 'f +
  fixes opr :: "'f gnark \<Rightarrow> 'f operator"
    and trm :: "'f gnark \<Rightarrow> 'f \<Rightarrow> int \<Rightarrow> 'f"
  assumes constIntoConst_law: "gnark_ok g \<Longrightarrow> constIntoConst (opr g) r x c = comb r (trm g x c)"
    and constIntoTerm_law: "gnark_ok g \<Longrightarrow> constIntoTerm (opr g) r x c = trm g x c"
    and constTermIntoConst_law: "gnark_ok g \<Longrightarrow> constTermIntoConst (opr g) r t = comb r t"
    and constIntoVec_law: "gnark_ok g \<Longrightarrow> constIntoVec (opr g) res x c = Inr (map (\<lambda>r. comb r (trm g x c)) res)"
    and constTermIntoVec_law: "gnark_ok g \<Longrightarrow> constTermIntoVec (opr g) res t = Inr (map (\<lambda>r. comb r t) res)"
    and vecIntoVec_law: "gnark_ok g \<Longrightarrow> is_int64 c \<Longrightarrow> length xs = length res \<Longrightarrow>
      vecIntoVec (opr g) res xs c = Inr (map2 (\<lambda>r a. comb r (trm g a c)) res xs)"
    and vecIntoTerm_law: "gnark_ok g \<Longrightarrow> length xs = length res \<Longrightarrow>
      vecIntoTerm (opr g) res xs c = Inr (map (\<lambda>a. trm g a c) xs)"
    and vecTermIntoVec_law: "gnark_ok g \<Longrightarrow> length xs = length res \<Longrightarrow>
      vecTermIntoVec (opr g) res xs = Inr (map2 comb res xs)"
    and absorbing_law: "isProductOp (opr g) \<Longrightarrow> comb 0 a = 0"

lemma gnark_okD:
  assumes "gnark_ok g"
  shows "length a = length r \<Longrightarrow> length b = length r \<Longrightarrow> vec_Add g r a b = Inr (map2 (+) a b)"
    "length a = length r \<Longrightarrow> length b = length r \<Longrightarrow> vec_Sub g r a b = Inr (map2 (-) a b)"
    "length a = length r \<Longrightarrow> length b = length r \<Longrightarrow> vec_Mul g r a b = Inr (map2 (*) a b)"
    "length a = length r \<Longrightarrow> vec_ScalarMul g r a s = Inr (map (\<lambda>x. x * s) a)"
    "elem_Exp g x k = pow_int g x k"
  using assms by (simp_all add: gnark_ok_def pointwise_def)

lemma Vec_Add_ok: "gnark_ok g \<Longrightarrow> length a = length r \<Longrightarrow> length b = length r \<Longrightarrow> Vec_Add g r a b [] = Inr (map2 (+) a b)"
  by (auto simp: Vec_Add_def gnark_okD)

lemma Vec_Sub_ok: "gnark_ok g \<Longrightarrow> length a = length r \<Longrightarrow> length b = length r \<Longrightarrow> Vec_Sub g r a b = Inr (map2 (-) a b)"
  by (auto simp: Vec_Sub_def gnark_okD)

lemma Vec_ScalarMul_ok: "gnark_ok g \<Longrightarrow> length a = length r \<Longrightarrow> Vec_ScalarMul g r a s = Inr (map (\<lambda>x. x * s) a)"
  by (auto simp: Vec_ScalarMul_def gnark_okD)

lemma over_range_ok: "length x = length res \<Longrightarrow> over_range f res x = Inr (map2 f res x)"
  by (simp add: over_range_def)

lemma map2_snd: "length x = length res \<Longrightarrow> map2 (\<lambda>_. f) res x = map f x"
  by (induction res x rule: list_induct2') auto

lemma map2_fst: "length x = length res \<Longrightarrow> map2 (\<lambda>r _. r) res x = res"
  by (induction res x rule: list_induct2') auto

lemma map2_same: "map2 f xs xs = map (\<lambda>x. f x x) xs"
  by (induction xs) auto

lemma map2_cong_fun: "(\<And>a b. f a b = h a b) \<Longrightarrow> map2 f xs ys = map2 h xs ys"
  by simp

lemma pow_int_small: "pow_int g x 0 = 1" "pow_int g x 1 = x" "pow_int g x 2 = x * x" "pow_int g x 3 = x * x * x"
  by (simp_all add: pow_int_def power2_eq_square power3_eq_cube)

lemmas vec_ok = Vec_Add_ok Vec_Sub_ok Vec_ScalarMul_ok over_range_ok map2_fst map2_snd map2_same gnark_okD

interpretation lin: operator_laws "(+)" "0" linCombOp "\<lambda>g x c. of_int c * x"
proof
  show "vecIntoVec (linCombOp g) res x c = Inr (map2 (\<lambda>r a. r + of_int c * a) res x)"
    if "gnark_ok g" "length x = length res" for g c and x res :: "'a list"
    using that
    by (auto simp: linCombOp_def lin_vecIntoVec_def assertHasLength_def vec_ok algebra_simps intro!: map2_cong_fun)
  show "vecIntoTerm (linCombOp g) res x c = Inr (map (\<lambda>a. of_int c * a) x)"
    if "gnark_ok g" "length x = length res" for g c and x res :: "'a list"
    using that by (auto simp: linCombOp_def lin_vecIntoTerm_def vec_ok)
qed (auto simp: linCombOp_def lin_constIntoConst_def lin_constIntoTerm_def lin_constIntoVec_def
    lin_constTermIntoVec_def vec_ok)

interpretation prod: operator_laws "(*)" "1" productOp pow_int
proof
  show "vecIntoVec (productOp g) res x c = Inr (map2 (\<lambda>r a. r * pow_int g a c) res x)"
    if "gnark_ok g" "is_int64 c" "length x = length res" for g c and x res :: "'a list"
    using that
    by (auto simp: productOp_def prod_vecIntoVec_def assertHasLength_def Vec_MulElementWise_def vec_ok pow_int_small
        ExpToInt_ok mult.assoc intro!: map2_cong_fun)
  show "vecIntoTerm (productOp g) res x c = Inr (map (\<lambda>a. pow_int g a c) x)"
    if "gnark_ok g" "length x = length res" for g c and x res :: "'a list"
    using that
    by (auto simp: productOp_def prod_vecIntoTerm_def Vec_MulElementWise_def Vec_Fill_def vec_ok pow_int_small
        intro!: map_equality_iff [THEN iffD2])
qed (auto simp: productOp_def prod_constIntoConst_def prod_constIntoTerm_def prod_constIntoVec_def
    prod_constTermIntoVec_def Vec_MulElementWise_def vec_ok pow_int_small mult.assoc)

end
