(* ===== verification/SmartVecOpsCorrect.thy ===== *)
theory SmartVecOpsCorrect
  imports SmartVecOps
begin

text \<open>
  \<open>processOperator\<close> computes the position-wise combination of its operands, for every operator that keeps the
  contract \<open>operator_laws\<close>: the three groups of operands by representation, the merging of their results, and
  the instances \<open>LinComb\<close> and \<open>Product\<close>.
\<close>

subsection \<open>The combination of terms\<close>

fun is_const :: "'f SmartVector \<Rightarrow> bool" where
  "is_const (SvConstant _) \<longleftrightarrow> True"
| "is_const _ \<longleftrightarrow> False"

fun is_window :: "'f SmartVector \<Rightarrow> bool" where
  "is_window (SvWindow _) \<longleftrightarrow> True"
| "is_window _ \<longleftrightarrow> False"

fun is_reg :: "'f SmartVector \<Rightarrow> bool" where
  "is_reg (SvRegular _) \<longleftrightarrow> True"
| "is_reg (SvRotated _) \<longleftrightarrow> True"
| "is_reg _ \<longleftrightarrow> False"

abbreviation const_part :: "('f SmartVector \<times> int) list \<Rightarrow> ('f SmartVector \<times> int) list" where
  "const_part \<equiv> filter (\<lambda>p. is_const (fst p))"

abbreviation window_part :: "('f SmartVector \<times> int) list \<Rightarrow> ('f SmartVector \<times> int) list" where
  "window_part \<equiv> filter (\<lambda>p. is_window (fst p))"

abbreviation reg_part :: "('f SmartVector \<times> int) list \<Rightarrow> ('f SmartVector \<times> int) list" where
  "reg_part \<equiv> filter (\<lambda>p. is_reg (fst p))"

definition combine ::
  "('f \<Rightarrow> 'f \<Rightarrow> 'f) \<Rightarrow> 'f \<Rightarrow> ('f \<Rightarrow> int \<Rightarrow> 'f) \<Rightarrow> ('f SmartVector \<Rightarrow> 'f) \<Rightarrow> ('f SmartVector \<times> int) list \<Rightarrow> 'f" where
  "combine comb unt t f ps = foldr comb (map (\<lambda>(v, c). t (f v) c) ps) unt"

abbreviation total ::
  "('f \<Rightarrow> 'f \<Rightarrow> 'f) \<Rightarrow> 'f \<Rightarrow> ('f \<Rightarrow> int \<Rightarrow> 'f) \<Rightarrow> ('f SmartVector \<times> int) list \<Rightarrow> int \<Rightarrow> 'f" where
  "total comb unt t ps i \<equiv> combine comb unt t (\<lambda>v. value_at v i) ps"

lemma combine_simps [simp]:
  "combine comb unt t f [] = unt"
  "combine comb unt t f ((v, c) # ps) = comb (t (f v) c) (combine comb unt t f ps)"
  by (simp_all add: combine_def)

lemma combine_cong: "\<forall>p\<in>set ps. f (fst p) = h (fst p) \<Longrightarrow> combine comb unt t f ps = combine comb unt t h ps"
  by (induction ps) auto

lemma classes_length: "llen (const_part ps) + llen (window_part ps) + llen (reg_part ps) = llen ps"
proof (induction ps)
  case (Cons p ps)
  then show ?case by (cases "fst p") auto
qed simp

lemma foldM_corresponding:
  assumes "length xs = length ys" "\<And>s i. i < length xs \<Longrightarrow> f s (xs ! i) = h s (ys ! i)"
  shows "foldM f s xs = foldM h s ys"
  using assms
proof (induction xs ys arbitrary: s rule: list_induct2)
  case (Cons x xs y ys)
  have "f s x = h s y" using Cons.prems [of 0] by simp
  moreover have "foldM f s' xs = foldM h s' ys" for s'
    using Cons.IH [of s'] Cons.prems [of "Suc _"] by simp
  ultimately show ?case by (cases "h s y") simp_all
qed simp

lemma foldM_enumerate_zip:
  assumes "length vs = length cs" "\<And>s i v. i < length cs \<Longrightarrow> f s (i, v) = h s (v, cs ! i)"
  shows "foldM f s (enumerate 0 vs) = foldM h s (zip vs cs)"
  using assms by (intro foldM_corresponding) (auto simp: nth_enumerate_eq)

lemma foldM_enumerate_state:
  assumes "length ps = length vs" "\<And>i. i < length vs \<Longrightarrow> f (S (take i ps)) (i, vs ! i) = Inr (S (take (Suc i) ps))"
  shows "foldM f (S []) (enumerate 0 vs) = Inr (S ps)"
proof -
  have "foldM f (S []) (take k (enumerate 0 vs)) = Inr (S (take k ps))" if "k \<le> length vs" for k
    using that
  proof (induction k)
    case (Suc k)
    then have "take (Suc k) (enumerate 0 vs) = take k (enumerate 0 vs) @ [(k, vs ! k)]"
      by (simp add: take_Suc_conv_app_nth nth_enumerate_eq)
    then show ?case using Suc assms(2) [of k] by (simp add: foldM_append)
  qed simp
  from this [of "length vs"] show ?thesis using assms(1) by simp
qed

lemma on_slice_map:
  assumes "a \<le> b" "b \<le> L" "F (map f [a..<b]) = Inr (map h [a..<b])"
  shows "on_slice (map f [0..<L]) (int a) (int b) F = Inr (map (\<lambda>j. if a \<le> j \<and> j < b then h j else f j) [0..<L])"
proof -
  have "go_slice (map f [0..<L]) (int a) (int b) = Inr (map f [a..<b])"
    using assms(1,2) by (simp add: slice_in drop_map take_map take_upt flip: of_nat_diff)
  moreover have "take a (map f [0..<L]) @ map h [a..<b] @ drop b (map f [0..<L]) =
      map (\<lambda>j. if a \<le> j \<and> j < b then h j else f j) [0..<L]"
    using assms(1,2) by (intro nth_equalityI) (auto simp: nth_append take_map drop_map take_upt)
  ultimately show ?thesis using assms(3) by (simp add: on_slice_def)
qed

lemma on_slice_parts:
  assumes "a \<le> b" "b \<le> L" "F1 (map f [a..<b]) = Inr (map h [a..<b])" "F2 (map f [0..<a]) = Inr (map h [0..<a])"
    "F3 (map f [b..<L]) = Inr (map h [b..<L])"
  obtains u1 u2 where "on_slice (map f [0..<L]) (int a) (int b) F1 = Inr u1" "on_slice u1 0 (int a) F2 = Inr u2"
    "on_slice u2 (int b) (llen u2) F3 = Inr (map h [0..<L])"
proof -
  let ?f1 = "\<lambda>j. if a \<le> j \<and> j < b then h j else f j" and ?f2 = "\<lambda>j. if j < b then h j else f j"
  have "on_slice (map f [0..<L]) (int a) (int b) F1 = Inr (map ?f1 [0..<L])" using assms by (intro on_slice_map)
  moreover have "map ?f1 [0..<a] = map f [0..<a]" by simp
  then have "on_slice (map ?f1 [0..<L]) (int 0) (int a) F2 = Inr (map (\<lambda>j. if 0 \<le> j \<and> j < a then h j else ?f1 j) [0..<L])"
    using assms by (intro on_slice_map) (simp_all only: le0 order_trans [OF assms(1,2)])
  moreover have "(\<lambda>j. if 0 \<le> j \<and> j < a then h j else ?f1 j) = ?f2" using assms(1) by (auto simp: fun_eq_iff)
  moreover have "map ?f2 [b..<L] = map f [b..<L]" by simp
  then have "on_slice (map ?f2 [0..<L]) (int b) (int L) F3 = Inr (map (\<lambda>j. if b \<le> j \<and> j < L then h j else ?f2 j) [0..<L])"
    using assms by (intro on_slice_map) (simp_all only: order_refl)
  moreover have "map (\<lambda>j. if b \<le> j \<and> j < L then h j else ?f2 j) [0..<L] = map h [0..<L]" by simp
  ultimately show thesis using that [of "map ?f1 [0..<L]" "map ?f2 [0..<L]"] by simp
qed

lemma on_slice_outer:
  assumes "a \<le> b" "b \<le> L" "F1 (map f [0..<a]) = Inr (map h [0..<a])" "F2 (map f [b..<L]) = Inr (map h [b..<L])"
    "F3 (map f [a..<b]) = Inr (map h [a..<b])"
  obtains u1 u2 where "on_slice (map f [0..<L]) 0 (int a) F1 = Inr u1" "on_slice u1 (int b) (llen u1) F2 = Inr u2"
    "on_slice u2 (int a) (int b) F3 = Inr (map h [0..<L])"
proof -
  let ?f1 = "\<lambda>j. if j < a then h j else f j" and ?f2 = "\<lambda>j. if b \<le> j \<or> j < a then h j else f j"
  have "on_slice (map f [0..<L]) (int 0) (int a) F1 = Inr (map (\<lambda>j. if 0 \<le> j \<and> j < a then h j else f j) [0..<L])"
    using assms by (intro on_slice_map) auto
  moreover have "map ?f1 [b..<L] = map f [b..<L]" using assms(1) by simp
  then have "on_slice (map ?f1 [0..<L]) (int b) (int L) F2 = Inr (map (\<lambda>j. if b \<le> j \<and> j < L then h j else ?f1 j) [0..<L])"
    using assms by (intro on_slice_map) (simp_all only: order_refl)
  moreover have "map (\<lambda>j. if b \<le> j \<and> j < L then h j else ?f1 j) [0..<L] = map ?f2 [0..<L]" by auto
  moreover have "map ?f2 [a..<b] = map f [a..<b]" by simp
  then have "on_slice (map ?f2 [0..<L]) (int a) (int b) F3 = Inr (map (\<lambda>j. if a \<le> j \<and> j < b then h j else ?f2 j) [0..<L])"
    using assms by (intro on_slice_map) (simp_all only: order_refl)
  moreover have "(\<lambda>j. if a \<le> j \<and> j < b then h j else ?f2 j) = h" by (auto simp: fun_eq_iff)
  ultimately show thesis using that [of "map ?f1 [0..<L]" "map ?f2 [0..<L]"] by simp
qed

subsection \<open>Windows inside a cover\<close>

definition ival_of :: "'f PaddedCircularWindow \<Rightarrow> CircularInterval" where
  "ival_of p = \<lparr>circleSize = pcw_totlen p, istart = pcw_offset p, IntervalLen = llen (pcw_window p)\<rparr>"

fun win_of :: "'f SmartVector \<Rightarrow> 'f PaddedCircularWindow" where
  "win_of (SvWindow p) = p"

lemma pcw_interval_ok:
  assumes "sv_ok (SvWindow p)"
  shows "pcw_interval p = Inr (ival_of p)" "on_circle (pcw_totlen p) (ival_of p)"
  using assms by (auto simp: pcw_interval_def IvalWithStartLen_def ival_of_def on_circle_def ival_ok_def IsFullCircle_def)

lemma gather_loop:
  assumes "\<forall>p\<in>set ps. sv_ok (fst p) \<and> Len (fst p) = n"
  shows "foldM (\<lambda>(ws, is, cs, m) (v, c). case v of
      SvWindow p \<Rightarrow> rbind (pcw_interval p) (\<lambda>iv. rbind (assertHasLength (Len v) n) (\<lambda>_. Inr (ws @ [p], is @ [iv], cs @ [c], m + 1)))
    | _ \<Rightarrow> Inr (ws, is, cs, m)) (ws, is, cs, m) ps =
    Inr (ws @ map (\<lambda>p. win_of (fst p)) (window_part ps), is @ map (\<lambda>p. ival_of (win_of (fst p))) (window_part ps),
         cs @ map snd (window_part ps), m + llen (window_part ps))"
  using assms
proof (induction ps arbitrary: ws "is" cs m)
  case (Cons p ps)
  obtain v c where [simp]: "p = (v, c)" by (cases p)
  show ?case
  proof (cases v)
    case (SvWindow w)
    then have w: "pcw_interval w = Inr (ival_of w)" "pcw_totlen w = n"
      using Cons.prems pcw_interval_ok(1) [of w] by simp_all
    have "\<forall>p\<in>set ps. sv_ok (fst p) \<and> Len (fst p) = n" using Cons.prems by simp
    from Cons.IH [OF this] show ?thesis using SvWindow w by (simp add: assertHasLength_def)
  qed (use Cons in simp_all)
qed simp

lemma window_in_cover:
  assumes p: "sv_ok (SvWindow p)" "pcw_totlen p = n" and r: "on_circle n r" "\<not> IsFullCircle r"
    and sub: "points (ival_of p) \<subseteq> points r"
  defines "a \<equiv> (pcw_offset p - istart r) mod n" and "l \<equiv> llen (pcw_window p)"
  shows "0 \<le> a" "a + l \<le> IntervalLen r" "0 < l" "IntervalLen r < n"
    "normalize (Start (ival_of p)) (istart r) n = a"
    "normalize (Stop (ival_of p)) (istart r) n = a + l"
    "0 \<le> j \<Longrightarrow> j < n \<Longrightarrow> value_at (SvWindow p) ((istart r + j) mod n) =
      (if a \<le> j \<and> j < a + l then pcw_window p ! nat (j - a) else pcw_padding p)"
proof -
  have n: "0 < n" using p by auto
  have iv: "on_circle n (ival_of p)" using pcw_interval_ok(2) [OF p(1)] p(2) by simp
  show a: "0 \<le> a" using n by (simp add: a_def)
  show l: "0 < l" using p by (simp add: l_def)
  show b: "a + l \<le> IntervalLen r"
    using points_subset_iff [of r "ival_of p"] iv r sub p(2) by (simp add: on_circle_def a_def l_def ival_of_def)
  show c: "IntervalLen r < n" using r by (auto simp: on_circle_def ival_ok_def IsFullCircle_def)
  have pm: "PositiveMod x n = x mod n" for x using n by simp
  show "normalize (Start (ival_of p)) (istart r) n = a"
    by (simp add: normalize_def pm Start_def a_def ival_of_def)
  have "(Stop (ival_of p) - istart r) mod n = (a + l) mod n"
    using Stop_from [of "ival_of p" n "istart r"] iv by (simp add: on_circle_def) (simp add: ival_of_def a_def l_def)
  then show "normalize (Stop (ival_of p)) (istart r) n = a + l"
    using a b c l by (simp add: normalize_def pm)
  assume j: "0 \<le> j" "j < n"
  have "((istart r + j) mod n - pcw_offset p) mod n = (j - (pcw_offset p - istart r)) mod n"
    by (simp add: mod_diff_left_eq algebra_simps)
  also have "\<dots> = (j - a) mod n" by (simp add: a_def mod_diff_right_eq)
  also have "\<dots> = (if a \<le> j then j - a else j - a + n)" using mod_shift [of j n a] j a b c l by simp
  finally show "value_at (SvWindow p) ((istart r + j) mod n) =
      (if a \<le> j \<and> j < a + l then pcw_window p ! nat (j - a) else pcw_padding p)"
    using j a b c p(2) by (auto simp: Let_def l_def)
qed

lemma window_span:
  assumes "sv_ok (SvWindow p)" "pcw_totlen p = n" "on_circle n r" "\<not> IsFullCircle r" "points (ival_of p) \<subseteq> points r"
  obtains a b where "normalize (Start (ival_of p)) (istart r) n = int a" "normalize (Stop (ival_of p)) (istart r) n = int b"
    "a \<le> b" "b \<le> nat (IntervalLen r)" "int b \<noteq> 0" "length (pcw_window p) = b - a"
    "\<And>j. j < nat (IntervalLen r) \<Longrightarrow> value_at (SvWindow p) ((istart r + int j) mod n) =
      (if a \<le> j \<and> j < b then pcw_window p ! (j - a) else pcw_padding p)"
proof -
  note w = window_in_cover [OF assms]
  define a where "a = nat ((pcw_offset p - istart r) mod n)"
  define b where "b = a + length (pcw_window p)"
  have ab: "(pcw_offset p - istart r) mod n = int a" "int a + llen (pcw_window p) = int b" "length (pcw_window p) = b - a"
    using w(1) by (auto simp: a_def b_def)
  have le: "a \<le> b" "b \<le> nat (IntervalLen r)" "int b \<noteq> 0" using w(2,3) ab by linarith+
  have "value_at (SvWindow p) ((istart r + int j) mod n) =
      (if a \<le> j \<and> j < b then pcw_window p ! (j - a) else pcw_padding p)" if "j < nat (IntervalLen r)" for j
    using w(7) [of "int j"] w(4) that ab by (simp add: nat_diff_distrib flip: of_nat_diff)
  then show thesis using that w(5,6) ab le by simp
qed

definition sorts :: "(CircularInterval list \<Rightarrow> CircularInterval list) \<Rightarrow> bool" where
  "sorts srt \<longleftrightarrow> (\<forall>is. mset (srt is) = mset is \<and> sorted (map istart (srt is)))"

text \<open>What overwriting the caller's slice keeps: the vectors, as vectors.\<close>

definition same_vec :: "int \<Rightarrow> 'f SmartVector \<Rightarrow> 'f SmartVector \<Rightarrow> bool" where
  "same_vec n v v' \<longleftrightarrow> sv_ok v' \<and> Len v' = n \<and> (is_const v \<longrightarrow> v' = v) \<and> (is_const v' \<longrightarrow> is_const v) \<and>
     (\<forall>i. 0 \<le> i \<longrightarrow> i < n \<longrightarrow> value_at v' i = value_at v i)"

fun regular_form :: "'f SmartVector \<Rightarrow> 'f SmartVector" where
  "regular_form (SvWindow p) = SvRegular (elems (SvWindow p))"
| "regular_form v = v"

lemma regular_form_same:
  assumes "sv_ok v" "Len v = n"
  shows "same_vec n v (regular_form v)" "\<not> is_window (regular_form v)"
  using assms Len_pos [OF assms(1)] by (cases v; force simp: same_vec_def simp flip: length_greater_0_conv)+

lemma same_vecs_const_part:
  assumes "list_all2 (same_vec n) vs vs'"
  shows "const_part (zip vs' cs) = const_part (zip vs cs)"
  using assms
proof (induction arbitrary: cs)
  case (Cons v vs v' vs')
  have "is_const v \<Longrightarrow> v' = v" "is_const v' \<Longrightarrow> is_const v" using Cons.hyps(1) by (simp_all add: same_vec_def)
  then show ?case using Cons.IH by (cases cs; cases "is_const v") auto
qed simp

lemma same_vecs_total:
  assumes "list_all2 (same_vec n) vs vs'" "0 \<le> i" "i < n"
  shows "total comb unt t (zip vs' cs) i = total comb unt t (zip vs cs) i"
  using assms(1)
proof (induction arbitrary: cs)
  case (Cons v vs v' vs')
  have "value_at v' i = value_at v i" using Cons.hyps(1) assms(2,3) by (simp add: same_vec_def)
  then show ?case using Cons.IH by (cases cs) simp_all
qed simp

lemma same_vec_refl: "sv_ok v \<Longrightarrow> Len v = n \<Longrightarrow> same_vec n v v"
  by (simp add: same_vec_def)

context operator_laws
begin

lemma combine_snoc: "combine comb unt t f (ps @ [(v, c)]) = comb (combine comb unt t f ps) (t (f v) c)"
  by (induction ps) (auto simp: assoc)

lemma total_classes:
  "total comb unt t ps i =
     comb (total comb unt t (const_part ps) i) (comb (total comb unt t (window_part ps) i) (total comb unt t (reg_part ps) i))"
proof (induction ps)
  case (Cons p ps)
  obtain v c where [simp]: "p = (v, c)" by (cases p)
  show ?case by (cases v) (simp_all add: Cons.IH ac_simps)
qed simp

subsection \<open>Constants\<close>

lemma const_loop:
  assumes "gnark_ok g" "0 \<le> n"
  shows "foldM (\<lambda>(z, n) (v, c). case v of
      SvConstant k \<Rightarrow> Inr (if n < 1 then constIntoTerm (opr g) z (const_value k) c else constIntoConst (opr g) z (const_value k) c, n + 1)
    | _ \<Rightarrow> Inr (z, n)) (z, n) ps =
    Inr (if const_part ps = [] then z else if n = 0 then total comb unt (trm g) (const_part ps) i
         else comb z (total comb unt (trm g) (const_part ps) i), n + llen (const_part ps))"
  using assms(2)
proof (induction ps arbitrary: z n)
  case (Cons p ps)
  obtain v c where [simp]: "p = (v, c)" by (cases p)
  show ?case
    using Cons assms(1) by (cases v) (simp_all add: constIntoTerm_law constIntoConst_law assoc)
qed simp

lemma processConstOnly_ok:
  assumes "gnark_ok g" "length svecs = length coeffs" "svecs \<noteq> []"
  defines "ps \<equiv> zip svecs coeffs"
  shows "processConstOnly (opr g) svecs coeffs =
    Inr (if const_part ps = [] then None
         else Some \<lparr>const_value = total comb unt (trm g) (const_part ps) i, const_length = Len (svecs ! 0)\<rparr>, llen (const_part ps))"
proof -
  have "foldM (processConst_step (opr g) coeffs) (0, 0) (enumerate 0 svecs) =
    foldM (\<lambda>(z, n) (v, c). case v of
      SvConstant k \<Rightarrow> Inr (if n < 1 then constIntoTerm (opr g) z (const_value k) c else constIntoConst (opr g) z (const_value k) c, n + 1)
    | _ \<Rightarrow> Inr (z, n)) (0, 0) ps"
    unfolding ps_def using assms(2)
    by (intro foldM_enumerate_zip) (auto simp: processConst_step_def index_nat split: SmartVector.splits)
  then show ?thesis
    using const_loop [OF assms(1), of 0 0 ps i] assms(3) by (simp add: processConstOnly_def index_in)
qed

subsection \<open>Windows\<close>

lemma union_first:
  assumes "gnark_ok g" "sv_ok (SvWindow p)" "pcw_totlen p = n" "on_circle n r" "\<not> IsFullCircle r" "points (ival_of p) \<subseteq> points r"
    "length u = nat (IntervalLen r)"
  shows "union_step (opr g) (istart r) n (u, z, True) (p, ival_of p, c) =
    Inr (map (\<lambda>j. trm g (value_at (SvWindow p) ((istart r + int j) mod n)) c) [0..<nat (IntervalLen r)],
         trm g (pcw_padding p) c, False)"
proof -
  let ?L = "nat (IntervalLen r)" and ?w = "pcw_window p" and ?t = "trm g (pcw_padding p) c"
  obtain a b where ab: "normalize (Start (ival_of p)) (istart r) n = int a" "normalize (Stop (ival_of p)) (istart r) n = int b"
    "a \<le> b" "b \<le> ?L" "int b \<noteq> 0" "length ?w = b - a" and
    v: "\<And>j. j < ?L \<Longrightarrow> value_at (SvWindow p) ((istart r + int j) mod n) = (if a \<le> j \<and> j < b then ?w ! (j - a) else pcw_padding p)"
    by (rule window_span [OF assms(2-6)]) blast
  let ?h = "\<lambda>j. trm g (value_at (SvWindow p) ((istart r + int j) mod n)) c"
  have h: "?h j = (if a \<le> j \<and> j < b then trm g (?w ! (j - a)) c else ?t)" if "j < ?L" for j
    using v [OF that] by simp
  have u: "u = map (\<lambda>j. u ! j) [0..<?L]" using assms(7) by (metis map_nth)
  have "map (\<lambda>x. trm g x c) ?w = map ?h [a..<b]"
    using ab h by (intro nth_equalityI) (simp_all add: less_diff_conv add.commute [of _ a] del: value_at.simps of_nat_add)
  then have "vecIntoTerm (opr g) (map (\<lambda>j. u ! j) [a..<b]) ?w c = Inr (map ?h [a..<b])"
    using vecIntoTerm_law [OF assms(1), of ?w "map (\<lambda>j. u ! j) [a..<b]" c] ab by simp
  moreover have "Inr (Vec_Fill (map (\<lambda>j. u ! j) [0..<a]) ?t) = Inr (map ?h [0..<a])"
    using ab h by (simp add: Vec_Fill_def)
  moreover have "Inr (Vec_Fill (map (\<lambda>j. u ! j) [b..<?L]) ?t) = Inr (map ?h [b..<?L])"
    using ab h by (simp add: Vec_Fill_def)
  ultimately obtain u1 u2 where
    "on_slice (map (\<lambda>j. u ! j) [0..<?L]) (int a) (int b) (\<lambda>s. vecIntoTerm (opr g) s ?w c) = Inr u1"
    "on_slice u1 0 (int a) (\<lambda>s. Inr (Vec_Fill s ?t)) = Inr u2"
    "on_slice u2 (int b) (llen u2) (\<lambda>s. Inr (Vec_Fill s ?t)) = Inr (map ?h [0..<?L])"
    by (rule on_slice_parts [OF ab(3,4), of "\<lambda>s. vecIntoTerm (opr g) s ?w c" "\<lambda>j. u ! j" ?h
          "\<lambda>s. Inr (Vec_Fill s ?t)" "\<lambda>s. Inr (Vec_Fill s ?t)"])
  then show ?thesis
    using ab u by (simp add: union_step_def Let_def constIntoTerm_law [OF assms(1)])
qed

lemma union_next:
  assumes "gnark_ok g" "sv_ok (SvWindow p)" "pcw_totlen p = n" "on_circle n r" "\<not> IsFullCircle r" "points (ival_of p) \<subseteq> points r"
    "is_int64 c"
  shows "union_step (opr g) (istart r) n (map f [0..<nat (IntervalLen r)], z, False) (p, ival_of p, c) =
    Inr (map (\<lambda>j. comb (f j) (trm g (value_at (SvWindow p) ((istart r + int j) mod n)) c)) [0..<nat (IntervalLen r)],
         comb z (trm g (pcw_padding p) c), False)"
proof -
  let ?L = "nat (IntervalLen r)" and ?w = "pcw_window p" and ?t = "trm g (pcw_padding p) c"
  obtain a b where ab: "normalize (Start (ival_of p)) (istart r) n = int a" "normalize (Stop (ival_of p)) (istart r) n = int b"
    "a \<le> b" "b \<le> ?L" "int b \<noteq> 0" "length ?w = b - a" and
    v: "\<And>j. j < ?L \<Longrightarrow> value_at (SvWindow p) ((istart r + int j) mod n) = (if a \<le> j \<and> j < b then ?w ! (j - a) else pcw_padding p)"
    by (rule window_span [OF assms(2-6)]) blast
  let ?h = "\<lambda>j. comb (f j) (trm g (value_at (SvWindow p) ((istart r + int j) mod n)) c)"
  have h: "?h j = comb (f j) (if a \<le> j \<and> j < b then trm g (?w ! (j - a)) c else ?t)" if "j < ?L" for j
    using v [OF that] by simp
  have "map2 (\<lambda>r a. comb r (trm g a c)) (map f [a..<b]) ?w = map ?h [a..<b]"
    using ab h by (intro nth_equalityI) (simp_all add: less_diff_conv add.commute [of _ a] del: value_at.simps of_nat_add)
  then have "vecIntoVec (opr g) (map f [a..<b]) ?w c = Inr (map ?h [a..<b])"
    using vecIntoVec_law [OF assms(1,7), of ?w "map f [a..<b]"] ab by simp
  moreover have "constIntoVec (opr g) (map f [0..<a]) (pcw_padding p) c = Inr (map ?h [0..<a])"
    using ab h by (simp add: constIntoVec_law [OF assms(1)])
  moreover have "constIntoVec (opr g) (map f [b..<?L]) (pcw_padding p) c = Inr (map ?h [b..<?L])"
    using ab h by (simp add: constIntoVec_law [OF assms(1)])
  ultimately obtain u1 u2 where
    "on_slice (map f [0..<?L]) (int a) (int b) (\<lambda>s. vecIntoVec (opr g) s ?w c) = Inr u1"
    "on_slice u1 0 (int a) (\<lambda>s. constIntoVec (opr g) s (pcw_padding p) c) = Inr u2"
    "on_slice u2 (int b) (llen u2) (\<lambda>s. constIntoVec (opr g) s (pcw_padding p) c) = Inr (map ?h [0..<?L])"
    by (rule on_slice_parts [OF ab(3,4), of "\<lambda>s. vecIntoVec (opr g) s ?w c" f ?h
          "\<lambda>s. constIntoVec (opr g) s (pcw_padding p) c" "\<lambda>s. constIntoVec (opr g) s (pcw_padding p) c"])
  then show ?thesis
    using ab by (simp add: union_step_def Let_def constIntoConst_law [OF assms(1)])
qed

lemma union_loop:
  assumes "gnark_ok g" "on_circle n r" "\<not> IsFullCircle r"
    "\<forall>p\<in>set ps. is_window (fst p) \<and> sv_ok (fst p) \<and> Len (fst p) = n \<and> is_int64 (snd p) \<and> points (ival_of (win_of (fst p))) \<subseteq> points r"
  shows "foldM (union_step (opr g) (istart r) n)
      (map (\<lambda>j. total comb unt (trm g) qs ((istart r + int j) mod n)) [0..<nat (IntervalLen r)],
       combine comb unt (trm g) (\<lambda>v. pcw_padding (win_of v)) qs, False)
      (map (\<lambda>p. (win_of (fst p), ival_of (win_of (fst p)), snd p)) ps) =
    Inr (map (\<lambda>j. total comb unt (trm g) (qs @ ps) ((istart r + int j) mod n)) [0..<nat (IntervalLen r)],
       combine comb unt (trm g) (\<lambda>v. pcw_padding (win_of v)) (qs @ ps), False)"
  using assms(4)
proof (induction ps arbitrary: qs)
  case (Cons q ps)
  obtain p c where [simp]: "q = (SvWindow p, c)" using Cons.prems by (cases q; cases "fst q") auto
  have "\<forall>p\<in>set ps. is_window (fst p) \<and> sv_ok (fst p) \<and> Len (fst p) = n \<and> is_int64 (snd p) \<and> points (ival_of (win_of (fst p))) \<subseteq> points r"
    using Cons.prems by simp
  from Cons.IH [OF this, of "qs @ [q]"] show ?case
    using union_next [OF assms(1) _ _ assms(2,3), of p c] Cons.prems by (simp add: combine_snoc del: value_at.simps)
qed simp

text \<open>The union window, when the cover is not the full circle.\<close>

lemma union_ok:
  assumes "gnark_ok g" "on_circle n r" "\<not> IsFullCircle r" "n < 2 ^ 62" "ps \<noteq> []"
    "\<forall>p\<in>set ps. is_window (fst p) \<and> sv_ok (fst p) \<and> Len (fst p) = n \<and> is_int64 (snd p) \<and> points (ival_of (win_of (fst p))) \<subseteq> points r"
  obtains u z p where
    "foldM (union_step (opr g) (istart r) n) (replicate (nat (IntervalLen r)) 0, 0, True)
       (map (\<lambda>p. (win_of (fst p), ival_of (win_of (fst p)), snd p)) ps) = Inr (u, z, False)"
    "NewPaddedCircularWindow u z (istart r) n = Inr p" "denotes (SvWindow p) n (total comb unt (trm g) ps)"
proof -
  let ?L = "nat (IntervalLen r)"
  define u where "u = map (\<lambda>j. total comb unt (trm g) ps ((istart r + int j) mod n)) [0..<?L]"
  define z where "z = combine comb unt (trm g) (\<lambda>v. pcw_padding (win_of v)) ps"
  have L: "0 < IntervalLen r" "IntervalLen r < n" "0 \<le> istart r" "istart r < n"
    using assms(2,3) by (auto simp: on_circle_def ival_ok_def IsFullCircle_def)
  obtain p c qs where ps: "ps = (SvWindow p, c) # qs"
    using assms(5,6) by (cases ps; cases "fst (hd ps)") (auto simp: prod_eq_iff)
  have "foldM (union_step (opr g) (istart r) n) (replicate ?L 0, 0, True)
       (map (\<lambda>p. (win_of (fst p), ival_of (win_of (fst p)), snd p)) ps) = Inr (u, z, False)"
    using union_first [OF assms(1) _ _ assms(2,3), of p "replicate ?L 0" 0 c] assms(6)
      union_loop [OF assms(1-3), of qs "[(SvWindow p, c)]"]
    by (simp add: ps u_def z_def del: value_at.simps)
  moreover have "(let q = (i - istart r) mod n in if q < llen u then u ! nat q else z) = total comb unt (trm g) ps i"
    if i: "0 \<le> i" "i < n" for i
  proof -
    let ?q = "(i - istart r) mod n"
    have q: "0 \<le> ?q" "?q < n" "(istart r + ?q) mod n = i" using L i by (simp_all add: mod_add_right_eq)
    have "z = total comb unt (trm g) ps i" if "\<not> ?q < IntervalLen r"
    proof -
      have "pcw_padding (win_of (fst p)) = value_at (fst p) i" if "p \<in> set ps" for p
      proof -
        from that assms(6) obtain w where w: "fst p = SvWindow w" by (cases "fst p") auto
        have c: "sv_ok (SvWindow w)" "pcw_totlen w = n" "points (ival_of w) \<subseteq> points r" using that assms(6) w by force+
        show ?thesis
          using window_in_cover(2) [OF c(1,2) assms(2,3) c(3)] window_in_cover(7) [OF c(1,2) assms(2,3) c(3), of ?q] q \<open>\<not> ?q < IntervalLen r\<close> w by (simp del: value_at.simps)
      qed
      then show ?thesis unfolding z_def by (intro combine_cong) auto
    qed
    then show ?thesis using q L by (auto simp: u_def Let_def)
  qed
  then have "\<exists>p. NewPaddedCircularWindow u z (istart r) n = Inr p \<and> denotes (SvWindow p) n (total comb unt (trm g) ps)"
    using L assms(4) by (intro NewWindow_ok) (auto simp: u_def)
  ultimately show thesis using that by blast
qed

lemma processWindowedOnly_ok:
  assumes "gnark_ok g" "length svecs = length coeffs" "svecs \<noteq> []" "\<forall>v\<in>set svecs. sv_ok v \<and> Len v = n"
    "\<forall>c\<in>set coeffs. is_int64 c" "sorts srt"
  obtains wr svecs' where
    "processWindowedOnly srt (opr g) svecs coeffs = Inr (wr, llen (window_part (zip svecs' coeffs)), svecs')"
    "list_all2 (same_vec n) svecs svecs'"
    "wr = None \<and> window_part (zip svecs' coeffs) = [] \<or>
     (\<exists>p. wr = Some (SvWindow p) \<and> window_part (zip svecs' coeffs) \<noteq> [] \<and>
       denotes (SvWindow p) n (total comb unt (trm g) (window_part (zip svecs' coeffs))))"
proof -
  let ?ps = "zip svecs coeffs"
  let ?W = "window_part ?ps"
  have n: "Len (svecs ! 0) = n" "n < 2 ^ 62" using assms(3,4) Len_pos [of "svecs ! 0"] by auto
  have ok: "\<forall>p\<in>set ?ps. sv_ok (fst p) \<and> Len (fst p) = n" using assms(4) by (auto dest: set_zip_leftD)
  have "foldM (gather_window coeffs n) ([], [], [], 0) (enumerate 0 svecs) =
    foldM (\<lambda>(ws, is, cs, m) (v, c). case v of
      SvWindow p \<Rightarrow> rbind (pcw_interval p) (\<lambda>iv. rbind (assertHasLength (Len v) n) (\<lambda>_. Inr (ws @ [p], is @ [iv], cs @ [c], m + 1)))
    | _ \<Rightarrow> Inr (ws, is, cs, m)) ([], [], [], 0) ?ps"
    using assms(2) by (intro foldM_enumerate_zip) (auto simp: gather_window_def index_nat split: SmartVector.splits)
  then have gather: "foldM (gather_window coeffs n) ([], [], [], 0) (enumerate 0 svecs) =
      Inr (map (\<lambda>p. win_of (fst p)) ?W, map (\<lambda>p. ival_of (win_of (fst p))) ?W, map snd ?W, llen ?W)"
    using gather_loop [OF ok, of "[]" "[]" "[]" 0] by simp
  have same: "list_all2 (same_vec n) svecs svecs" using assms(4) by (auto simp: list_all2_same intro: same_vec_refl)
  show thesis
  proof (cases "?W = []")
    case True
    then show ?thesis
      using that [of None svecs] gather same n assms(3) by (simp add: processWindowedOnly_def index_in)
  next
    case False
    let ?is = "map (\<lambda>p. ival_of (win_of (fst p))) ?W"
    have W: "\<forall>p\<in>set ?W. is_window (fst p) \<and> sv_ok (fst p) \<and> Len (fst p) = n \<and> is_int64 (snd p)"
    proof
      fix p assume "p \<in> set ?W"
      then have p: "p \<in> set ?ps" "is_window (fst p)" by auto
      then have "snd p \<in> set coeffs" using set_zip_rightD [of "fst p" "snd p" svecs coeffs] by simp
      then show "is_window (fst p) \<and> sv_ok (fst p) \<and> Len (fst p) = n \<and> is_int64 (snd p)" using p ok assms(5) by simp
    qed
    have circ: "list_all (on_circle n) ?is"
      unfolding list_all_iff
    proof
      fix c assume "c \<in> set ?is"
      then obtain p where p: "p \<in> set ?W" "c = ival_of (win_of (fst p))" by auto
      then have q: "is_window (fst p)" "sv_ok (fst p)" "Len (fst p) = n" using W by blast+
      then show "on_circle n c" using p(2) pcw_interval_ok(2) [of "win_of (fst p)"] by (cases "fst p") simp_all
    qed
    obtain r where r: "SmallestCoverInterval srt ?is = Inr r" "smallest_cover n ?is r"
      using SmallestCoverInterval_least [of ?is n srt] circ assms(6) False
      unfolding sorts_def by blast
    show ?thesis
    proof (cases "IsFullCircle r")
      case True
      have "mapM (\<lambda>svec. case svec of SvWindow pcw \<Rightarrow> rbind (IntoRegVec svec) NewRegular | _ \<Rightarrow> Inr svec) svecs =
          Inr (map regular_form svecs)"
      proof (rule mapM_total)
        fix v assume "v \<in> set svecs"
        then have "sv_ok v" "0 < Len v" using assms(4) Len_pos [of v] by auto
        then show "(case v of SvWindow pcw \<Rightarrow> rbind (IntoRegVec v) NewRegular | _ \<Rightarrow> Inr v) = Inr (regular_form v)"
          by (cases v) (auto simp: IntoRegVec_ok simp flip: length_greater_0_conv simp del: sv_ok.simps)
      qed
      then have "processWindowedOnly srt (opr g) svecs coeffs = Inr (None, 0, map regular_form svecs)"
        using gather r True False n assms(3) by (simp add: processWindowedOnly_def index_in)
      moreover have "window_part (zip (map regular_form svecs) coeffs) = []"
        using assms(4) regular_form_same(2) by (fastforce simp: filter_empty_conv dest: set_zip_leftD)
      moreover have "list_all2 (same_vec n) svecs (map regular_form svecs)"
        using assms(4) by (auto simp: list_all2_conv_all_nth intro!: regular_form_same(1))
      ultimately show ?thesis using that by force
    next
      case nf: False
      have rc: "on_circle n r" "covered ?is \<subseteq> points r" using r(2) by (auto simp: smallest_cover_def)
      then have sub: "\<forall>p\<in>set ?W. points (ival_of (win_of (fst p))) \<subseteq> points r" unfolding covered_def set_map by blast
      have L: "\<not> istart r < 0" "\<not> IntervalLen r < 0" using rc(1) by (auto simp: on_circle_def ival_ok_def)
      obtain u z p where u: "foldM (union_step (opr g) (istart r) n) (replicate (nat (IntervalLen r)) 0, 0, True)
           (map (\<lambda>p. (win_of (fst p), ival_of (win_of (fst p)), snd p)) ?W) = Inr (u, z, False)"
        "NewPaddedCircularWindow u z (istart r) n = Inr p" "denotes (SvWindow p) n (total comb unt (trm g) ?W)"
        using union_ok [OF assms(1) rc(1) nf n(2) False] W sub by blast
      have "zip (map (\<lambda>p. win_of (fst p)) ?W) (zip ?is (map snd ?W)) =
          map (\<lambda>p. (win_of (fst p), ival_of (win_of (fst p)), snd p)) ?W"
        by (simp add: zip_map_map zip_same_conv_map)
      then have "processWindowedOnly srt (opr g) svecs coeffs = Inr (Some (SvWindow p), llen ?W, svecs)"
        using gather r(1) nf False n assms(3) u L
        by (simp add: processWindowedOnly_def index_in make_vec_def Start_def)
      then show ?thesis using that same u(3) False by blast
    qed
  qed
qed

subsection \<open>Regular vectors\<close>

lemma processRegularOnly_ok:
  assumes "gnark_ok g" "length svecs = length coeffs" "svecs \<noteq> []" "\<forall>v\<in>set svecs. sv_ok v \<and> Len v = n"
    "\<forall>c\<in>set coeffs. is_int64 c"
  defines "R \<equiv> reg_part (zip svecs coeffs)"
  shows "processRegularOnly (opr g) svecs coeffs =
    Inr (if R = [] then None else Some (map (\<lambda>j. total comb unt (trm g) R (int j)) [0..<nat n]), llen R)"
proof -
  let ?S = "\<lambda>qs. (if reg_part qs = [] then None else Some (map (\<lambda>j. total comb unt (trm g) (reg_part qs) (int j)) [0..<nat n]),
    llen (reg_part qs))"
  have "foldM (regular_step (opr g) coeffs n) (?S []) (enumerate 0 svecs) = Inr (?S (zip svecs coeffs))"
  proof (rule foldM_enumerate_state)
    fix i assume i: "i < length svecs"
    let ?v = "svecs ! i" and ?c = "coeffs ! i" and ?q = "take i (zip svecs coeffs)"
    have v: "sv_ok ?v" "Len ?v = n" "is_int64 ?c" "0 < n" using assms i Len_pos [of ?v] by auto
    have c: "index coeffs (int i) = Inr ?c" using i assms(2) by (simp add: index_nat)
    have q: "take (Suc i) (zip svecs coeffs) = ?q @ [(?v, ?c)]" using i assms(2) by (simp add: take_Suc_conv_app_nth)
    show "regular_step (opr g) coeffs n (?S ?q) (i, ?v) = Inr (?S (take (Suc i) (zip svecs coeffs)))"
    proof (cases "is_reg ?v")
      case False
      then show ?thesis unfolding q by (cases ?v) (simp_all add: regular_step_def)
    next
      case True
      let ?e = "elems ?v"
      have e: "(case ?v of SvRotated rot \<Rightarrow> rbind (rotatedAsRegular rot) (\<lambda>r. Inr (Some r)) | SvRegular reg \<Rightarrow> Inr (Some reg)
          | _ \<Rightarrow> Inr None) = Inr (Some ?e)"
        using True v(1) by (cases ?v) (simp_all add: rotatedAsRegular_ok del: sv_ok.simps)
      have l: "length ?e = nat n" "make_vec n = Inr (replicate (nat n) 0)" using v by (simp_all add: make_vec_def)
      have t: "map (\<lambda>a. trm g a ?c) ?e = map (\<lambda>j. trm g (value_at ?v (int j)) ?c) [0..<nat n]"
        using v(2) by (simp add: elems_def)
      have t2: "map2 (\<lambda>r a. comb r (trm g a ?c)) (map h [0..<nat n]) ?e =
          map (\<lambda>j. comb (h j) (trm g (value_at ?v (int j)) ?c)) [0..<nat n]" for h
        using v(2) l(1) by (intro nth_equalityI) simp_all
      show ?thesis
      proof (cases "reg_part ?q = []")
        case True
        then show ?thesis
          unfolding q using e l v \<open>is_reg ?v\<close> c t vecIntoTerm_law [OF assms(1), of ?e "replicate (nat n) 0" ?c]
          by (simp add: regular_step_def assertStrictPositiveLen_def)
      next
        case F: False
        have "vecIntoVec (opr g) (map h [0..<nat n]) ?e ?c =
            Inr (map (\<lambda>j. comb (h j) (trm g (value_at ?v (int j)) ?c)) [0..<nat n])" for h
          using vecIntoVec_law [OF assms(1) v(3), of ?e "map h [0..<nat n]"] l(1) t2 by simp
        then show ?thesis
          unfolding q using e F \<open>is_reg ?v\<close> c by (simp add: regular_step_def combine_snoc)
      qed
    qed
  qed (simp add: assms(2))
  then show ?thesis using assms(3,4) by (simp add: processRegularOnly_def index_in R_def)
qed

subsection \<open>Merging\<close>

lemma merge_window_ok:
  assumes "gnark_ok g" "sv_ok (SvWindow w)" "pcw_totlen w = n"
  shows "merge_window (opr g) (map f [0..<nat n]) w =
    Inr (map (\<lambda>j. comb (f j) (value_at (SvWindow w) (int j))) [0..<nat n])"
proof -
  let ?w = "pcw_window w" and ?L = "nat n" and ?pad = "pcw_padding w" and ?off = "pcw_offset w"
  let ?h = "\<lambda>j. comb (f j) (value_at (SvWindow w) (int j))"
  have w: "?w \<noteq> []" "llen ?w < n" "0 \<le> ?off" "?off < n" "0 < n" using assms by auto
  have iv: "pcw_interval w = Inr (ival_of w)" by (rule pcw_interval_ok(1) [OF assms(2)])
  have start: "Start (ival_of w) = ?off" by (simp add: Start_def ival_of_def)
  have stop: "Stop (ival_of w) = (if ?off + llen ?w < n then ?off + llen ?w else ?off + llen ?w - n)"
    using pcw_interval_ok(2) [OF assms(2)] assms(3) by (simp add: Stop_eq on_circle_def) (simp add: ival_of_def)
  have wrap: "DoesWrapAround (ival_of w) \<longleftrightarrow> n \<le> ?off + llen ?w"
    using w by (simp add: DoesWrapAround_def start stop)
  have v: "value_at (SvWindow w) (int j) =
      (let q = (if ?off \<le> int j then int j - ?off else int j - ?off + n) in if q < llen ?w then ?w ! nat q else ?pad)"
    if "j < ?L" for j
    using that w assms(3) mod_shift [of "int j" n ?off] by simp
  have vec: "vecTermIntoVec (opr g) (map f [a..<b]) x = Inr (map ?h [a..<b])"
    if "length x = b - a" "\<And>j. a \<le> j \<Longrightarrow> j < b \<Longrightarrow> value_at (SvWindow w) (int j) = x ! (j - a)" for a b x
  proof -
    have "map2 comb (map f [a..<b]) x = map ?h [a..<b]"
      using that by (intro nth_equalityI) (simp_all add: less_diff_conv add.commute [of _ a] del: value_at.simps of_nat_add)
    then show ?thesis using vecTermIntoVec_law [OF assms(1), of x "map f [a..<b]"] that(1) by simp
  qed
  have con: "constTermIntoVec (opr g) (map f [a..<b]) ?pad = Inr (map ?h [a..<b])"
    if "\<And>j. a \<le> j \<Longrightarrow> j < b \<Longrightarrow> value_at (SvWindow w) (int j) = ?pad" for a b
    using that by (simp add: constTermIntoVec_law [OF assms(1)] del: value_at.simps)
  show ?thesis
  proof (cases "n \<le> ?off + llen ?w")
    case True
    define a where "a = nat (?off + llen ?w - n)"
    define b where "b = nat ?off"
    have ab: "?off = int b" "?off + llen ?w - n = int a" "a \<le> b" "b \<le> ?L" using True w by (auto simp: a_def b_def)
    define right where "right = take (nat (llen ?w - (n - ?off))) (drop (nat (n - ?off)) ?w)"
    define left where "left = take (nat (n - ?off)) ?w"
    have sl: "go_slice ?w (n - ?off) (llen ?w) = Inr right" "go_slice ?w 0 (n - ?off) = Inr left"
      using True w by (simp_all add: slice_in right_def left_def)
    have "vecTermIntoVec (opr g) (map f [0..<a]) right = Inr (map ?h [0..<a])"
      using w ab by (intro vec) (auto simp: right_def v Let_def nat_diff_distrib algebra_simps simp del: value_at.simps intro!: arg_cong [where f = "(!) ?w"])
    moreover have "vecTermIntoVec (opr g) (map f [b..<?L]) left = Inr (map ?h [b..<?L])"
      using True w ab by (intro vec) (auto simp: left_def v Let_def nat_diff_distrib simp del: value_at.simps)
    moreover have "constTermIntoVec (opr g) (map f [a..<b]) ?pad = Inr (map ?h [a..<b])"
      using w ab by (intro con) (auto simp: v Let_def simp del: value_at.simps)
    ultimately obtain u1 u2 where
      "on_slice (map f [0..<?L]) 0 (int a) (\<lambda>s. vecTermIntoVec (opr g) s right) = Inr u1"
      "on_slice u1 (int b) (llen u1) (\<lambda>s. vecTermIntoVec (opr g) s left) = Inr u2"
      "on_slice u2 (int a) (int b) (\<lambda>s. constTermIntoVec (opr g) s ?pad) = Inr (map ?h [0..<?L])"
      by (rule on_slice_outer [OF ab(3,4), of "\<lambda>s. vecTermIntoVec (opr g) s right" f ?h
            "\<lambda>s. vecTermIntoVec (opr g) s left" "\<lambda>s. constTermIntoVec (opr g) s ?pad"])
    then show ?thesis
      using True w sl ab by (simp add: merge_window_def iv wrap start stop Let_def del: value_at.simps)
  next
    case False
    define a where "a = nat ?off"
    define b where "b = a + length ?w"
    have ab: "?off = int a" "?off + llen ?w = int b" "a \<le> b" "b \<le> ?L" using False w by (auto simp: a_def b_def)
    have "vecTermIntoVec (opr g) (map f [a..<b]) ?w = Inr (map ?h [a..<b])"
      using w ab by (intro vec) (auto simp: b_def v Let_def nat_diff_distrib simp del: value_at.simps)
    moreover have "constTermIntoVec (opr g) (map f [0..<a]) ?pad = Inr (map ?h [0..<a])"
      using False w ab by (intro con) (auto simp: v Let_def simp del: value_at.simps)
    moreover have "constTermIntoVec (opr g) (map f [b..<?L]) ?pad = Inr (map ?h [b..<?L])"
      using w ab by (intro con) (auto simp: v Let_def simp del: value_at.simps)
    ultimately obtain u1 u2 where
      "on_slice (map f [0..<?L]) (int a) (int b) (\<lambda>s. vecTermIntoVec (opr g) s ?w) = Inr u1"
      "on_slice u1 0 (int a) (\<lambda>s. constTermIntoVec (opr g) s ?pad) = Inr u2"
      "on_slice u2 (int b) (llen u2) (\<lambda>s. constTermIntoVec (opr g) s ?pad) = Inr (map ?h [0..<?L])"
      by (rule on_slice_parts [OF ab(3,4), of "\<lambda>s. vecTermIntoVec (opr g) s ?w" f ?h
            "\<lambda>s. constTermIntoVec (opr g) s ?pad" "\<lambda>s. constTermIntoVec (opr g) s ?pad"])
    then show ?thesis
      using False w ab by (simp add: merge_window_def iv wrap start stop Let_def del: value_at.simps)
  qed
qed

lemma merge_const_ok:
  assumes "gnark_ok g" "denotes (SvWindow p) n f"
  obtains p' where "merge_const (opr g) c (SvWindow p) = Inr (SvWindow p')" "denotes (SvWindow p') n (\<lambda>i. comb (f i) (const_value c))"
proof -
  let ?p = "p\<lparr>pcw_window := map (\<lambda>r. comb r (const_value c)) (pcw_window p), pcw_padding := comb (pcw_padding p) (const_value c)\<rparr>"
  have "merge_const (opr g) c (SvWindow p) = Inr (SvWindow ?p)"
    by (simp add: merge_const_def constTermIntoVec_law [OF assms(1)] constTermIntoConst_law [OF assms(1)])
  moreover have "value_at (SvWindow ?p) i = comb (value_at (SvWindow p) i) (const_value c)" if "0 \<le> i" "i < n" for i
    using that assms(2) by (auto simp: Let_def denotes_def nat_less_iff)
  then have "denotes (SvWindow ?p) n (\<lambda>i. comb (f i) (const_value c))"
    using assms(2) by (auto simp: denotes_def simp del: value_at.simps)
  ultimately show thesis using that by blast
qed

lemma const_total: "total comb unt t (const_part ps) i = total comb unt t (const_part ps) 0"
proof (induction ps)
  case (Cons p ps)
  obtain v c where [simp]: "p = (v, c)" by (cases p)
  show ?case using Cons by (cases v) simp_all
qed simp

lemma denotes_map: "0 < n \<Longrightarrow> n < 2 ^ 62 \<Longrightarrow> (\<And>i. 0 \<le> i \<Longrightarrow> i < n \<Longrightarrow> h (nat i) = f i) \<Longrightarrow> denotes (SvRegular (map h [0..<nat n])) n f"
  by (rule denotes_Regular) auto

theorem processOperator_ok:
  assumes "gnark_ok g" "sorts srt" "length svecs = length coeffs" "svecs \<noteq> []" "\<forall>v\<in>set svecs. sv_ok v \<and> Len v = n"
    "\<forall>c\<in>set coeffs. is_int64 c"
  shows "\<exists>res svecs'. processOperator srt (opr g) coeffs svecs = Inr (Some res, svecs') \<and>
    denotes res n (total comb unt (trm g) (zip svecs coeffs)) \<and> list_all2 (same_vec n) svecs svecs'"
proof -
  let ?ps = "zip svecs coeffs" and ?t = "total comb unt (trm g)"
  let ?C = "const_part ?ps"
  define T where "T = ?t ?C 0"
  have len: "llen ?ps = llen svecs" using assms(3) by simp
  have pos: "0 < llen svecs" using assms(4) by simp
  have n: "0 < n" "n < 2 ^ 62" "Len (svecs ! 0) = n" using assms(4,5) Len_pos [of "svecs ! 0"] by auto
  have same: "list_all2 (same_vec n) svecs svecs" using assms(5) by (auto simp: list_all2_same intro: same_vec_refl)
  have chk: "mapM (\<lambda>s. assertHasLength n (Len s)) svecs = Inr (map (\<lambda>_. ()) svecs)"
    using assms(5) by (intro mapM_total) (auto simp: assertHasLength_def)
  have C: "processConstOnly (opr g) svecs coeffs =
      Inr (if ?C = [] then None else Some \<lparr>const_value = T, const_length = n\<rparr>, llen ?C)"
    using processConstOnly_ok [OF assms(1,3,4), of 0] n(3) by (simp add: T_def)
  have tot: "?t ?ps i = comb T (comb (?t (window_part qs) i) (?t (reg_part qs) i))"
    if "list_all2 (same_vec n) svecs vs" "qs = zip vs coeffs" "0 \<le> i" "i < n" for vs qs i
    using total_classes [where t = "trm g" and ps = qs and i = i] same_vecs_total [OF that(1,3,4)] same_vecs_const_part [OF that(1)] that(2)
      const_total [where t = "trm g" and ps = ?ps and i = i] by (simp add: T_def)
  have "index svecs 0 = Inr (svecs ! 0)" using assms(4) by (simp add: index_in)
  moreover have "coeffs \<noteq> []" using assms(3,4) by auto
  ultimately have idx: "index svecs 0 = Inr (svecs ! 0)" "coeffs \<noteq> []" by blast+
  have sp: "assertStrictPositiveLen n = Inr ()" using n(1) by (simp add: assertStrictPositiveLen_def)
  note simps = processOperator_def idx assms(3) n chk C sp
  show ?thesis
  proof (cases "llen ?C = llen svecs")
    case True
    then have "llen (window_part ?ps) = 0" "llen (reg_part ?ps) = 0" "llen ?C \<noteq> 0"
      using classes_length [of ?ps] len pos by linarith+
    then have "window_part ?ps = []" "reg_part ?ps = []" "?C \<noteq> []" by auto
    moreover from this have "denotes (SvConstant \<lparr>const_value = T, const_length = n\<rparr>) n (?t ?ps)"
      using n tot [OF same refl] by (intro denotes_Constant) simp_all
    ultimately show ?thesis using same True by (simp add: simps)
  next
    case nc: False
    show ?thesis
    proof (cases "isProductOp (opr g) \<and> ?C \<noteq> [] \<and> T = 0")
      case True
      then have "denotes (SvConstant \<lparr>const_value = T, const_length = n\<rparr>) n (?t ?ps)"
        using n tot [OF same refl] absorbing_law [of g] by (intro denotes_Constant) simp_all
      then show ?thesis using same True nc by (simp add: simps)
    next
      case np: False
      obtain wr vs where w: "processWindowedOnly srt (opr g) svecs coeffs = Inr (wr, llen (window_part (zip vs coeffs)), vs)"
        "list_all2 (same_vec n) svecs vs"
        "wr = None \<and> window_part (zip vs coeffs) = [] \<or>
         (\<exists>p. wr = Some (SvWindow p) \<and> window_part (zip vs coeffs) \<noteq> [] \<and> denotes (SvWindow p) n (?t (window_part (zip vs coeffs))))"
        by (rule processWindowedOnly_ok [OF assms(1,3-6,2)])
      let ?W = "window_part (zip vs coeffs)" and ?R = "reg_part (zip vs coeffs)"
      have lv: "length vs = length coeffs" "vs \<noteq> []" using list_all2_lengthD [OF w(2)] assms(3,4) by auto
      have okv: "\<forall>v\<in>set vs. sv_ok v \<and> Len v = n"
        using w(2) by (auto simp: list_all2_conv_all_nth in_set_conv_nth same_vec_def)
      have R: "processRegularOnly (opr g) vs coeffs =
          Inr (if ?R = [] then None else Some (map (\<lambda>j. ?t ?R (int j)) [0..<nat n]), llen ?R)"
        by (rule processRegularOnly_ok [OF assms(1) lv okv assms(6)])
      have sum: "llen ?C + llen ?W + llen ?R = llen svecs"
        using classes_length [of "zip vs coeffs"] same_vecs_const_part [OF w(2)] lv(1) assms(3) by simp
      note tot = tot [OF w(2) refl]
      have T0: "?C = [] \<Longrightarrow> T = unt" by (simp add: T_def)
      define cr where "cr = (if ?C = [] then None else Some \<lparr>const_value = T, const_length = n\<rparr>)"
      have notprod: "(isProductOp (opr g) \<and> (case cr of None \<Rightarrow> False | Some c \<Rightarrow> const_value c = 0)) = False"
        using np by (auto simp: cr_def)
      have main: "processOperator srt (opr g) coeffs svecs =
        (if llen ?W = llen svecs then Inr (wr, vs)
         else
           rbind (if llen ?W > 0 \<and> llen ?C > 0
                  then (case (wr, cr) of (Some w, Some c) \<Rightarrow> rbind (merge_const (opr g) c w) (\<lambda>w. Inr (Some w)) | _ \<Rightarrow> Inr wr)
                  else Inr wr) (\<lambda>wr.
           if llen ?W + llen ?C = llen svecs then Inr (wr, vs)
           else if llen ?R = llen svecs then Inr (if ?R = [] then None else Some (SvRegular (map (\<lambda>j. ?t ?R (int j)) [0..<nat n])), vs)
           else (case if ?R = [] then None else Some (map (\<lambda>j. ?t ?R (int j)) [0..<nat n]) of
                None \<Rightarrow> Inl (Panic ''interface conversion'')
              | Some regvec \<Rightarrow>
                  if llen ?R + llen ?C = llen svecs then
                    (case cr of
                       None \<Rightarrow> Inl (Panic ''nil pointer dereference'')
                     | Some c \<Rightarrow> rbind (constTermIntoVec (opr g) regvec (const_value c)) (\<lambda>r. Inr (Some (SvRegular r), vs)))
                  else
                    (case wr of
                       Some (SvRegular w) \<Rightarrow> rbind (vecTermIntoVec (opr g) regvec w) (\<lambda>r. Inr (Some (SvRegular r), vs))
                     | Some (SvWindow w) \<Rightarrow> rbind (merge_window (opr g) regvec w) (\<lambda>r. Inr (Some (SvRegular r), vs))
                     | _ \<Rightarrow> Inl (Panic ''interface conversion'')))))"
        using sum nc unfolding processOperator_def idx(1) C cr_def [symmetric]
        by (simp add: notprod idx(2) assms(3) n chk sp w(1) R Let_def if_distrib [of "map_option SvRegular"] cong: if_cong)
      show ?thesis
      proof (cases "?W = []")
        case W: True
        then have wr: "wr = None" using w(3) by simp
        have Rne: "llen ?R \<noteq> 0" "?R \<noteq> []" using sum W nc by auto
        show ?thesis
        proof (cases "?C = []")
          case True
          have "denotes (SvRegular (map (\<lambda>j. ?t ?R (int j)) [0..<nat n])) n (?t ?ps)"
            using n tot W T0 [OF True] by (intro denotes_map) simp_all
          moreover have "processOperator srt (opr g) coeffs svecs = Inr (Some (SvRegular (map (\<lambda>j. ?t ?R (int j)) [0..<nat n])), vs)"
            using True W wr Rne sum pos nc by (simp add: main)
          ultimately show ?thesis using w(2) by blast
        next
          case False
          then have "0 < llen ?C" by simp
          then have nR: "llen ?R \<noteq> llen svecs" using sum by linarith
          have "denotes (SvRegular (map (\<lambda>j. comb (?t ?R (int j)) T) [0..<nat n])) n (?t ?ps)"
            using n tot W by (intro denotes_map) (simp_all add: commute)
          moreover have "processOperator srt (opr g) coeffs svecs = Inr (Some (SvRegular (map (\<lambda>j. comb (?t ?R (int j)) T) [0..<nat n])), vs)"
            using False W wr Rne sum nR nc pos by (simp add: main cr_def constTermIntoVec_law [OF assms(1)] o_def)
          ultimately show ?thesis using w(2) by blast
        qed
      next
        case W: False
        then obtain p where p: "wr = Some (SvWindow p)" "denotes (SvWindow p) n (?t ?W)" using w(3) by auto
        obtain q where q: "(if llen ?W > 0 \<and> llen ?C > 0
              then (case (wr, cr) of (Some w, Some c) \<Rightarrow> rbind (merge_const (opr g) c w) (\<lambda>w. Inr (Some w)) | _ \<Rightarrow> Inr wr)
              else Inr wr) = Inr (Some (SvWindow q))" "denotes (SvWindow q) n (\<lambda>i. comb (?t ?W i) T)"
        proof (cases "?C = []")
          case True
          then show ?thesis using that [of p] p T0 by simp
        next
          case False
          let ?k = "\<lparr>const_value = T, const_length = n\<rparr>"
          obtain q where "merge_const (opr g) ?k (SvWindow p) = Inr (SvWindow q)"
            "denotes (SvWindow q) n (\<lambda>i. comb (?t ?W i) (const_value ?k))"
            by (rule merge_const_ok [OF assms(1) p(2)])
          then show ?thesis using that [of q] p(1) W False by (simp add: cr_def)
        qed
        show ?thesis
        proof (cases "?R = []")
          case True
          have "denotes (SvWindow q) n (?t ?ps)"
            using q(2) tot True unfolding denotes_def by (simp add: commute del: value_at.simps sv_ok.simps)
          moreover have "processOperator srt (opr g) coeffs svecs = Inr (Some (SvWindow q), vs)"
          proof (cases "?C = []")
            case C: True
            then have "wr = Some (SvWindow q)" "llen ?W = llen svecs" using q(1) sum True by simp_all
            then show ?thesis by (simp add: main)
          next
            case C: False
            then have "0 < llen ?C" "llen ?R = 0" using True by simp_all
            then have "llen ?W \<noteq> llen svecs" "llen ?W + llen ?C = llen svecs" using sum by linarith+
            then show ?thesis unfolding main q(1) by simp
          qed
          ultimately show ?thesis using w(2) by blast
        next
          case Rne: False
          have posn: "0 < llen ?R" "0 < llen ?W" using Rne W by simp_all
          let ?r = "map (\<lambda>j. comb (?t ?R (int j)) (value_at (SvWindow q) (int j))) [0..<nat n]"
          have "sv_ok (SvWindow q)" "pcw_totlen q = n" using q(2) by (simp_all add: denotes_def)
          from merge_window_ok [OF assms(1) this]
          have "merge_window (opr g) (map (\<lambda>j. ?t ?R (int j)) [0..<nat n]) q = Inr ?r" .
          moreover have "llen ?W \<noteq> llen svecs" "llen ?W + llen ?C \<noteq> llen svecs" "llen ?R \<noteq> llen svecs"
            "llen ?R + llen ?C \<noteq> llen svecs" using sum posn by linarith+
          ultimately have "processOperator srt (opr g) coeffs svecs = Inr (Some (SvRegular ?r), vs)"
            unfolding main q(1) using Rne by (simp del: value_at.simps)
          moreover have "denotes (SvRegular ?r) n (?t ?ps)"
            using n tot q(2) by (intro denotes_map) (simp_all add: denotes_def ac_simps del: value_at.simps)
          ultimately show ?thesis using w(2) by blast
        qed
      qed
    qed
  qed
qed

end

subsection \<open>Linear combinations and products\<close>

lemma combine_sum: "combine (+) 0 t f ps = (\<Sum>(v, c)\<leftarrow>ps. t (f v) c)"
  by (induction ps) auto

lemma combine_prod: "combine (*) 1 t f ps = (\<Prod>(v, c)\<leftarrow>ps. t (f v) c)"
  by (induction ps) auto

lemma LinComb_ok:
  assumes "gnark_ok g" "sorts srt" "length svecs = length coeffs" "svecs \<noteq> []" "\<forall>v\<in>set svecs. sv_ok v \<and> Len v = n"
    "\<forall>c\<in>set coeffs. is_int64 c"
  shows "\<exists>res svecs'. LinComb srt g coeffs svecs = Inr (Some res, svecs') \<and>
    denotes res n (\<lambda>i. \<Sum>(v, c)\<leftarrow>zip svecs coeffs. of_int c * value_at v i) \<and> list_all2 (same_vec n) svecs svecs'"
proof -
  have "Len (svecs ! 0) = n" using assms(4,5) by simp
  then have "mapM (\<lambda>s. require (\<not> Len s \<noteq> Len (svecs ! 0)) (Panic ''bad size'')) svecs = Inr (map (\<lambda>_. ()) svecs)"
    using assms(5) by (intro mapM_total) auto
  moreover have "index svecs 0 = Inr (svecs ! 0)" using assms(4) by (simp add: index_in)
  ultimately show ?thesis using lin.processOperator_ok [OF assms] by (simp add: LinComb_def combine_sum)
qed

lemma Product_ok:
  assumes "gnark_ok g" "sorts srt" "length svecs = length coeffs" "svecs \<noteq> []" "\<forall>v\<in>set svecs. sv_ok v \<and> Len v = n"
    "\<forall>c\<in>set coeffs. is_int64 c"
  shows "\<exists>res svecs'. Product srt g coeffs svecs = Inr (Some res, svecs') \<and>
    denotes res n (\<lambda>i. \<Prod>(v, c)\<leftarrow>zip svecs coeffs. pow_int g (value_at v i) c) \<and> list_all2 (same_vec n) svecs svecs'"
  using prod.processOperator_ok [OF assms] by (simp add: Product_def combine_prod)

end
