(* ===== verification/Concrete.thy ===== *)
theory Concrete
  imports AccumulatorRun SmartVecOpsCorrect Complex_Main
begin

text \<open>
  A concrete instance of the code that the repository imports, on which the hypotheses of the
  development hold: 32-bit words with their four big-endian bytes, and a compression function
  that returns its block (or a constant for the zero block, so that no digest is zero). The
  accumulator instance stores octuplets under octuplets and ranges over maps backwards.
\<close>

definition one_octuplet :: "32 word octuplet" where
  "one_octuplet = Octuplet 1 0 0 0 0 0 0 0"

definition w32_koala :: "32 word koalabear" where
  "w32_koala =
     \<lparr>CompressPoseidon2 = (\<lambda>st b. if b = 0 then one_octuplet else b),
      Bytes = (\<lambda>x. be_bytes 4 (uint x)),
      SetBytesCanonical = (\<lambda>b. if length b = 4 then Some (word_of_int (be_value b)) else None)\<rparr>"

lemma be_bytes_be_value: "be_bytes (length b) (be_value b) = b"
proof (induction b)
  case Nil
  then show ?case by (simp add: be_bytes_def)
next
  case (Cons x b)
  have v: "0 \<le> be_value b" "be_value b < 256 ^ length b" using be_value_bounds by blast+
  have "(uint x * 256 ^ length b + be_value b) div 256 ^ length b = uint x"
    using v by simp
  moreover have "be_bytes (length b) (uint x * 256 ^ length b + be_value b) = be_bytes (length b) (be_value b)"
    unfolding be_bytes_def
  proof (rule map_cong [OF refl])
    fix i assume "i \<in> set [0..<length b]"
    then have p: "length b = Suc i + (length b - 1 - i)" by simp
    define m where "m = length b - 1 - i"
    have "(256::int) ^ length b = 256 ^ Suc i * 256 ^ m"
      using p unfolding m_def by (metis power_add)
    then have "(uint x * 256 ^ length b + be_value b) div 256 ^ m =
        (be_value b + (uint x * 256 ^ Suc i) * 256 ^ m) div 256 ^ m"
      by (simp only: mult.assoc add.commute)
    also have "\<dots> = uint x * 256 ^ Suc i + be_value b div 256 ^ m"
      by (rule div_mult_self1) simp
    also have "\<dots> = 256 * (uint x * 256 ^ i) + be_value b div 256 ^ m" by simp
    finally have "(word_of_int ((uint x * 256 ^ length b + be_value b) div 256 ^ m) :: byte) =
        word_of_int (be_value b div 256 ^ m)"
      by (simp only: word_of_int_eq_iff take_bit_eq_mod) simp
    then show "word_of_int ((uint x * 256 ^ length b + be_value b) div 256 ^ (length b - 1 - i)) =
        (word_of_int (be_value b div 256 ^ (length b - 1 - i)) :: byte)"
      by (simp add: m_def)
  qed
  ultimately show ?case using Cons by (simp add: be_bytes_Suc)
qed

lemma w32_koala_ok: "koala_ok w32_koala"
proof -
  have "word_of_int (be_value (be_bytes 4 (uint x))) = x" for x :: "32 word"
    using uint_lt2p [of x] by (simp add: be_value_be_bytes)
  moreover have "be_bytes 4 (uint (word_of_int (be_value b) :: 32 word)) = b" if "length b = 4" for b
    using that be_value_bounds [of b] be_bytes_be_value [of b]
    by (simp add: uint_word_of_int)
  ultimately show ?thesis
    by (auto simp: koala_ok_def w32_koala_def split: if_splits)
qed

lemma w32_no_zero [simp]: "\<not> zero_digest w32_koala Q"
  by (auto simp: zero_digest_def w32_koala_def one_octuplet_def zero_octuplet_def)

lemma w32_no_panic [simp]: "\<not> zero_panic w32_koala Q r"
  by (simp add: zero_panic_def)

definition w32_env :: "(32 word, 32 word octuplet, 32 word octuplet) env" where
  "w32_env =
     \<lparr>koala = w32_koala,
      writeK = (\<lambda>e d. Inr (octuplet_WriteTo w32_koala (hasher_io w32_koala) e d)),
      writeV = (\<lambda>e d. Inr (octuplet_WriteTo w32_koala (hasher_io w32_koala) e d)),
      zeroK = 0, zeroV = 0, iter = (\<lambda>_. rev)\<rparr>"

lemma w32_env_ok: "env_ok w32_env"
  by (simp add: env_ok_def w32_env_def w32_koala_ok)

lemma w32_env_koala [simp]: "koala w32_env = w32_koala"
  by (simp add: w32_env_def)

lemma w32_writes: "writes w32_koala (\<lambda>e d. Inr (octuplet_WriteTo w32_koala (hasher_io w32_koala) e d)) e (oct_list e)"
  using octuplet_writer.writes_elems [OF w32_koala_ok] by simp

lemma w32_hashable: "hashableK w32_env e" "hashableV w32_env e"
  using w32_writes by (auto simp: hashableK_def hashableV_def w32_env_def)

lemma w32_hk: "e \<noteq> 0 \<Longrightarrow> hk w32_env e = e"
  using hash_writes [OF w32_koala_ok w32_writes, of e] sum_loop_octuplet [of w32_koala 0 e "[]"]
  by (simp add: hk_def hashK_def w32_env_def HashVec_sum_loop) (simp add: w32_koala_def)

definition key_a :: "32 word octuplet" where
  "key_a = Octuplet 7 0 0 0 0 0 0 0"

lemma key_a_neq: "key_a \<noteq> 0" "key_a \<noteq> MaxKoalaOctuplet"
  by (simp_all add: key_a_def zero_octuplet_def MaxKoalaOctuplet_def negativeOne_def)

lemma key_a_hk: "hk w32_env key_a = key_a"
  by (simp add: w32_hk key_a_neq)

lemma key_a_ok: "key_ok w32_env key_a"
  by (simp add: key_ok_def w32_hashable key_a_hk key_a_neq)


subsection \<open>Two states\<close>

definition w32_start :: "(32 word, 32 word octuplet, 32 word octuplet) ProverState" where
  "w32_start = projr (InitializeProverState w32_env [])"

definition w32_one :: "(32 word, 32 word octuplet, 32 word octuplet) ProverState" where
  "w32_one = snd (projr (InsertAndProve w32_env w32_start key_a key_a))"

lemma w32_start:
  "InitializeProverState w32_env [] = Inr w32_start"
  "prover_ok w32_env w32_start" "contents w32_start = Map.empty" "ps_NextFreeNode w32_start = 2"
  using InitializeProverState_correct [OF w32_env_ok, of "[]"] by (auto simp: w32_start_def)

lemma w32_one:
  "prover_ok w32_env w32_one" "contents w32_one = [key_a \<mapsto> (key_a, key_a)]" "ps_NextFreeNode w32_one = 3"
  using InsertAndProve_correct [OF w32_env_ok w32_start(2) key_a_ok w32_hashable(2) [of key_a]]
  by (auto simp: w32_one_def w32_start key_a_hk)

subsection \<open>Honest traces on them\<close>

text \<open>The trace of each request at one of the two states: accepted, and meeting the conditions of soundness.\<close>

lemma w32_honest:
  assumes "prover_ok w32_env s" "map_serve w32_env (contents s) q \<noteq> None" "request_ok w32_env q"
    "ps_NextFreeNode s + inserts [q] \<le> 2 ^ 40" "\<And>tr s'. serve w32_env s q = Inr (tr, s') \<Longrightarrow> \<exists>x. tr = kind x"
  shows "\<exists>x v'. trace_wf w32_env (kind x) \<and>
    verify_trace w32_env (VerifierState_of s) (kind x) = Inr (v', None)"
proof -
  obtain m where "map_serve w32_env (contents s) q = Some m" using assms(2) by blast
  from serve_correct [OF w32_env_ok assms(1,3) this assms(4)]
  obtain tr s' where tr: "serve w32_env s q = Inr (tr, s')"
    "verify_trace w32_env (VerifierState_of s) tr = Inr (VerifierState_of s', None)"
    by (auto simp: w32_no_panic)
  obtain x where "tr = kind x" using assms(5) [OF tr(1)] by blast
  with tr serve_trace_wf [OF w32_env_ok assms(1,3) tr(1)] show ?thesis by auto
qed

lemma w32_requests:
  "request_ok w32_env (RInsert key_a v)" "request_ok w32_env (RDelete key_a)" "request_ok w32_env (RUpdate key_a v)"
  "request_ok w32_env (RReadZero key_a)" "request_ok w32_env (RReadNonZero key_a)"
  by (simp_all add: key_ok_def w32_hashable key_a_hk key_a_neq)

lemma w32_insertion:
  "\<exists>tr v'. trace_wf w32_env (TInsertion tr) \<and>
    verify_trace w32_env (VerifierState_of w32_start) (TInsertion tr) = Inr (v', None)"
  by (rule w32_honest [OF w32_start(2), of "RInsert key_a key_a"])
    (use w32_requests in \<open>auto simp: w32_start key_a_hk result_simps\<close>)

lemma w32_deletion:
  "\<exists>tr v'. trace_wf w32_env (TDeletion tr) \<and>
    verify_trace w32_env (VerifierState_of w32_one) (TDeletion tr) = Inr (v', None)"
  by (rule w32_honest [OF w32_one(1), of "RDelete key_a"])
    (use w32_requests in \<open>auto simp: w32_one key_a_hk result_simps\<close>)

lemma w32_update:
  "\<exists>tr v'. trace_wf w32_env (TUpdate tr) \<and>
    verify_trace w32_env (VerifierState_of w32_one) (TUpdate tr) = Inr (v', None)"
  by (rule w32_honest [OF w32_one(1), of "RUpdate key_a 0"])
    (use w32_requests in \<open>auto simp: w32_one key_a_hk result_simps\<close>)

lemma w32_read_zero:
  "\<exists>tr v'. trace_wf w32_env (TReadZero tr) \<and>
    verify_trace w32_env (VerifierState_of w32_start) (TReadZero tr) = Inr (v', None)"
  by (rule w32_honest [OF w32_start(2), of "RReadZero key_a"])
    (use w32_requests in \<open>auto simp: w32_start key_a_hk result_simps\<close>)

lemma w32_read_nonzero:
  "\<exists>tr v'. trace_wf w32_env (TReadNonZero tr) \<and>
    verify_trace w32_env (VerifierState_of w32_one) (TReadNonZero tr) = Inr (v', None)"
  by (rule w32_honest [OF w32_one(1), of "RReadNonZero key_a"])
    (use w32_requests in \<open>auto simp: w32_one key_a_hk result_simps\<close>)

subsection \<open>Vectors of rationals\<close>

definition checked2 :: "('f \<Rightarrow> 'f \<Rightarrow> 'f) \<Rightarrow> 'f list \<Rightarrow> 'f list \<Rightarrow> 'f list \<Rightarrow> 'f list result" where
  "checked2 f r a b = (if length a = length r \<and> length b = length r then Inr (map2 f a b) else Inl (Panic ''length''))"

definition rat_gnark :: "rat gnark" where
  "rat_gnark =
     \<lparr>vec_Add = checked2 (+), vec_Sub = checked2 (-), vec_Mul = checked2 (*),
      vec_ScalarMul = (\<lambda>r a s. if length a = length r then Inr (map (\<lambda>x. x * s) a) else Inl (Panic ''length'')),
      vec_InnerProduct = (\<lambda>a b. if length a = length b then Inr (sum_list (map2 (*) a b)) else Inl (Panic ''length'')),
      elem_Exp = (\<lambda>x k. if 0 \<le> k then x ^ nat k else inverse x ^ nat (- k)),
      elem_Inverse = inverse, elem_BatchInvert = map inverse\<rparr>"

lemma rat_gnark_ok: "gnark_ok rat_gnark"
  by (simp add: gnark_ok_def pointwise_def rat_gnark_def checked2_def pow_int_def)

definition istart_sort :: "CircularInterval list \<Rightarrow> CircularInterval list" where
  "istart_sort = sort_key istart"

lemma istart_sort_ok: "sorts istart_sort"
  by (simp add: sorts_def istart_sort_def)

definition rat_window :: "rat SmartVector" where
  "rat_window = SvWindow \<lparr>pcw_window = [1, 2], pcw_padding = 0, pcw_totlen = 4, pcw_offset = 3\<rparr>"

definition rat_vecs :: "rat SmartVector list" where
  "rat_vecs = [rat_window, SvConstant \<lparr>const_value = 5, const_length = 4\<rparr>, SvRegular [1, 2, 3, 4]]"

lemma rat_vecs_ok: "\<forall>v\<in>set rat_vecs. sv_ok v \<and> Len v = 4" "rat_vecs \<noteq> []"
  by (simp_all add: rat_vecs_def rat_window_def)

end
