(* ===== verification/Parallel.thy ===== *)
theory Parallel
  imports Prelude "HOL-Library.Multiset"
begin

text \<open>
  The scheduling helpers of \<open>src/prover/utils/parallel\<close>: \<open>parallel.go\<close> (\<open>Execute\<close>),
  \<open>atomic_counter.go\<close>, \<open>chunky.go\<close> and \<open>thread_aware.go\<close>. \<open>Execute\<close> cuts a range of iterations into one
  interval per goroutine; the goroutines run concurrently, so what they do to shared memory is some
  interleaving of their steps. \<open>GOMAXPROCS\<close> is a parameter. \<open>ExecuteChunky\<close> lets workers draw task
  numbers from a shared counter: a transition system whose runs are all the schedules.
\<close>

subsection \<open>\<open>Execute\<close>\<close>

definition nb_tasks :: "int \<Rightarrow> int list \<Rightarrow> int" where
  "nb_tasks procs maxCpus =
     max 1 (case maxCpus of [m] \<Rightarrow> if m < 1 then 1 else m | _ \<Rightarrow> procs)"

fun Execute_loop :: "int \<Rightarrow> nat \<Rightarrow> int \<Rightarrow> int \<Rightarrow> int \<Rightarrow> (int \<times> int) list" where
  "Execute_loop per 0 i extraTasks offset = []"
| "Execute_loop per (Suc left) i extraTasks offset =
     (let start = i * per + offset; end = start + per in
      if 0 < extraTasks
      then (start, end + 1) # Execute_loop per left (i + 1) (extraTasks - 1) (offset + 1)
      else (start, end) # Execute_loop per left (i + 1) extraTasks offset)"

text \<open>The intervals \<open>[start, end)\<close> handed to the goroutines, in the order they are started.\<close>

definition Execute :: "int \<Rightarrow> int \<Rightarrow> int list \<Rightarrow> (int \<times> int) list" where
  "Execute procs nbIterations maxCpus =
     (let nbTasks = nb_tasks procs maxCpus in
      if nbTasks = 1 then [(0, nbIterations)]
      else
        let per = go_quot nbIterations nbTasks;
            (per, nbTasks) = (if per < 1 then (1, nbIterations) else (per, nbTasks));
            extraTasks = nbIterations - nbTasks * per
        in Execute_loop per (nat nbTasks) 0 extraTasks 0)"

text \<open>The iterations of an interval.\<close>

definition iterations :: "int \<times> int \<Rightarrow> int list" where
  "iterations r = [fst r..snd r - 1]"

lemma iterations_pair [simp]: "iterations (a, b) = [a..b - 1]"
  by (simp add: iterations_def)

lemma upto_append: "a \<le> b \<Longrightarrow> b \<le> c \<Longrightarrow> [a..b - 1] @ [b..c - 1] = [a..c - 1]"
  for a b c :: int
  using upto_split1 [of a b "c - 1"] by (cases "b = c") auto

lemma Execute_loop_covers:
  assumes "0 \<le> per"
  shows "0 \<le> extra \<Longrightarrow> extra \<le> int n \<Longrightarrow>
    concat (map iterations (Execute_loop per n i extra off)) = [i * per + off..i * per + off + int n * per + extra - 1]"
proof (induction n arbitrary: i extra off)
  case 0
  then show ?case by simp
next
  case (Suc n)
  show ?case
  proof (cases "0 < extra")
    case True
    then have "concat (map iterations (Execute_loop per (Suc n) i extra off)) =
        [i * per + off..(i * per + off + per + 1) - 1] @
        [i * per + off + per + 1..(i * per + off + per + 1 + int n * per + (extra - 1)) - 1]"
      using Suc.IH [of "extra - 1" "i + 1" "off + 1"] Suc.prems
      by (simp add: Let_def algebra_simps)
    also have "\<dots> = [i * per + off..(i * per + off + per + 1 + int n * per + (extra - 1)) - 1]"
      using assms True mult_nonneg_nonneg [of "int n" per] by (intro upto_append) linarith+
    finally show ?thesis by (simp add: algebra_simps)
  next
    case False
    then have e: "extra = 0" using Suc.prems by simp
    then have "concat (map iterations (Execute_loop per (Suc n) i extra off)) =
        [i * per + off..(i * per + off + per) - 1] @
        [i * per + off + per..(i * per + off + per + int n * per) - 1]"
      using Suc.IH [of 0 "i + 1" off] by (simp add: Let_def algebra_simps)
    also have "\<dots> = [i * per + off..(i * per + off + per + int n * per) - 1]"
      using assms by (intro upto_append) simp_all
    finally show ?thesis using e by (simp add: algebra_simps)
  qed
qed

text \<open>Every iteration is handed out exactly once, in order, whatever the number of processors.\<close>

lemma Execute_covers:
  assumes "0 \<le> n"
  shows "concat (map iterations (Execute procs n maxCpus)) = [0..n - 1]"
proof -
  let ?t = "nb_tasks procs maxCpus"
  have t: "1 \<le> ?t" by (simp add: nb_tasks_def)
  consider "?t = 1" | "?t \<noteq> 1" "n < ?t" | "?t \<noteq> 1" "?t \<le> n" by linarith
  then show ?thesis
  proof cases
    case 1
    then show ?thesis by (simp add: Execute_def)
  next
    case 2
    then have "go_quot n ?t = 0" using assms t by simp
    with 2 show ?thesis
      using Execute_loop_covers [of 1 0 "nat n" 0 0] assms by (simp add: Execute_def Let_def)
  next
    case 3
    then have d: "go_quot n ?t = n div ?t" "1 \<le> n div ?t"
      using assms t by (simp_all add: pos_imp_zdiv_pos_iff int_one_le_iff_zero_less)
    have "n - ?t * (n div ?t) = n mod ?t" by (simp add: minus_mult_div_eq_mod)
    moreover have "0 \<le> n mod ?t" "n mod ?t \<le> ?t" using t order.strict_implies_order [OF pos_mod_bound, of ?t n] by simp_all
    ultimately show ?thesis
      using 3 d Execute_loop_covers [of "n div ?t" "n mod ?t" "nat ?t" 0 0] t
      by (simp add: Execute_def Let_def)
  qed
qed

lemma Execute_range:
  assumes "0 \<le> n" "r \<in> set (Execute procs n maxCpus)" "i \<in> set (iterations r)"
  shows "0 \<le> i" "i < n"
proof -
  have "i \<in> set (concat (map iterations (Execute procs n maxCpus)))" using assms(2,3) by auto
  then show "0 \<le> i" "i < n" by (simp_all add: Execute_covers [OF assms(1)])
qed

subsection \<open>Interleavings\<close>

text \<open>A schedule of goroutines: each step is the next one of some goroutine.\<close>

inductive interleaves :: "'a list list \<Rightarrow> 'a list \<Rightarrow> bool" where
  finished: "list_all (\<lambda>ts. ts = []) tss \<Longrightarrow> interleaves tss []"
| pick: "i < length tss \<Longrightarrow> tss ! i = x # xs \<Longrightarrow> interleaves (tss[i := xs]) ys \<Longrightarrow> interleaves tss (x # ys)"

lemma union_upd:
  assumes "i < length tss"
  shows "(\<Union>ts \<in> set tss. set ts) \<union> set xs = set (tss ! i) \<union> (\<Union>ts \<in> set (tss[i := xs]). set ts)"
proof -
  have tss: "tss = take i tss @ tss ! i # drop (Suc i) tss" using id_take_nth_drop [OF assms] .
  have upd: "tss[i := xs] = take i tss @ xs # drop (Suc i) tss" using upd_conv_take_nth_drop [OF assms] .
  show ?thesis unfolding upd by (subst tss) auto
qed

lemma interleaves_set: "interleaves tss ys \<Longrightarrow> set ys = (\<Union>ts \<in> set tss. set ts)"
proof (induction rule: interleaves.induct)
  case (finished tss)
  then show ?case by (auto simp: list_all_iff)
next
  case (pick i tss x xs ys)
  have "set xs \<subseteq> (\<Union>ts \<in> set tss. set ts)"
    using nth_mem [OF pick.hyps(1)] unfolding pick.hyps(2) by (intro subsetI UN_I [of "x # xs"]) simp_all
  moreover have "set xs \<subseteq> (\<Union>ts \<in> set (tss[i := xs]). set ts)"
    using set_update_memI [OF pick.hyps(1), of xs] by blast
  ultimately show ?case using union_upd [OF pick.hyps(1), of xs] pick.hyps(2) pick.IH by auto
qed

text \<open>\<open>after_deps dep S xs\<close>: each step of \<open>xs\<close> comes after the steps it depends on, given that those in
  \<open>S\<close> are done. Goroutines that each respect the dependencies respect them in every schedule.\<close>

fun after_deps :: "('a \<Rightarrow> 'a set) \<Rightarrow> 'a set \<Rightarrow> 'a list \<Rightarrow> bool" where
  "after_deps dep S [] \<longleftrightarrow> True"
| "after_deps dep S (x # xs) \<longleftrightarrow> dep x \<subseteq> S \<and> after_deps dep (insert x S) xs"

lemma after_deps_mono: "after_deps dep S xs \<Longrightarrow> S \<subseteq> T \<Longrightarrow> after_deps dep T xs"
proof (induction xs arbitrary: S T)
  case (Cons x xs)
  from Cons.IH [of "insert x S" "insert x T"] Cons.prems show ?case by auto
qed simp

lemma after_deps_append:
  "after_deps dep S (xs @ ys) \<longleftrightarrow> after_deps dep S xs \<and> after_deps dep (S \<union> set xs) ys"
  by (induction xs arbitrary: S) auto

lemma interleaves_after_deps:
  "interleaves tss ys \<Longrightarrow> list_all (after_deps dep S) tss \<Longrightarrow> after_deps dep S ys"
proof (induction arbitrary: S rule: interleaves.induct)
  case (finished tss)
  then show ?case by simp
next
  case (pick i tss x xs ys)
  have "after_deps dep S (x # xs)" using pick.prems pick.hyps(1,2) by (metis list_all_length)
  moreover from this have "list_all (after_deps dep (insert x S)) (tss[i := xs])"
    using pick.prems pick.hyps(1)
    by (auto simp: list_all_length nth_list_update intro: after_deps_mono [of dep S])
  ultimately show ?case using pick.IH by simp
qed

lemma interleaves_single: "interleaves [xs] xs"
proof (induction xs)
  case Nil
  show ?case by (rule interleaves.finished) simp
next
  case (Cons x xs)
  then show ?case using interleaves.pick [of 0 "[x # xs]" x xs xs] by simp
qed

text \<open>Running the goroutines one after the other is a schedule.\<close>

lemma interleaves_Nil: "interleaves tss ys \<Longrightarrow> interleaves ([] # tss) ys"
proof (induction rule: interleaves.induct)
  case (finished tss)
  then show ?case by (intro interleaves.finished) simp
next
  case (pick i tss x xs ys)
  then show ?case by (intro interleaves.pick [of "Suc i"]) simp_all
qed

lemma interleaves_concat: "interleaves tss (concat tss)"
proof (induction tss)
  case Nil
  show ?case by (simp add: interleaves.finished)
next
  case (Cons ts tss)
  show ?case
  proof (induction ts)
    case Nil
    then show ?case using interleaves_Nil [OF Cons.IH] by simp
  next
    case (Cons x xs)
    then show ?case by (simp add: interleaves.pick [of 0 "(x # xs) # tss" x xs])
  qed
qed

subsection \<open>The shared counter\<close>

text \<open>\<open>current\<close> is an atomic \<open>uint32\<close>; \<open>Add(1)\<close> returns the new value.\<close>

record AtomicCounter =
  ac_n :: int
  ac_current :: "32 word"

definition NewAtomicCounter :: "int \<Rightarrow> AtomicCounter" where
  "NewAtomicCounter n = \<lparr>ac_n = n, ac_current = 0\<rparr>"

definition Counter_Next :: "AtomicCounter \<Rightarrow> (int \<times> bool) \<times> AtomicCounter" where
  "Counter_Next c =
     (let c = c\<lparr>ac_current := ac_current c + 1\<rparr>; current = uint (ac_current c) - 1 in
      if ac_n c \<le> current then ((0, False), c) else ((current, True), c))"

lemma uint_add_one: "uint c < 2 ^ 32 - 1 \<Longrightarrow> uint (c + 1) = uint c + 1" for c :: "32 word"
  by (simp add: uint_word_ariths)

lemma Counter_Next_eq:
  assumes "uint (ac_current c) < 2 ^ 32 - 1"
  shows "Counter_Next c =
    (if ac_n c \<le> uint (ac_current c) then (0, False) else (uint (ac_current c), True),
     c\<lparr>ac_current := ac_current c + 1\<rparr>)"
  using uint_add_one [OF assms] by (simp add: Counter_Next_def Let_def)

text \<open>The counter after a number of draws, and the draw that follows them.\<close>

definition draw_after :: "int \<Rightarrow> nat \<Rightarrow> (int \<times> bool) \<times> AtomicCounter" where
  "draw_after n k = Counter_Next (((\<lambda>c. snd (Counter_Next c)) ^^ k) (NewAtomicCounter n))"

lemma counter_after: "((\<lambda>c. snd (Counter_Next c)) ^^ k) (NewAtomicCounter n) = \<lparr>ac_n = n, ac_current = of_nat k\<rparr>"
  by (induction k) (simp_all add: NewAtomicCounter_def Counter_Next_def Let_def add.commute)

lemma draw_after_below:
  assumes "k < 2 ^ 32 - 1"
  shows "fst (draw_after n k) = (if n \<le> int k then (0, False) else (int k, True))"
proof -
  have "uint (of_nat k :: 32 word) = int k" using assms by (simp add: uint_nat unat_of_nat)
  then show ?thesis using assms Counter_Next_eq [of "\<lparr>ac_n = n, ac_current = of_nat k\<rparr>"] by (simp add: draw_after_def counter_after)
qed

text \<open>The draw after \<open>2 ^ 32 - 1\<close> others wraps the counter: it hands out the task \<open>-1\<close> and leaves the counter as it was created.\<close>

lemma draw_after_wraps:
  assumes "0 \<le> n"
  shows "draw_after n (2 ^ 32 - 1) = ((-1, True), NewAtomicCounter n)"
proof -
  have "(of_nat (2 ^ 32 - 1) :: 32 word) + 1 = 0" by (simp flip: of_nat_Suc)
  then show ?thesis
    using assms unfolding draw_after_def counter_after by (simp add: Counter_Next_def Let_def NewAtomicCounter_def)
qed

subsection \<open>Workers\<close>

text \<open>
  The goroutines of \<open>ExecuteChunky\<close> and \<open>ExecuteThreadAware\<close>. A worker of the latter first runs
  its \<open>init\<close>. \<open>log\<close> records the finished tasks with the thread that ran them, so the wait group
  is at \<open>n - length log\<close> and the caller returns when it is zero.
\<close>

datatype worker = Starting | Drawing | Working int | Stopped

record pool =
  counter :: AtomicCounter
  workers :: "worker list"
  log :: "(nat \<times> int) list"

inductive pool_step :: "pool \<Rightarrow> pool \<Rightarrow> bool" where
  initialise: "p < length (workers s) \<Longrightarrow> workers s ! p = Starting \<Longrightarrow>
    pool_step s (s\<lparr>workers := (workers s)[p := Drawing]\<rparr>)"
| draw: "p < length (workers s) \<Longrightarrow> workers s ! p = Drawing \<Longrightarrow> Counter_Next (counter s) = ((i, True), c) \<Longrightarrow>
    pool_step s (s\<lparr>counter := c, workers := (workers s)[p := Working i]\<rparr>)"
| stop: "p < length (workers s) \<Longrightarrow> workers s ! p = Drawing \<Longrightarrow> Counter_Next (counter s) = ((i, False), c) \<Longrightarrow>
    pool_step s (s\<lparr>counter := c, workers := (workers s)[p := Stopped]\<rparr>)"
| work: "p < length (workers s) \<Longrightarrow> workers s ! p = Working i \<Longrightarrow>
    pool_step s (s\<lparr>workers := (workers s)[p := Drawing], log := log s @ [(p, i)]\<rparr>)"

inductive_cases pool_stepE: "pool_step s t"

definition num_cpu :: "int \<Rightarrow> int list \<Rightarrow> int" where
  "num_cpu procs numcpus = (case numcpus of m # _ \<Rightarrow> if 0 < m then m else procs | [] \<Rightarrow> procs)"

definition ExecuteChunky :: "int \<Rightarrow> int \<Rightarrow> int list \<Rightarrow> (int \<times> int) list + pool" where
  "ExecuteChunky procs nbIterations numcpus =
     (let numcpu = num_cpu procs numcpus in
      if nbIterations < numcpu then Inl (Execute procs nbIterations [numcpu])
      else Inr \<lparr>counter = NewAtomicCounter nbIterations,
                workers = replicate (nat numcpu) Drawing, log = []\<rparr>)"

definition ExecuteThreadAware :: "int \<Rightarrow> int \<Rightarrow> int list \<Rightarrow> pool" where
  "ExecuteThreadAware procs nbIterations numcpus =
     \<lparr>counter = NewAtomicCounter nbIterations,
      workers = replicate (nat (num_cpu procs numcpus)) Starting, log = []\<rparr>"

definition in_progress :: "worker list \<Rightarrow> int list" where
  "in_progress ws = concat (map (\<lambda>w. case w of Working i \<Rightarrow> [i] | _ \<Rightarrow> []) ws)"

definition stopped :: "worker list \<Rightarrow> nat" where
  "stopped ws = length (filter (\<lambda>w. w = Stopped) ws)"

text \<open>The invariant: the tasks handed out are those below the counter, each in the log or in progress, once.
  The counter runs ahead of \<open>n\<close> by the number of stopped workers.\<close>

definition pool_ok :: "int \<Rightarrow> pool \<Rightarrow> bool" where
  "pool_ok n s \<longleftrightarrow>
     ac_n (counter s) = n \<and> 0 \<le> n \<and> n + int (length (workers s)) < 2 ^ 32 \<and>
     uint (ac_current (counter s)) = int (length (log s) + length (in_progress (workers s)) + stopped (workers s)) \<and>
     (stopped (workers s) = 0 \<or> int (length (log s) + length (in_progress (workers s))) = n) \<and>
     int (length (log s) + length (in_progress (workers s))) \<le> n \<and>
     distinct (map snd (log s) @ in_progress (workers s)) \<and>
     set (map snd (log s) @ in_progress (workers s)) =
       {0..<int (length (log s) + length (in_progress (workers s)))}"

lemma split_worker:
  assumes "p < length ws"
  obtains xs ys where "ws = xs @ ws ! p # ys" "\<And>w. ws[p := w] = xs @ w # ys"
  using that [of "take p ws" "drop (Suc p) ws"] id_take_nth_drop [OF assms] upd_conv_take_nth_drop [OF assms]
  by simp

lemma pool_simps [simp]:
  "in_progress (xs @ ys) = in_progress xs @ in_progress ys"
  "in_progress (Starting # xs) = in_progress xs" "in_progress (Drawing # xs) = in_progress xs"
  "in_progress (Stopped # xs) = in_progress xs" "in_progress (Working i # xs) = i # in_progress xs"
  "stopped (xs @ ys) = stopped xs + stopped ys"
  "stopped (Starting # xs) = stopped xs" "stopped (Drawing # xs) = stopped xs"
  "stopped (Working i # xs) = stopped xs" "stopped (Stopped # xs) = Suc (stopped xs)"
  "in_progress [] = []" "stopped [] = 0"
  by (simp_all add: in_progress_def stopped_def)

lemma stopped_le: "stopped ws \<le> length ws"
  by (simp add: stopped_def)

lemma pool_ok_current:
  assumes "pool_ok n s" "p < length (workers s)" "workers s ! p = Drawing"
  shows "uint (ac_current (counter s)) < 2 ^ 32 - 1"
proof -
  obtain xs ys where w: "workers s = xs @ Drawing # ys" using split_worker [OF assms(2)] assms(3) by metis
  have "stopped (workers s) < length (workers s)" using stopped_le [of xs] stopped_le [of ys] by (simp add: w)
  then show ?thesis using assms(1) by (simp add: pool_ok_def)
qed

lemma pool_step_ok:
  assumes "pool_step s t" "pool_ok n s"
  shows "pool_ok n t"
  using assms(1)
proof (cases rule: pool_step.cases)
  case (initialise p)
  obtain xs ys where "workers s = xs @ Starting # ys" "(workers s)[p := Drawing] = xs @ Drawing # ys"
    using split_worker [OF initialise(2)] initialise(3) by metis
  then show ?thesis using assms(2) initialise(1) by (simp add: pool_ok_def)
next
  case (draw p i c)
  obtain xs ys where w: "workers s = xs @ Drawing # ys" "(workers s)[p := Working i] = xs @ Working i # ys"
    using split_worker [OF draw(2)] draw(3) by metis
  note cur = pool_ok_current [OF assms(2) draw(2,3)]
  have c: "i = uint (ac_current (counter s))" "i < n" "c = (counter s)\<lparr>ac_current := ac_current (counter s) + 1\<rparr>"
    using draw(4) assms(2) unfolding Counter_Next_eq [OF cur] by (auto simp: pool_ok_def split: if_splits)
  have k: "i = int (length (log s) + length (in_progress (workers s)))" "stopped (workers s) = 0"
    using assms(2) c(1,2) by (auto simp: pool_ok_def)
  have "{0..<i + 1} = insert i {0..<i}" using k(1) by auto
  moreover have "i \<notin> set (map snd (log s) @ in_progress (workers s))" using assms(2) k by (simp add: pool_ok_def)
  ultimately show ?thesis
    using assms(2) c k uint_add_one [OF cur] draw(1) w
    by (auto simp: pool_ok_def)
next
  case (stop p i c)
  obtain xs ys where w: "workers s = xs @ Drawing # ys" "(workers s)[p := Stopped] = xs @ Stopped # ys"
    using split_worker [OF stop(2)] stop(3) by metis
  note cur = pool_ok_current [OF assms(2) stop(2,3)]
  have c: "n \<le> uint (ac_current (counter s))" "c = (counter s)\<lparr>ac_current := ac_current (counter s) + 1\<rparr>"
    using stop(4) assms(2) unfolding Counter_Next_eq [OF cur] by (auto simp: pool_ok_def split: if_splits)
  then show ?thesis
    using assms(2) uint_add_one [OF cur] stop(1) w by (auto simp: pool_ok_def)
next
  case (work p i)
  obtain xs ys where "workers s = xs @ Working i # ys" "(workers s)[p := Drawing] = xs @ Drawing # ys"
    using split_worker [OF work(2)] work(3) by metis
  then show ?thesis using assms(2) work(1) by (auto simp: pool_ok_def)
qed

lemma pool_reachable_ok:
  assumes "pool_step\<^sup>*\<^sup>* s t" "pool_ok n s"
  shows "pool_ok n t"
  using assms by (induction rule: rtranclp_induct) (auto intro: pool_step_ok)

lemma in_progress_replicate [simp]:
  "in_progress (replicate k Drawing) = []" "in_progress (replicate k Starting) = []"
  "stopped (replicate k Drawing) = 0" "stopped (replicate k Starting) = 0"
  by (induction k) simp_all

lemma pool_start_ok:
  assumes "0 \<le> n" "n + int k < 2 ^ 32" "w = Drawing \<or> w = Starting"
  shows "pool_ok n \<lparr>counter = NewAtomicCounter n, workers = replicate k w, log = []\<rparr>"
  using assms by (auto simp: pool_ok_def NewAtomicCounter_def)

text \<open>Every step uses up something, so the workers stop; a pool that cannot step has run every task exactly
  once.\<close>

definition starting :: "worker list \<Rightarrow> nat" where
  "starting ws = length (filter (\<lambda>w. w = Starting) ws)"

definition pool_measure :: "int \<Rightarrow> pool \<Rightarrow> nat" where
  "pool_measure n s =
     2 * (nat n - (length (log s) + length (in_progress (workers s)))) + length (in_progress (workers s)) +
     (length (workers s) - stopped (workers s)) + starting (workers s)"

lemma starting_simps [simp]:
  "starting (xs @ ys) = starting xs + starting ys" "starting (Starting # xs) = Suc (starting xs)"
  "starting (Drawing # xs) = starting xs" "starting (Stopped # xs) = starting xs"
  "starting (Working i # xs) = starting xs"
  by (simp_all add: starting_def)

lemma pool_step_measure:
  assumes "pool_step s t" "pool_ok n s"
  shows "pool_measure n t < pool_measure n s"
  using assms(1)
proof (cases rule: pool_step.cases)
  case (initialise p)
  obtain xs ys where "workers s = xs @ Starting # ys" "(workers s)[p := Drawing] = xs @ Drawing # ys"
    using split_worker [OF initialise(2)] initialise(3) by metis
  then show ?thesis using initialise(1) by (simp add: pool_measure_def)
next
  case (draw p i c)
  obtain xs ys where w: "workers s = xs @ Drawing # ys" "(workers s)[p := Working i] = xs @ Working i # ys"
    using split_worker [OF draw(2)] draw(3) by metis
  have "int (length (log t) + length (in_progress (workers t))) \<le> n"
    using pool_step_ok [OF assms] by (simp add: pool_ok_def)
  then have "length (log s) + length (in_progress (workers s)) < nat n"
    using draw(1) w by simp
  then show ?thesis using draw(1) w by (simp add: pool_measure_def)
next
  case (stop p i c)
  obtain xs ys where w: "workers s = xs @ Drawing # ys" "(workers s)[p := Stopped] = xs @ Stopped # ys"
    using split_worker [OF stop(2)] stop(3) by metis
  then show ?thesis using stop(1) stopped_le [of xs] stopped_le [of ys] by (simp add: pool_measure_def)
next
  case (work p i)
  obtain xs ys where "workers s = xs @ Working i # ys" "(workers s)[p := Drawing] = xs @ Drawing # ys"
    using split_worker [OF work(2)] work(3) by metis
  then show ?thesis using work(1) by (simp add: pool_measure_def)
qed

lemma pool_run_bound:
  assumes "(pool_step ^^ k) s t" "pool_ok n s"
  shows "k + pool_measure n t \<le> pool_measure n s"
  using assms
proof (induction k arbitrary: t)
  case (Suc k)
  then obtain u where u: "(pool_step ^^ k) s u" "pool_step u t" by auto
  have "pool_ok n u" using pool_reachable_ok relpowp_imp_rtranclp [OF u(1)] Suc.prems(2) by blast
  from Suc.IH [OF u(1) Suc.prems(2)] pool_step_measure [OF u(2) this] show ?case by simp
qed simp

lemma pool_stuck_complete:
  assumes "pool_ok n s" "workers s \<noteq> []" "\<not> (\<exists>t. pool_step s t)"
  shows "mset (map snd (log s)) = mset [0..n - 1]"
proof -
  have "workers s ! p = Stopped" if "p < length (workers s)" for p
  proof (cases "workers s ! p")
    case Starting
    with pool_step.initialise [OF that] assms(3) show ?thesis by blast
  next
    case Drawing
    obtain i b c where "Counter_Next (counter s) = ((i, b), c)" by (metis surj_pair)
    then have "\<exists>t. pool_step s t"
      using pool_step.draw [OF that Drawing, of i c] pool_step.stop [OF that Drawing, of i c] by (cases b) auto
    with assms(3) show ?thesis by blast
  next
    case (Working i)
    with pool_step.work [OF that] assms(3) show ?thesis by blast
  qed
  then have w: "workers s = replicate (length (workers s)) Stopped"
    by (intro nth_equalityI) simp_all
  have "stopped (replicate k Stopped) = k" "in_progress (replicate k Stopped) = []" for k
    by (induction k) simp_all
  with w have "stopped (workers s) \<noteq> 0" "in_progress (workers s) = []"
    using assms(2) by (metis length_0_conv)+
  then have "distinct (map snd (log s))" "set (map snd (log s)) = set [0..n - 1]"
    using assms(1) by (auto simp: pool_ok_def)
  then show ?thesis by (metis distinct_upto set_eq_iff_mset_eq_distinct)
qed

end
