(* ===== verification/SmtBuild.thy ===== *)
theory SmtBuild
  imports Smt Utils Parallel
begin

text \<open>
  \<open>NewTree\<close> of \<open>smt_koalabear/tree.go\<close>: the parallel construction of a complete tree. The shared memory
  is the list of the levels; a goroutine is a sequence of cell writes, each hashing two cells of the
  level below with the goroutine's own hasher. The order in which the runtime interleaves the
  goroutines of a call of \<open>parallel.Execute\<close> is a parameter. The theory shows that every order gives
  the tree that the specification describes, so that the result is also the one of inserting the
  leaves one by one.
\<close>

subsection \<open>Steps on the shared levels\<close>

type_synonym cell_write = "nat \<times> int \<times> int"

text \<open>\<open>outLevel[dst] = hashLR(hasher, inLevel[src], inLevel[src+1])\<close> by goroutine \<open>g\<close>.\<close>

definition cell_write_step ::
  "('f::zero) koalabear \<Rightarrow> 'f octuplet list \<Rightarrow> 'f octuplet list list \<times> (nat \<Rightarrow> 'f mdhasher) \<Rightarrow>
   nat \<times> cell_write \<Rightarrow> ('f octuplet list list \<times> (nat \<Rightarrow> 'f mdhasher)) result" where
  "cell_write_step kb leaves st w =
     (let (nodes, hashers) = st; (g, l, dst, src) = w in
      rbind (if l = 0 then Inr leaves else index nodes (int l - 1)) (\<lambda>inLevel.
      rbind (index inLevel src) (\<lambda>a.
      rbind (index inLevel (src + 1)) (\<lambda>b.
      let (node, hasher) = hashLR kb (hashers g) a b in
      rbind (index nodes (int l)) (\<lambda>outLevel.
      rbind (set_index outLevel dst node) (\<lambda>outLevel.
      rbind (set_index nodes (int l) outLevel) (\<lambda>nodes. Inr (nodes, hashers(g := hasher)))))))))"

type_synonym order = "(nat \<times> cell_write) list list \<Rightarrow> (nat \<times> cell_write) list"

definition run_goroutines ::
  "('f::zero) koalabear \<Rightarrow> 'f octuplet list \<Rightarrow> order \<Rightarrow> cell_write list list \<Rightarrow>
   'f octuplet list list \<Rightarrow> 'f octuplet list list result" where
  "run_goroutines kb leaves ord works nodes =
     rbind (foldM (cell_write_step kb leaves) (nodes, \<lambda>_. NewMDHasher)
              (ord (map (\<lambda>(g, w). map (Pair g) w) (enumerate 0 works))))
       (\<lambda>(nodes, _). Inr nodes)"

subsection \<open>The construction\<close>

text \<open>The levels are consecutive slices of one array.\<close>

fun level_slices :: "'a list \<Rightarrow> int \<Rightarrow> int \<Rightarrow> nat \<Rightarrow> 'a list list result" where
  "level_slices allNodes offset lsize 0 = Inr []"
| "level_slices allNodes offset lsize (Suc n) =
     rbind (go_slice allNodes offset (offset + lsize)) (\<lambda>level.
     rbind (level_slices allNodes (offset + lsize) (go_quot lsize 2) n) (\<lambda>levels. Inr (level # levels)))"

text \<open>The writes of task \<open>t\<close>: a subtree of the given height, level by level.\<close>

definition subtree_writes :: "nat \<Rightarrow> int \<Rightarrow> int \<Rightarrow> cell_write list" where
  "subtree_writes subtreeHeight chunkSize t =
     (if 0 < subtreeHeight
      then map (\<lambda>k. (0, t * (chunkSize div 2) + k, t * chunkSize + 2 * k)) [0..chunkSize div 2 - 1]
      else []) @
     concat (map (\<lambda>l. map (\<lambda>k. (l, t * (chunkSize div 2 ^ (l + 1)) + k, t * (chunkSize div 2 ^ l) + 2 * k))
                        [0..chunkSize div 2 ^ (l + 1) - 1]) [1..<subtreeHeight])"

fun upper_levels ::
  "('f::zero) koalabear \<Rightarrow> int \<Rightarrow> (nat \<Rightarrow> order) \<Rightarrow> 'f octuplet list \<Rightarrow> nat \<Rightarrow> nat \<Rightarrow>
   'f octuplet list list \<Rightarrow> 'f octuplet list list result" where
  "upper_levels kb procs ord leaves i 0 nodes = Inr nodes"
| "upper_levels kb procs ord leaves i (Suc m) nodes =
     rbind (index nodes (int i)) (\<lambda>currLevel.
     let n = int (length currLevel);
         ranges = (if 32 \<le> n \<and> 1 < procs then Execute procs n [] else [(0, n)]) in
     rbind (run_goroutines kb leaves (ord (Suc i))
              (map (\<lambda>r. map (\<lambda>k. (i, k, 2 * k)) (iterations r)) ranges) nodes) (\<lambda>nodes.
     upper_levels kb procs ord leaves (Suc i) m nodes))"

definition NewTree ::
  "('f::zero) koalabear \<Rightarrow> int \<Rightarrow> (nat \<Rightarrow> order) \<Rightarrow> 'f octuplet list \<Rightarrow> 'f tree result" where
  "NewTree kb procs ord leaves =
     (let numLeaves = int (length leaves) in
      rbind (require (\<not> (\<not> IsPowerOfTwo numLeaves \<or> numLeaves = 0))
               (Panic ''expected power of two number of leaves'')) (\<lambda>_.
      let depth = nat (Log2Ceil numLeaves);
          allNodes = (if 1 < depth then replicate (nat (numLeaves - 2)) 0 else []) in
      rbind (require (0 < depth) (Panic ''makeslice: len out of range'')) (\<lambda>_.
      let (emptyNodes, _, _) = empty_nodes_loop kb NewMDHasher EmptyLeaf (depth - 1) in
      rbind (if 1 < depth then level_slices allNodes 0 (go_quot numLeaves 2) (depth - 1) else Inr []) (\<lambda>nodes.
      let subtreeHeight = min 10 (depth - 1); chunkSize = 2 ^ subtreeHeight;
          numTasks = go_quot numLeaves chunkSize in
      rbind (run_goroutines kb leaves (ord 0)
               (map (\<lambda>r. concat (map (subtree_writes subtreeHeight chunkSize) (iterations r)))
                  (Execute procs numTasks [])) nodes) (\<lambda>nodes.
      rbind (upper_levels kb procs ord leaves subtreeHeight (depth - 1 - subtreeHeight) nodes) (\<lambda>nodes.
      rbind (if depth = 1
             then rbind (index leaves 0) (\<lambda>a. rbind (index leaves 1) (\<lambda>b.
                  Inr (fst (hashLR kb NewMDHasher a b))))
             else rbind (index nodes (int depth - 2)) (\<lambda>lastLevel.
                  if length lastLevel \<noteq> 2 then Inl (Panic ''broken invariant : len(lastLevel) != 2'')
                  else rbind (index lastLevel 0) (\<lambda>a. rbind (index lastLevel 1) (\<lambda>b.
                       Inr (fst (hashLR kb NewMDHasher a b)))))) (\<lambda>root.
      Inr \<lparr>Depth = depth, Root = root, OccupiedLeaves = leaves, OccupiedNodes = nodes,
           EmptyNodes = emptyNodes\<rparr>)))))))"

subsection \<open>What a run of the goroutines computes\<close>

definition in_order :: "order \<Rightarrow> bool" where
  "in_order ord \<longleftrightarrow> (\<forall>tss. interleaves tss (ord tss))"

definition cell :: "nat \<times> cell_write \<Rightarrow> nat \<times> nat" where
  "cell w = (fst (snd w), nat (fst (snd (snd w))))"

definition children :: "nat \<times> nat \<Rightarrow> (nat \<times> nat) set" where
  "children c = (if fst c = 0 then {} else {(fst c - 1, 2 * snd c), (fst c - 1, 2 * snd c + 1)})"

definition write_ok :: "nat \<Rightarrow> nat \<times> cell_write \<Rightarrow> bool" where
  "write_ok d w = (case w of (g, l, dst, src) \<Rightarrow>
     l < d - 1 \<and> 0 \<le> dst \<and> dst < 2 ^ (d - 1 - l) \<and> src = 2 * dst)"

definition leaf_fun :: "('f::zero) octuplet list \<Rightarrow> nat \<Rightarrow> 'f octuplet" where
  "leaf_fun leaves i = (if i < length leaves then leaves ! i else 0)"

definition levels_shape :: "nat \<Rightarrow> 'a list list \<Rightarrow> bool" where
  "levels_shape d nodes \<longleftrightarrow> length nodes = d - 1 \<and> (\<forall>l < d - 1. length (nodes ! l) = 2 ^ (d - 1 - l))"

text \<open>The cells of \<open>S\<close> hold the nodes of the Merkle tree.\<close>

definition cells_ok ::
  "('f::zero) koalabear \<Rightarrow> nat \<Rightarrow> 'f octuplet list \<Rightarrow> 'f octuplet list list \<Rightarrow> (nat \<times> nat) set \<Rightarrow> bool" where
  "cells_ok kb d leaves nodes S \<longleftrightarrow> levels_shape d nodes \<and>
     (\<forall>l k. (l, k) \<in> S \<longrightarrow> l < d - 1 \<longrightarrow> k < 2 ^ (d - 1 - l) \<longrightarrow> nodes ! l ! k = mnode (hash2 kb) (leaf_fun leaves) (Suc l) k)"

lemma cell_write_step_ok:
  assumes "length leaves = 2 ^ d" "write_ok d w" "cells_ok kb d leaves nodes S" "children (cell w) \<subseteq> S"
    "\<And>g. buffer (hs g) = []"
  shows "\<exists>nodes' hs'. cell_write_step kb leaves (nodes, hs) w = Inr (nodes', hs') \<and>
    cells_ok kb d leaves nodes' (insert (cell w) S) \<and> (\<forall>g. buffer (hs' g) = [])"
proof -
  obtain g l dst where w: "w = (g, l, dst, 2 * dst)" "l < d - 1" "0 \<le> dst" "dst < 2 ^ (d - 1 - l)"
    using assms(2) by (auto simp: write_ok_def split: prod.splits)
  obtain k where k: "dst = int k" "k < 2 ^ (d - 1 - l)"
    using w(3,4) by (metis nonneg_int_cases of_nat_less_iff of_nat_numeral of_nat_power)
  have sh: "length nodes = d - 1" "length (nodes ! l) = 2 ^ (d - 1 - l)"
    using assms(3) w(2) by (auto simp: cells_ok_def levels_shape_def)
  let ?m = "\<lambda>l. mnode (hash2 kb) (leaf_fun leaves) l"
  define lev where "lev = (if l = 0 then leaves else nodes ! (l - 1))"
  have len: "length lev = 2 * 2 ^ (d - 1 - l)"
  proof (cases l)
    case 0
    then show ?thesis using assms(1) w(2) by (cases d) (simp_all add: lev_def)
  next
    case (Suc l')
    then have "length (nodes ! l') = 2 ^ (d - 1 - l')" "d - 1 - l' = Suc (d - 1 - l)"
      using assms(3) w(2) by (auto simp: cells_ok_def levels_shape_def)
    then show ?thesis using Suc by (simp add: lev_def)
  qed
  have vals: "lev ! (2 * k) = ?m l (2 * k)" "lev ! (2 * k + 1) = ?m l (2 * k + 1)"
  proof -
    have "lev ! j = ?m l j" if "j = 2 * k \<or> j = 2 * k + 1" for j
    proof (cases l)
      case 0
      then show ?thesis using that k(2) len by (auto simp: lev_def leaf_fun_def)
    next
      case (Suc l')
      then have "(l', j) \<in> S" using assms(4) that by (auto simp: children_def cell_def w(1) k(1))
      moreover have "d - 1 - l' = Suc (d - 1 - l)" using Suc w(2) by simp
      then have "j < 2 ^ (d - 1 - l')" using that k(2) by auto
      ultimately show ?thesis using assms(3) Suc w(2) by (auto simp: cells_ok_def lev_def)
    qed
    then show "lev ! (2 * k) = ?m l (2 * k)" "lev ! (2 * k + 1) = ?m l (2 * k + 1)" by simp_all
  qed
  let ?v = "hash2 kb (?m l (2 * k)) (?m l (2 * k + 1))"
  let ?hs = "hs(g := snd (hashLR kb (hs g) (?m l (2 * k)) (?m l (2 * k + 1))))"
  let ?n = "nodes[l := (nodes ! l)[k := ?v]]"
  have "cell_write_step kb leaves (nodes, hs) w = Inr (?n, ?hs)"
  proof -
    have "(if l = 0 then Inr leaves else index nodes (int l - 1)) = Inr lev"
      using w(2) sh(1) by (auto simp: lev_def index_def nat_diff_distrib')
    moreover have "index lev (2 * int k) = Inr (?m l (2 * k))"
      using index_nat [of "2 * k" lev] vals(1) k(2) len by simp
    moreover have "index lev (2 * int k + 1) = Inr (?m l (2 * k + 1))"
      using index_nat [of "2 * k + 1" lev] vals(2) k(2) len by (simp add: add.commute)
    moreover have "index nodes (int l) = Inr (nodes ! l)" using w(2) sh(1) by (simp add: index_nat)
    ultimately show ?thesis
      using hashLR_flushed(1) [OF assms(5) [of g], of kb] w(2) k(2) sh
      by (cases "l = 0") (simp_all add: cell_write_step_def w(1) k(1) split_beta Let_def set_index_in)
  qed
  moreover have "cells_ok kb d leaves ?n (insert (cell w) S)"
    using assms(3) sh k(2) w(2)
    by (auto simp: cells_ok_def levels_shape_def cell_def w(1) k(1) nth_list_update)
  moreover have "\<forall>g. buffer (?hs g) = []" by (simp add: hashLR_flushed(2) assms(5))
  ultimately show ?thesis by blast
qed

lemma writes_ok:
  assumes "length leaves = 2 ^ d"
  shows "list_all (write_ok d) ws \<Longrightarrow> after_deps children S (map cell ws) \<Longrightarrow> cells_ok kb d leaves nodes S \<Longrightarrow>
    (\<And>g. buffer (hs g) = []) \<Longrightarrow>
    \<exists>nodes' hs'. foldM (cell_write_step kb leaves) (nodes, hs) ws = Inr (nodes', hs') \<and>
      cells_ok kb d leaves nodes' (S \<union> cell ` set ws)"
proof (induction ws arbitrary: S nodes hs)
  case Nil
  then show ?case by simp
next
  case (Cons w ws)
  obtain nodes1 hs1 where 1: "cell_write_step kb leaves (nodes, hs) w = Inr (nodes1, hs1)"
    "cells_ok kb d leaves nodes1 (insert (cell w) S)" "\<And>g. buffer (hs1 g) = []"
    using cell_write_step_ok [OF assms, of w kb nodes S hs] Cons.prems by auto
  from Cons.IH [of "insert (cell w) S" nodes1 hs1] Cons.prems 1 show ?case by (auto simp: insert_commute)
qed

lemma interleaves_map: "interleaves tss ys \<Longrightarrow> interleaves (map (map f) tss) (map f ys)"
proof (induction rule: interleaves.induct)
  case (finished tss)
  then show ?case by (auto simp: list_all_iff intro!: interleaves.finished)
next
  case (pick i tss x xs ys)
  then show ?case by (auto simp: map_update intro!: interleaves.pick [of i])
qed

abbreviation plain_cell :: "cell_write \<Rightarrow> nat \<times> nat" where
  "plain_cell w \<equiv> (fst w, nat (fst (snd w)))"

text \<open>Goroutines that each write a cell after its children, whatever the schedule.\<close>

lemma run_goroutines_ok:
  assumes "length leaves = 2 ^ d" "in_order ord" "cells_ok kb d leaves nodes S"
    "\<And>w. w \<in> set works \<Longrightarrow> after_deps children S (map plain_cell w)"
    "\<And>w x. w \<in> set works \<Longrightarrow> x \<in> set w \<Longrightarrow> write_ok d (0, x)"
  shows "\<exists>nodes'. run_goroutines kb leaves ord works nodes = Inr nodes' \<and>
    cells_ok kb d leaves nodes' (S \<union> (\<Union>w \<in> set works. plain_cell ` set w))"
proof -
  let ?tss = "map (\<lambda>(g, w). map (Pair g) w) (enumerate 0 works)"
  have il: "interleaves ?tss (ord ?tss)" using assms(2) by (simp add: in_order_def)
  have works: "snd ` set (enumerate 0 works) = set works"
    by (metis list.set_map map_snd_enumerate)
  have set: "set (ord ?tss) = (\<Union>ts \<in> set ?tss. set ts)" by (rule interleaves_set [OF il])
  have mem: "\<exists>w \<in> set works. snd x \<in> set w" if "x \<in> set (ord ?tss)" for x
    using that works unfolding set by force
  have "map (map cell) ?tss = map (map plain_cell) (map snd (enumerate 0 works))"
    by (simp add: cell_def split_beta comp_def del: map_snd_enumerate)
  then have cells: "map (map cell) ?tss = map (map plain_cell) works"
    by (simp only: map_snd_enumerate)
  have "after_deps children S (map cell (ord ?tss))"
    by (rule interleaves_after_deps [OF interleaves_map [OF il]])
      (use assms(4) in \<open>simp only: cells list_all_iff set_map, blast\<close>)
  moreover have "list_all (write_ok d) (ord ?tss)"
    using mem assms(5) by (fastforce simp: list_all_iff write_ok_def split: prod.splits)
  ultimately obtain nodes' hs' where r: "foldM (cell_write_step kb leaves) (nodes, \<lambda>_. NewMDHasher) (ord ?tss) =
      Inr (nodes', hs')" "cells_ok kb d leaves nodes' (S \<union> cell ` set (ord ?tss))"
    using writes_ok [OF assms(1) _ _ assms(3), of "ord ?tss" "\<lambda>_. NewMDHasher"] by auto
  have "cell ` set (ord ?tss) = set (map cell (ord ?tss))" by simp
  also have "\<dots> = (\<Union>w \<in> set works. plain_cell ` set w)"
    using interleaves_set [OF interleaves_map [OF il, of cell]] unfolding cells by auto
  finally show ?thesis using r by (simp add: run_goroutines_def)
qed

subsection \<open>The writes of \<open>NewTree\<close>\<close>

lemma after_depsI: "(\<And>x. x \<in> set xs \<Longrightarrow> dep x \<subseteq> S) \<Longrightarrow> after_deps dep S xs"
proof (induction xs arbitrary: S)
  case (Cons x xs)
  have "after_deps dep S xs" using Cons by simp
  then show ?case using Cons.prems by (auto intro: after_deps_mono)
qed simp

lemma after_deps_concat: "(\<And>xs. xs \<in> set xss \<Longrightarrow> after_deps dep S xs) \<Longrightarrow> after_deps dep S (concat xss)"
  by (induction xss) (auto simp: after_deps_append intro: after_deps_mono)

lemma after_deps_levels:
  "(\<And>l x. l < b \<Longrightarrow> x \<in> set (L l) \<Longrightarrow> dep x \<subseteq> S \<union> (\<Union>l' < l. set (L l'))) \<Longrightarrow>
   after_deps dep S (concat (map L [0..<b]))"
proof (induction b)
  case (Suc b)
  have "after_deps dep S (concat (map L [0..<b]))" by (rule Suc.IH) (use Suc.prems in auto)
  moreover have "after_deps dep (S \<union> set (concat (map L [0..<b]))) (L b)"
    by (rule after_depsI) (use Suc.prems in \<open>fastforce simp: lessThan_atLeast0\<close>)
  ultimately show ?case by (simp add: after_deps_append)
qed simp

text \<open>With a chunk of \<open>2 ^ h\<close> leaves, task \<open>t\<close> writes \<open>2 ^ (h - 1 - l)\<close> cells of level \<open>l\<close>.\<close>

definition task_level :: "nat \<Rightarrow> int \<Rightarrow> nat \<Rightarrow> cell_write list" where
  "task_level h t l = map (\<lambda>k. (l, t * 2 ^ (h - 1 - l) + k, 2 * (t * 2 ^ (h - 1 - l) + k))) [0..2 ^ (h - 1 - l) - 1]"

lemma pow_split: "l < h \<Longrightarrow> (2::int) ^ h = 2 ^ (h - 1 - l) * 2 ^ Suc l" "l < h \<Longrightarrow> (2::int) ^ h = 2 * 2 ^ (h - 1 - l) * 2 ^ l"
proof -
  assume "l < h"
  then have "h = (h - 1 - l) + Suc l" by simp
  then show "(2::int) ^ h = 2 ^ (h - 1 - l) * 2 ^ Suc l" by (metis power_add)
  then show "(2::int) ^ h = 2 * 2 ^ (h - 1 - l) * 2 ^ l" by simp
qed

lemma subtree_writes_levels: "subtree_writes h (2 ^ h) t = concat (map (task_level h t) [0..<h])"
proof -
  have d: "(2::int) ^ h div 2 ^ Suc l = 2 ^ (h - 1 - l)" "(2::int) ^ h div 2 ^ l = 2 * 2 ^ (h - 1 - l)"
    if "l < h" for l
    by (subst pow_split(1) [OF that], simp del: power_Suc, subst pow_split(2) [OF that], simp)
  have "concat (map (\<lambda>l. map (\<lambda>k. (l, t * (2 ^ h div 2 ^ (l + 1)) + k, t * (2 ^ h div 2 ^ l) + 2 * k))
      [0..2 ^ h div 2 ^ (l + 1) - 1]) [1..<h]) = concat (map (task_level h t) [1..<h])"
    by (rule arg_cong [where f = concat], rule map_cong [OF refl])
      (simp add: d task_level_def algebra_simps del: power_Suc)
  moreover have "map (\<lambda>k. (0, t * (2 ^ h div 2) + k, t * 2 ^ h + 2 * k)) [0..2 ^ h div 2 - 1] = task_level h t 0"
    if "0 < h"
    using that d [of 0] by (simp add: task_level_def algebra_simps)
  ultimately show ?thesis
    by (cases "0 < h") (simp_all add: subtree_writes_def upt_conv_Cons)
qed

lemma task_level_cells:
  assumes "0 \<le> t"
  shows "plain_cell ` set (task_level h t l) = {l} \<times> {nat t * 2 ^ (h - 1 - l)..<(nat t + 1) * 2 ^ (h - 1 - l)}"
proof -
  obtain u where u: "t = int u" using assms by (metis nonneg_int_cases)
  define c :: nat where "c = 2 ^ (h - 1 - l)"
  have C: "(2::int) ^ (h - 1 - l) = int c" by (simp add: c_def)
  have "k \<in> (\<lambda>x. nat (int u * int c + x)) ` {0..int c - 1} \<longleftrightarrow> k \<in> {u * c..<(u + 1) * c}" for k
  proof
    assume "k \<in> (\<lambda>x. nat (int u * int c + x)) ` {0..int c - 1}"
    then obtain x where x: "0 \<le> x" "x < int c" "k = nat (int u * int c + x)" by auto
    then have "int k = int (u * c) + x" by simp
    then have "u * c \<le> k" "k < u * c + c" using x(1,2) by linarith+
    then show "k \<in> {u * c..<(u + 1) * c}" by simp
  next
    assume "k \<in> {u * c..<(u + 1) * c}"
    then have k: "u * c \<le> k" "k < u * c + c" by auto
    then have "k = nat (int u * int c + int (k - u * c))" by (simp add: of_nat_diff)
    moreover have "int (k - u * c) \<in> {0..int c - 1}" using k unfolding atLeastAtMost_iff by linarith
    ultimately show "k \<in> (\<lambda>x. nat (int u * int c + x)) ` {0..int c - 1}" by blast
  qed
  then have "(\<lambda>x. nat (int u * int c + x)) ` {0..int c - 1} = {u * c..<(u + 1) * c}" by blast
  then show ?thesis
    unfolding u task_level_def C c_def [symmetric] by (auto simp: image_image)
qed

lemma subtree_writes_deps: "0 \<le> t \<Longrightarrow> after_deps children S (map plain_cell (subtree_writes h (2 ^ h) t))"
proof -
  assume t: "0 \<le> t"
  have "after_deps children S (concat (map (\<lambda>l. map plain_cell (task_level h t l)) [0..<h]))"
  proof (rule after_deps_levels)
    fix l x assume l: "l < h" and x: "x \<in> set (map plain_cell (task_level h t l))"
    show "children x \<subseteq> S \<union> (\<Union>l' < l. set (map plain_cell (task_level h t l')))"
    proof (cases l)
      case 0
      with x show ?thesis by (auto simp: children_def task_level_def)
    next
      case (Suc m)
      obtain k where k: "x = (l, k)" "nat t * 2 ^ (h - 1 - l) \<le> k" "k < (nat t + 1) * 2 ^ (h - 1 - l)"
        using x task_level_cells [OF t, of h l] unfolding set_map by auto
      have "(2::nat) ^ (h - 1 - m) = 2 * 2 ^ (h - 1 - l)"
        using l Suc by (metis Suc_diff_Suc diff_diff_left plus_1_eq_Suc power_Suc)
      then have "(m, 2 * k) \<in> plain_cell ` set (task_level h t m)" "(m, 2 * k + 1) \<in> plain_cell ` set (task_level h t m)"
        unfolding task_level_cells [OF t] using k(2,3) by auto
      then show ?thesis using Suc k(1) unfolding set_map by (auto simp: children_def)
    qed
  qed
  then show ?thesis by (simp add: subtree_writes_levels map_concat comp_def)
qed

lemma subtree_writes_ok:
  assumes "h \<le> d - 1" "0 \<le> t" "t < 2 ^ (d - h)" "x \<in> set (subtree_writes h (2 ^ h) t)"
  shows "write_ok d (g, x)"
proof -
  obtain l k where x: "x = (l, t * 2 ^ (h - 1 - l) + k, 2 * (t * 2 ^ (h - 1 - l) + k))" "l < h"
    "0 \<le> k" "k < 2 ^ (h - 1 - l)"
    using assms(4) unfolding subtree_writes_levels by (auto simp: task_level_def)
  have "(t + 1) * 2 ^ (h - 1 - l) \<le> 2 ^ (d - h) * 2 ^ (h - 1 - l)"
    using assms(3) by (intro mult_right_mono) simp_all
  also have "\<dots> = (2::int) ^ (d - 1 - l)"
    using x(2) assms(1) by (simp flip: power_add)
  finally show ?thesis
    using x assms(1,2) by (simp add: write_ok_def algebra_simps)
qed

lemma subtree_cells_cover:
  assumes "h \<le> d - 1" "l < h" "k < 2 ^ (d - 1 - l)"
  obtains t where "0 \<le> t" "t < 2 ^ (d - h)" "(l, k) \<in> plain_cell ` set (subtree_writes h (2 ^ h) t)"
proof -
  let ?c = "2 ^ (h - 1 - l) :: nat"
  define u where "u = k div ?c"
  have "2 ^ (d - 1 - l) = 2 ^ (d - h) * ?c"
    using assms(1,2) by (simp flip: power_add)
  then have u: "u < 2 ^ (d - h)" using assms(3) by (simp add: u_def less_mult_imp_div_less)
  have "u * ?c \<le> k" "k < (u + 1) * ?c"
    using dividend_less_div_times [of ?c k] by (simp_all add: u_def algebra_simps)
  then have "(l, k) \<in> plain_cell ` set (task_level h (int u) l)"
    unfolding task_level_cells [OF of_nat_0_le_iff] by simp
  moreover have "set (task_level h (int u) l) \<subseteq> set (subtree_writes h (2 ^ h) (int u))"
    using assms(2) by (auto simp: subtree_writes_levels)
  ultimately have "(l, k) \<in> plain_cell ` set (subtree_writes h (2 ^ h) (int u))" by blast
  moreover have "int u < 2 ^ (d - h)" using u by (simp add: int_less_pow)
  ultimately show thesis by (intro that [of "int u"]) simp_all
qed

lemma cells_ok_mono:
  assumes "cells_ok kb d leaves nodes S"
    "\<And>l k. (l, k) \<in> T \<Longrightarrow> l < d - 1 \<Longrightarrow> k < 2 ^ (d - 1 - l) \<Longrightarrow> (l, k) \<in> S"
  shows "cells_ok kb d leaves nodes T"
  using assms unfolding cells_ok_def by blast

abbreviation below :: "nat \<Rightarrow> (nat \<times> nat) set" where
  "below i \<equiv> {c. fst c < i}"

lemma subtrees_ok:
  assumes "length leaves = 2 ^ d" "in_order ord" "levels_shape d nodes" "h \<le> d - 1"
  shows "\<exists>nodes'. run_goroutines kb leaves ord
      (map (\<lambda>r. concat (map (subtree_writes h (2 ^ h)) (iterations r))) (Execute procs (2 ^ (d - h)) [])) nodes =
      Inr nodes' \<and> cells_ok kb d leaves nodes' (below h)"
proof -
  let ?E = "Execute procs (2 ^ (d - h)) []"
  let ?works = "map (\<lambda>r. concat (map (subtree_writes h (2 ^ h)) (iterations r))) ?E"
  have c: "cells_ok kb d leaves nodes {}" using assms(3) by (simp add: cells_ok_def)
  have rng: "0 \<le> t \<and> t < 2 ^ (d - h)" if "r \<in> set ?E" "t \<in> set (iterations r)" for r t
    using Execute_range [OF _ that] by simp
  have "after_deps children {} (map plain_cell w)" if w: "w \<in> set ?works" for w
  proof -
    obtain r where r: "r \<in> set ?E" "w = concat (map (subtree_writes h (2 ^ h)) (iterations r))" using w by auto
    have "after_deps children {} (concat (map (\<lambda>t. map plain_cell (subtree_writes h (2 ^ h) t)) (iterations r)))"
    proof (rule after_deps_concat)
      fix xs assume "xs \<in> set (map (\<lambda>t. map plain_cell (subtree_writes h (2 ^ h) t)) (iterations r))"
      then obtain t where t: "t \<in> set (iterations r)" "xs = map plain_cell (subtree_writes h (2 ^ h) t)" by auto
      then show "after_deps children {} xs" using rng [OF r(1) t(1)] by (simp add: subtree_writes_deps)
    qed
    then show ?thesis using r(2) by (simp add: map_concat comp_def)
  qed
  moreover have "write_ok d (0, x)" if wx: "w \<in> set ?works" "x \<in> set w" for w x
  proof -
    obtain r t where "r \<in> set ?E" "t \<in> set (iterations r)" "x \<in> set (subtree_writes h (2 ^ h) t)"
      using wx by auto
    then show ?thesis using rng subtree_writes_ok [OF assms(4)] by blast
  qed
  ultimately obtain nodes' where n: "run_goroutines kb leaves ord ?works nodes = Inr nodes'"
    "cells_ok kb d leaves nodes' ({} \<union> (\<Union>w \<in> set ?works. plain_cell ` set w))"
    using run_goroutines_ok [OF assms(1,2) c] by blast
  have "(l, k) \<in> (\<Union>w \<in> set ?works. plain_cell ` set w)" if lk: "l < h" "k < 2 ^ (d - 1 - l)" for l k
  proof -
    obtain t where t: "0 \<le> t" "t < 2 ^ (d - h)" "(l, k) \<in> plain_cell ` set (subtree_writes h (2 ^ h) t)"
      by (rule subtree_cells_cover [OF assms(4) lk])
    then have "t \<in> set (concat (map iterations ?E))" by (simp add: Execute_covers)
    then obtain r where "r \<in> set ?E" "t \<in> set (iterations r)" by auto
    with t(3) show ?thesis by fastforce
  qed
  then have "cells_ok kb d leaves nodes' (below h)" using n(2) by (auto elim!: cells_ok_mono)
  with n(1) show ?thesis by blast
qed

lemma level_ok:
  assumes "length leaves = 2 ^ d" "in_order ord" "cells_ok kb d leaves nodes (below i)" "i < d - 1"
    "concat (map iterations R) = [0..2 ^ (d - 1 - i) - 1]"
  shows "\<exists>nodes'. run_goroutines kb leaves ord (map (\<lambda>r. map (\<lambda>k. (i, k, 2 * k)) (iterations r)) R) nodes =
      Inr nodes' \<and> cells_ok kb d leaves nodes' (below (Suc i))"
proof -
  let ?works = "map (\<lambda>r. map (\<lambda>k. (i, k, 2 * k)) (iterations r)) R"
  have rng: "0 \<le> k \<and> k < 2 ^ (d - 1 - i)" if "r \<in> set R" "k \<in> set (iterations r)" for r k
  proof -
    have "k \<in> set (concat (map iterations R))" using that by auto
    then show ?thesis unfolding assms(5) by simp
  qed
  have "after_deps children (below i) (map plain_cell w)" if "w \<in> set ?works" for w
    using that by (intro after_depsI) (auto simp: children_def)
  moreover have "write_ok d (0, x)" if "w \<in> set ?works" "x \<in> set w" for w x
  proof -
    obtain r k where "r \<in> set R" "k \<in> set (iterations r)" "x = (i, k, 2 * k)" using \<open>w \<in> set ?works\<close> \<open>x \<in> set w\<close> by auto
    then show ?thesis using rng assms(4) by (simp add: write_ok_def)
  qed
  ultimately obtain nodes1 where n: "run_goroutines kb leaves ord ?works nodes = Inr nodes1"
    "cells_ok kb d leaves nodes1 (below i \<union> (\<Union>w \<in> set ?works. plain_cell ` set w))"
    using run_goroutines_ok [OF assms(1-3), of ?works] by blast
  have "(i, k) \<in> (\<Union>w \<in> set ?works. plain_cell ` set w)" if "k < 2 ^ (d - 1 - i)" for k
  proof -
    have "int k \<in> set (concat (map iterations R))" unfolding assms(5) using int_less_pow [OF that] by simp
    then obtain r where "r \<in> set R" "int k \<in> set (iterations r)" by auto
    then have "(i, int k, 2 * int k) \<in> set (map (\<lambda>k. (i, k, 2 * k)) (iterations r))"
      "map (\<lambda>k. (i, k, 2 * k)) (iterations r) \<in> set ?works" by auto
    then show ?thesis by (intro UN_I) (assumption, force)
  qed
  then have "cells_ok kb d leaves nodes1 (below (Suc i))"
    by (intro cells_ok_mono [OF n(2)]) (auto simp: less_Suc_eq)
  with n(1) show ?thesis by blast
qed

lemma upper_levels_ok:
  assumes "length leaves = 2 ^ d" "\<And>i. in_order (ord i)"
  shows "cells_ok kb d leaves nodes (below i) \<Longrightarrow> i + m = d - 1 \<Longrightarrow>
    \<exists>nodes'. upper_levels kb procs ord leaves i m nodes = Inr nodes' \<and> cells_ok kb d leaves nodes' (below (d - 1))"
proof (induction m arbitrary: i nodes)
  case 0
  then show ?case by simp
next
  case (Suc m)
  let ?n = "2 ^ (d - 1 - i) :: int"
  define R where "R = (if 32 \<le> ?n \<and> 1 < procs then Execute procs ?n [] else [(0, ?n)])"
  have sh: "index nodes (int i) = Inr (nodes ! i)" "int (length (nodes ! i)) = ?n"
    using Suc.prems by (auto simp: cells_ok_def levels_shape_def index_nat)
  have cov: "concat (map iterations R) = [0..?n - 1]" by (simp add: R_def Execute_covers)
  obtain nodes1 where n: "run_goroutines kb leaves (ord (Suc i))
      (map (\<lambda>r. map (\<lambda>k. (i, k, 2 * k)) (iterations r)) R) nodes = Inr nodes1"
    "cells_ok kb d leaves nodes1 (below (Suc i))"
    using level_ok [OF assms(1) assms(2) Suc.prems(1) _ cov] Suc.prems(2) by fastforce
  have "upper_levels kb procs ord leaves i (Suc m) nodes = upper_levels kb procs ord leaves (Suc i) m nodes1"
    by (simp only: upper_levels.simps sh rbind.simps Let_def R_def [symmetric] n(1))
  with Suc.IH [OF n(2)] Suc.prems(2) show ?case by simp
qed

lemma go_slice_replicate:
  "0 \<le> a \<Longrightarrow> a \<le> b \<Longrightarrow> b \<le> int n \<Longrightarrow> go_slice (replicate n x) a b = Inr (replicate (nat (b - a)) x)"
  by (simp add: go_slice_def min_def) linarith

lemma level_slices_zero:
  assumes "d \<le> D" "n < d"
  shows "level_slices (replicate (2 ^ D - 2) 0) (2 ^ D - 2 ^ d) (2 ^ (d - 1)) n =
    Inr (map (\<lambda>l. replicate (2 ^ (d - 1 - l)) 0) [0..<n])"
  using assms
proof (induction n arbitrary: d)
  case (Suc n)
  obtain e where d: "d = Suc (Suc e)" using Suc.prems(2) by (metis Suc_less_eq2 less_imp_Suc_add Suc_lessE)
  have p: "(2::nat) ^ d \<le> 2 ^ D" "(2::int) ^ d \<le> 2 ^ D" using Suc.prems(1) by (auto intro: power_increasing)
  have "(2::nat) \<le> 2 ^ D" using Suc.prems d by (cases D) simp_all
  then have "int (2 ^ D - 2) = 2 ^ D - 2" by (simp add: of_nat_diff)
  then have sl: "go_slice (replicate (2 ^ D - 2) 0) (2 ^ D - 2 ^ d) (2 ^ D - 2 ^ d + 2 ^ (d - 1)) =
      Inr (replicate (2 ^ (d - 1)) (0 :: 'a))"
    using p(2) d go_slice_replicate [of "2 ^ D - 2 ^ d" "2 ^ D - 2 ^ d + 2 ^ (d - 1)" "2 ^ D - 2" "0 :: 'a"]
    by (simp add: nat_power_eq nat_mult_distrib)
  have e: "(2::int) ^ D - 2 ^ d + 2 ^ (d - 1) = 2 ^ D - 2 ^ (d - 1)" using d by simp
  have q: "go_quot (2 ^ (d - 1)) 2 = 2 ^ (d - 1 - 1)" using d by simp
  have ih: "level_slices (replicate (2 ^ D - 2) 0) (2 ^ D - 2 ^ (d - 1)) (2 ^ (d - 1 - 1)) n =
      Inr (map (\<lambda>l. replicate (2 ^ (d - 1 - 1 - l)) (0 :: 'a)) [0..<n])"
    using Suc.prems by (intro Suc.IH) auto
  have upt: "[0..<Suc n] = 0 # map Suc [0..<n]" by (simp add: upt_conv_Cons map_Suc_upt del: upt_Suc)
  show ?case
    by (simp only: level_slices.simps sl rbind.simps) (simp only: e q ih rbind.simps upt list.map, simp)
qed simp

subsection \<open>The result\<close>

lemma initial_levels:
  assumes "1 \<le> d"
  shows "(if 1 < d then level_slices (replicate (nat (2 ^ d - 2)) 0) 0 (2 ^ (d - 1)) (d - 1) else Inr []) =
    Inr (map (\<lambda>l. replicate (2 ^ (d - 1 - l)) 0) [0..<d - 1])"
proof (cases "1 < d")
  case True
  have "nat (2 ^ d - 2) = 2 ^ d - 2" by (simp add: nat_diff_distrib' nat_power_eq)
  with True show ?thesis using level_slices_zero [of d d "d - 1"] by simp
next
  case False
  with assms show ?thesis by simp
qed

lemma levels_shape_zero: "levels_shape d (map (\<lambda>l. replicate (2 ^ (d - 1 - l)) x) [0..<d - 1])"
  by (simp add: levels_shape_def)

lemma root_step:
  assumes "1 \<le> d" "length leaves = 2 ^ d" "cells_ok kb d leaves nodes (below (d - 1))"
  shows "(if d = 1
     then rbind (index leaves 0) (\<lambda>a. rbind (index leaves 1) (\<lambda>b. Inr (fst (hashLR kb NewMDHasher a b))))
     else rbind (index nodes (int d - 2)) (\<lambda>lastLevel.
          if length lastLevel \<noteq> 2 then Inl (Panic ''broken invariant : len(lastLevel) != 2'')
          else rbind (index lastLevel 0) (\<lambda>a. rbind (index lastLevel 1) (\<lambda>b.
               Inr (fst (hashLR kb NewMDHasher a b)))))) =
    Inr (mnode (hash2 kb) (leaf_fun leaves) d 0)"
proof (cases "d = 1")
  case True
  then show ?thesis using assms(2) by (simp add: index_def hashLR_flushed leaf_fun_def)
next
  case False
  then obtain e where d: "d = Suc (Suc e)" using assms(1) by (metis One_nat_def Suc_le_D le_Suc_eq not_less_eq_eq old.nat.exhaust)
  let ?l = "nodes ! e"
  have "length nodes = Suc e" "length ?l = 2" using assms(3) d by (auto simp: cells_ok_def levels_shape_def)
  moreover have "?l ! 0 = mnode (hash2 kb) (leaf_fun leaves) (Suc e) 0" "?l ! 1 = mnode (hash2 kb) (leaf_fun leaves) (Suc e) 1"
    using assms(3) d unfolding cells_ok_def by auto
  ultimately show ?thesis using d False by (simp add: index_def hashLR_flushed)
qed

lemma NewTree_ok:
  assumes "length leaves = 2 ^ d" "1 \<le> d" "d \<le> 62" "\<And>i. in_order (ord i)"
  shows "\<exists>t. NewTree kb procs ord leaves = Inr t \<and> tree_ok kb t \<and> Depth t = d \<and> leaf_at t = leaf_fun leaves"
proof -
  let ?h = "min 10 (d - 1)"
  let ?z = "map (\<lambda>l. replicate (2 ^ (d - 1 - l)) 0) [0..<d - 1]"
  let ?E = "fst (empty_nodes_loop kb NewMDHasher EmptyLeaf (d - 1))"
  have n: "int (length leaves) = 2 ^ d" "is_int64 (2 ^ d)" "(2::int) ^ d \<noteq> 0"
    using assms(1,3) power_strict_increasing [of d 63 "2::int"] zero_le_power [of "2::int" d]
    unfolding is_int64_def by (simp_all del: zero_le_power)
  have pow: "IsPowerOfTwo (2 ^ d)" using IsPowerOfTwo_iff [OF n(2)] by blast
  have dep: "nat (Log2Ceil (2 ^ d)) = d" by (simp add: Log2Ceil_pow2 assms(3))
  have q: "go_quot (2 ^ d) 2 = 2 ^ (d - 1)" "go_quot (2 ^ d) (2 ^ ?h) = 2 ^ (d - ?h)"
    using assms(2) by (cases d) (simp_all add: power_diff)
  obtain nodes1 where 1: "run_goroutines kb leaves (ord 0)
      (map (\<lambda>r. concat (map (subtree_writes ?h (2 ^ ?h)) (iterations r))) (Execute procs (2 ^ (d - ?h)) [])) ?z =
      Inr nodes1" "cells_ok kb d leaves nodes1 (below ?h)"
    using subtrees_ok [OF assms(1) assms(4) levels_shape_zero, of ?h kb 0 procs] by auto
  obtain nodes2 where 2: "upper_levels kb procs ord leaves ?h (d - 1 - ?h) nodes1 = Inr nodes2"
    "cells_ok kb d leaves nodes2 (below (d - 1))"
    using upper_levels_ok [where ord = ord, OF assms(1,4) 1(2) le_add_diff_inverse [of ?h "d - 1"], of procs] by auto
  let ?t = "\<lparr>Depth = d, Root = mnode (hash2 kb) (leaf_fun leaves) d 0, OccupiedLeaves = leaves,
    OccupiedNodes = nodes2, EmptyNodes = ?E\<rparr>"
  have alloc: "(if 1 < d then level_slices (if 1 < d then replicate (nat (2 ^ d - 2)) 0 else []) 0 (2 ^ (d - 1)) (d - 1)
      else Inr []) = Inr ?z"
    using initial_levels [OF assms(2)] by (cases "1 < d") simp_all
  have "NewTree kb procs ord leaves = Inr ?t"
    using assms(2) unfolding NewTree_def Let_def n(1) dep q split_beta
    by (simp only: pow n(3) de_Morgan_disj not_not simp_thms require_simps rbind.simps q alloc 1(1) 2(1)
        root_step [OF assms(2,1) 2(2)] less_le_trans [OF zero_less_one assms(2)])
  moreover have l: "leaf_at ?t = leaf_fun leaves" by (simp add: leaf_at_def leaf_fun_def fun_eq_iff)
  moreover have "length ?E = d - 1"
    using empty_nodes_loop_correct [of NewMDHasher 0 kb 0 "d - 1"] by (simp add: EmptyLeaf_def del: upt_Suc)
  then have "tree_shape ?t"
    using 2(2) assms(1-3) by (auto simp: tree_shape_def cells_ok_def levels_shape_def)
  moreover have "node_at ?t m j = mnode (hash2 kb) (leaf_fun leaves) m j" if mj: "1 \<le> m" "m < d" "j < 2 ^ (d - m)" for m j
  proof -
    obtain m' where m: "m = Suc m'" using mj(1) by (cases m) auto
    then show ?thesis using 2(2) mj unfolding cells_ok_def levels_shape_def by (auto simp: node_at_def)
  qed
  ultimately show ?thesis by (auto simp: tree_ok_def)
qed

text \<open>The number of leaves must be a power of two, and more than one.\<close>

lemma NewTree_refuses:
  assumes "is_int64 (int (length leaves))" "\<not> (\<exists>d \<ge> 1. length leaves = 2 ^ d)"
  shows "\<exists>m. NewTree kb procs ord leaves = Inl (Panic m)"
proof (cases "IsPowerOfTwo (int (length leaves))")
  case True
  then obtain d where "int (length leaves) = 2 ^ d" using IsPowerOfTwo_iff [OF assms(1)] by blast
  then have d: "length leaves = 2 ^ d" by (metis of_nat_eq_iff of_nat_numeral of_nat_power)
  with assms(2) have "d = 0" by (metis less_one linorder_not_less)
  with d True have "int (length leaves) = 1" by simp
  then show ?thesis using Log2Ceil_pow2 [of 0] True by (simp add: NewTree_def)
next
  case False
  then show ?thesis by (simp add: NewTree_def Let_def)
qed

text \<open>Two trees with the same leaves have the same root, however they were built.\<close>

lemma tree_ok_root_unique:
  "tree_ok kb t \<Longrightarrow> tree_ok kb t' \<Longrightarrow> Depth t = Depth t' \<Longrightarrow> leaf_at t = leaf_at t' \<Longrightarrow> Root t = Root t'"
  by (simp add: tree_ok_def)

fun update_all ::
  "('f::zero) koalabear \<Rightarrow> 'f tree \<Rightarrow> int \<Rightarrow> 'f octuplet list \<Rightarrow> 'f tree result" where
  "update_all kb t i [] = Inr t"
| "update_all kb t i (x # xs) = rbind (Update kb t i x) (\<lambda>t. update_all kb t (i + 1) xs)"

text \<open>The inputs of the trees that the updates go through.\<close>

fun updates_queries ::
  "('f::zero) koalabear \<Rightarrow> nat \<Rightarrow> (nat \<Rightarrow> 'f octuplet) \<Rightarrow> nat \<Rightarrow> 'f octuplet list \<Rightarrow> ('f octuplet \<times> 'f octuplet) set" where
  "updates_queries kb d f i [] = {}"
| "updates_queries kb d f i (x # xs) = tree_queries kb f d \<union> updates_queries kb d (f(i := x)) (Suc i) xs"

lemma update_all_ok:
  "tree_ok kb t \<Longrightarrow> i + length xs \<le> 2 ^ Depth t \<Longrightarrow>
    \<not> zero_digest kb (updates_queries kb (Depth t) (leaf_at t) i xs) \<Longrightarrow>
    \<exists>t'. update_all kb t (int i) xs = Inr t' \<and> tree_ok kb t' \<and> Depth t' = Depth t \<and>
      leaf_at t' = (\<lambda>k. if i \<le> k \<and> k < i + length xs then xs ! (k - i) else leaf_at t k)"
proof (induction xs arbitrary: t i)
  case Nil
  then show ?case by (auto simp: fun_eq_iff)
next
  case (Cons x xs)
  obtain t1 where t1: "Update kb t (int i) x = Inr t1" "tree_ok kb t1" "Depth t1 = Depth t"
    "leaf_at t1 = (leaf_at t)(i := x)"
    using Update_correct [OF Cons.prems(1), of i x] Cons.prems no_zero_sibling [of kb "leaf_at t" "Depth t" i] by auto
  obtain t' where "update_all kb t1 (int (Suc i)) xs = Inr t'" "tree_ok kb t'" "Depth t' = Depth t"
    "leaf_at t' = (\<lambda>k. if Suc i \<le> k \<and> k < Suc i + length xs then xs ! (k - Suc i) else leaf_at t1 k)"
    using Cons.IH [of t1 "Suc i"] t1(2-4) Cons.prems by (auto simp del: fun_upd_apply)
  moreover from this have "leaf_at t' = (\<lambda>k. if i \<le> k \<and> k < i + length (x # xs) then (x # xs) ! (k - i) else leaf_at t k)"
    using t1(4) by (auto simp: fun_eq_iff nth_Cons' not_le)
  ultimately show ?case using t1(1) by (auto simp: add.commute)
qed

end
