(* ===== verification/SmartVecArith.thy ===== *)
theory SmartVecArith
  imports SmartVecOpsCorrect
begin

text \<open>
  Arithmetic on smart vectors, \<open>arithmetic_basic.go\<close> and \<open>polynomial.go\<close> of
  \<open>src/prover/maths/common/smartvectors\<close>: sums and products of vectors, inner products, combinations with the powers
  of a scalar, inversion, zero tests, sums of the elements, and polynomials in coefficient form. Each operation is
  related to the elements its operands denote.
\<close>

subsection \<open>Operations\<close>

definition Sv_Add ::
  "(CircularInterval list \<Rightarrow> CircularInterval list) \<Rightarrow> ('f::comm_ring_1) gnark \<Rightarrow> 'f SmartVector list \<Rightarrow>
   ('f SmartVector option \<times> 'f SmartVector list) result" where
  "Sv_Add srt g vecs = LinComb srt g (replicate (length vecs) 1) vecs"

definition Sv_Mul ::
  "(CircularInterval list \<Rightarrow> CircularInterval list) \<Rightarrow> ('f::comm_ring_1) gnark \<Rightarrow> 'f SmartVector list \<Rightarrow>
   ('f SmartVector option \<times> 'f SmartVector list) result" where
  "Sv_Mul srt g vecs = Product srt g (replicate (length vecs) 1) vecs"

definition Sv_ScalarMul ::
  "(CircularInterval list \<Rightarrow> CircularInterval list) \<Rightarrow> ('f::comm_ring_1) gnark \<Rightarrow> 'f SmartVector \<Rightarrow> 'f \<Rightarrow>
   'f SmartVector option result" where
  "Sv_ScalarMul srt g vec x =
     rbind (NewConstant x (Len vec)) (\<lambda>xVec. rbind (Sv_Mul srt g [vec, SvConstant xVec]) (\<lambda>(r, _). Inr r))"

definition InnerProduct :: "('f::comm_ring_1) SmartVector \<Rightarrow> 'f SmartVector \<Rightarrow> 'f result" where
  "InnerProduct a b =
     (if Len a \<noteq> Len b then Inl (Panic ''length mismatch'')
      else foldM (\<lambda>res i. rbind (Get a i) (\<lambda>x. rbind (Get b i) (\<lambda>y. Inr (res + x * y)))) 0 [0..Len a - 1])"

definition accumulateReg :: "int \<Rightarrow> ('f::comm_ring_1) list \<Rightarrow> 'f list \<Rightarrow> 'f \<Rightarrow> 'f list result" where
  "accumulateReg len acc v x =
     foldM (\<lambda>acc i. rbind (index v i) (\<lambda>y. rbind (index acc i) (\<lambda>a. set_index acc i (a + y * x)))) acc [0..len - 1]"

record 'f combination =
  resReg :: "'f list"
  tmpVec :: "'f list"
  resCon :: 'f
  anyReg :: bool
  anyCon :: bool
  xPow :: 'f

definition LinearCombination_step ::
  "int \<Rightarrow> ('f::comm_ring_1) \<Rightarrow> 'f combination \<Rightarrow> 'f SmartVector \<Rightarrow> 'f combination result" where
  "LinearCombination_step len x st v =
     rbind (case v of SvRotated r \<Rightarrow> rbind (rotatedAsRegular r) (\<lambda>r. Inr (SvRegular r)) | _ \<Rightarrow> Inr v) (\<lambda>v.
     rbind (case v of
         SvConstant c \<Rightarrow> Inr (st\<lparr>anyCon := True, resCon := resCon st + const_value c * xPow st\<rparr>)
       | SvRegular r \<Rightarrow>
           rbind (accumulateReg len (resReg st) r (xPow st)) (\<lambda>acc. Inr (st\<lparr>anyReg := True, resReg := acc\<rparr>))
       | SvWindow p \<Rightarrow>
           rbind (WriteInSlice v (tmpVec st)) (\<lambda>tmp.
           rbind (accumulateReg len (resReg st) tmp (xPow st)) (\<lambda>acc.
           Inr (st\<lparr>anyReg := True, tmpVec := tmp, resReg := acc\<rparr>)))
       | SvRotated r \<Rightarrow> Inl (Panic ''unexpected type''))
       (\<lambda>st. Inr (st\<lparr>xPow := x * xPow st\<rparr>)))"

definition LinearCombination :: "('f::comm_ring_1) SmartVector list \<Rightarrow> 'f \<Rightarrow> 'f SmartVector result" where
  "LinearCombination vecs x =
     (if vecs = [] then Inl (Panic ''no input vectors'')
      else rbind (index vecs 0) (\<lambda>v0.
        let len = Len v0 in
        if list_all is_const vecs
        then rbind (NewConstant (Poly_Eval (map (\<lambda>v. case v of SvConstant c \<Rightarrow> const_value c | _ \<Rightarrow> 0) vecs) x) len)
               (\<lambda>r. Inr (SvConstant r))
        else rbind (make_vec len) (\<lambda>reg. rbind (make_vec len) (\<lambda>tmp.
          rbind (foldM (LinearCombination_step len x)
                   \<lparr>resReg = reg, tmpVec = tmp, resCon = 0, anyReg = False, anyCon = False, xPow = 1\<rparr> vecs) (\<lambda>st.
          if anyCon st \<and> anyReg st then NewRegular (map (\<lambda>a. a + resCon st) (resReg st))
          else if anyCon st \<and> \<not> anyReg st then rbind (NewConstant (resCon st) len) (\<lambda>r. Inr (SvConstant r))
          else if \<not> anyCon st \<and> anyReg st then NewRegular (resReg st)
          else Inl (Panic ''unreachable''))))))"

fun BatchInvert :: "'f gnark \<Rightarrow> 'f SmartVector \<Rightarrow> 'f SmartVector result" where
  "BatchInvert g (SvConstant c) =
     Inr (SvConstant \<lparr>const_value = elem_Inverse g (const_value c), const_length = const_length c\<rparr>)"
| "BatchInvert g (SvWindow p) =
     Inr (SvWindow \<lparr>pcw_window = elem_BatchInvert g (pcw_window p), pcw_padding = elem_Inverse g (pcw_padding p),
                    pcw_totlen = pcw_totlen p, pcw_offset = pcw_offset p\<rparr>)"
| "BatchInvert g (SvRotated r) =
     rbind (NewRotated (elem_BatchInvert g (rot_v r)) (rot_offset r)) (\<lambda>r. Inr (SvRotated r))"
| "BatchInvert g (SvRegular r) = NewRegular (elem_BatchInvert g r)"

definition zero_flag :: "('f::comm_ring_1) \<Rightarrow> 'f" where
  "zero_flag x = (if x = 0 then 1 else 0)"

fun IsZero :: "('f::comm_ring_1) SmartVector \<Rightarrow> 'f SmartVector result" where
  "IsZero (SvConstant c) = Inr (SvConstant \<lparr>const_value = zero_flag (const_value c), const_length = const_length c\<rparr>)"
| "IsZero (SvWindow p) =
     Inr (SvWindow \<lparr>pcw_window = map zero_flag (pcw_window p), pcw_padding = zero_flag (pcw_padding p),
                    pcw_totlen = pcw_totlen p, pcw_offset = pcw_offset p\<rparr>)"
| "IsZero (SvRotated r) = rbind (NewRotated (map zero_flag (rot_v r)) (rot_offset r)) (\<lambda>r. Inr (SvRotated r))"
| "IsZero (SvRegular r) = NewRegular (map zero_flag r)"

text \<open>\<open>field.NewElement(uint64(n))\<close>.\<close>

definition NewElement :: "int \<Rightarrow> 'f::comm_ring_1" where
  "NewElement n = of_int (n mod 2 ^ 64)"

fun Sv_Sum :: "('f::comm_ring_1) SmartVector \<Rightarrow> 'f" where
  "Sv_Sum (SvRegular r) = foldl (+) 0 r"
| "Sv_Sum (SvWindow p) =
     foldl (+) 0 (pcw_window p) + NewElement (pcw_totlen p - llen (pcw_window p)) * pcw_padding p"
| "Sv_Sum (SvConstant c) = NewElement (const_length c) * const_value c"
| "Sv_Sum (SvRotated r) = foldl (+) 0 (rot_v r)"

subsubsection \<open>Polynomials in coefficient form\<close>

definition PolyAdd :: "('f::comm_ring_1) SmartVector \<Rightarrow> 'f SmartVector \<Rightarrow> 'f SmartVector result" where
  "PolyAdd a b =
     (let (small, large) = (if Len a > Len b then (b, a) else (a, b)) in
      rbind (make_vec (Len large)) (\<lambda>res.
      rbind (WriteInSlice large res) (\<lambda>res.
      rbind (foldM (\<lambda>res i. rbind (Get small i) (\<lambda>x. rbind (index res i) (\<lambda>r. set_index res i (r + x)))) res [0..Len small - 1])
        NewRegular)))"

definition PolySub :: "('f::comm_ring_1) SmartVector \<Rightarrow> 'f SmartVector \<Rightarrow> 'f SmartVector result" where
  "PolySub a b =
     (let maxLen = max (Len a) (Len b) in
      rbind (make_vec maxLen) (\<lambda>res.
      rbind (on_slice res 0 (Len a) (WriteInSlice a)) (\<lambda>res.
      rbind (foldM (\<lambda>res i. rbind (Get b i) (\<lambda>x. rbind (index res i) (\<lambda>r. set_index res i (r - x)))) res [0..Len b - 1])
        NewRegular)))"

definition EvalCoeff :: "('f::comm_ring_1) SmartVector \<Rightarrow> 'f \<Rightarrow> 'f result" where
  "EvalCoeff v x = rbind (make_vec (Len v)) (\<lambda>res. rbind (WriteInSlice v res) (\<lambda>res. Inr (Poly_Eval res x)))"

function fold_blocks :: "('f::comm_ring_1) list \<Rightarrow> int \<Rightarrow> 'f \<Rightarrow> int \<Rightarrow> 'f list \<Rightarrow> 'f list result" where
  "fold_blocks coeffs numCoeffX x i foldOnX =
     (if i < llen coeffs \<and> 0 < numCoeffX
      then rbind (go_slice coeffs i (i + numCoeffX)) (\<lambda>s.
           rbind (set_index foldOnX (go_quot i numCoeffX) (Poly_Eval s x)) (\<lambda>foldOnX.
           fold_blocks coeffs numCoeffX x (i + numCoeffX) foldOnX))
      else Inr foldOnX)"
  by pat_completeness auto
termination by (relation "measure (\<lambda>(coeffs, n, x, i, f). nat (llen coeffs - i))") auto

declare fold_blocks.simps [simp del]

text \<open>The remainder by zero panics; a negative number of coefficients makes \<open>make\<close> panic.\<close>

definition EvalCoeffBivariate :: "('f::comm_ring_1) SmartVector \<Rightarrow> 'f \<Rightarrow> int \<Rightarrow> 'f \<Rightarrow> 'f result" where
  "EvalCoeffBivariate v x numCoeffX y =
     (if numCoeffX = 0 then Inl (Panic ''integer divide by zero'')
      else if go_rem (Len v) numCoeffX \<noteq> 0 then Inl (Panic ''size of v and nb coeff x are inconsistent'')
      else rbind (make_vec (Len v)) (\<lambda>coeffs.
        rbind (WriteInSlice v coeffs) (\<lambda>coeffs.
        rbind (make_vec (go_quot (llen coeffs) numCoeffX)) (\<lambda>foldOnX.
        rbind (fold_blocks coeffs numCoeffX x 0 foldOnX) (\<lambda>foldOnX. Inr (Poly_Eval foldOnX y))))))"

subsection \<open>Sums and products\<close>

lemma coeff_one: "pow_int g x 1 = x"
  by (simp add: pow_int_def)

lemma zip_ones: "zip vecs (replicate (length vecs) c) = map (\<lambda>v. (v, c)) vecs"
  by (induction vecs) auto

lemma Sv_Add_ok:
  assumes "gnark_ok g" "sorts srt" "vecs \<noteq> []" "\<forall>v\<in>set vecs. sv_ok v \<and> Len v = n"
  shows "\<exists>res vecs'. Sv_Add srt g vecs = Inr (Some res, vecs') \<and>
    denotes res n (\<lambda>i. \<Sum>v\<leftarrow>vecs. value_at v i) \<and> list_all2 (same_vec n) vecs vecs'"
proof -
  have "\<forall>c\<in>set (replicate (length vecs) 1). is_int64 c" by (simp add: is_int64_def)
  from LinComb_ok [OF assms(1,2) _ assms(3,4) this] show ?thesis by (simp add: Sv_Add_def zip_ones comp_def)
qed

lemma Sv_Mul_ok:
  assumes "gnark_ok g" "sorts srt" "vecs \<noteq> []" "\<forall>v\<in>set vecs. sv_ok v \<and> Len v = n"
  shows "\<exists>res vecs'. Sv_Mul srt g vecs = Inr (Some res, vecs') \<and>
    denotes res n (\<lambda>i. \<Prod>v\<leftarrow>vecs. value_at v i) \<and> list_all2 (same_vec n) vecs vecs'"
proof -
  have "\<forall>c\<in>set (replicate (length vecs) 1). is_int64 c" by (simp add: is_int64_def)
  from Product_ok [OF assms(1,2) _ assms(3,4) this] show ?thesis by (simp add: Sv_Mul_def zip_ones comp_def coeff_one)
qed

lemma Sv_ScalarMul_ok:
  assumes "gnark_ok g" "sorts srt" "sv_ok v"
  shows "\<exists>res. Sv_ScalarMul srt g v x = Inr (Some res) \<and> denotes res (Len v) (\<lambda>i. value_at v i * x)"
proof -
  let ?c = "SvConstant \<lparr>const_value = x, const_length = Len v\<rparr>"
  have ok: "\<forall>w\<in>set [v, ?c]. sv_ok w \<and> Len w = Len v" using assms(3) Len_pos [OF assms(3)] by simp
  obtain res vs where r: "Sv_Mul srt g [v, ?c] = Inr (Some res, vs)"
    "denotes res (Len v) (\<lambda>i. \<Prod>w\<leftarrow>[v, ?c]. value_at w i)" using Sv_Mul_ok [OF assms(1,2) _ ok] by auto
  have "NewConstant x (Len v) = Inr \<lparr>const_value = x, const_length = Len v\<rparr>"
    using Len_pos [OF assms(3)] by (simp add: NewConstant_ok)
  then show ?thesis using r by (simp add: Sv_ScalarMul_def)
qed

lemma InnerProduct_ok:
  assumes "sv_ok a" "sv_ok b" "Len a = Len b"
  shows "InnerProduct a b = Inr (\<Sum>i<nat (Len a). elems a ! i * elems b ! i)"
proof -
  let ?f = "\<lambda>res i. rbind (Get a i) (\<lambda>x. rbind (Get b i) (\<lambda>y. Inr (res + x * y)))"
  have "\<exists>s. foldM ?f 0 [0..Len a - 1] = Inr s \<and> s = (\<Sum>i<nat (Len a). elems a ! i * elems b ! i)"
    by (rule for_range) (use assms Len_pos [OF assms(1)] in \<open>auto simp: Get_ok\<close>)
  then show ?thesis using assms(3) by (simp add: InnerProduct_def)
qed

subsection \<open>Combinations with the powers of a scalar\<close>

lemma accumulateReg_ok:
  assumes "length acc = nat n" "length v = nat n" "0 \<le> n"
  shows "accumulateReg n acc v x = Inr (map2 (\<lambda>a y. a + y * x) acc v)"
proof -
  let ?f = "\<lambda>acc i. rbind (index v i) (\<lambda>y. rbind (index acc i) (\<lambda>a. set_index acc i (a + y * x)))"
  let ?P = "\<lambda>k s. length s = nat n \<and> (\<forall>j<nat n. s ! j = (if j < k then acc ! j + v ! j * x else acc ! j))"
  have "\<exists>s. foldM ?f acc [0..n - 1] = Inr s \<and> ?P (nat n) s"
    by (rule for_range) (use assms in \<open>auto simp: index_nat set_index_in nth_list_update\<close>)
  then obtain s where "foldM ?f acc [0..n - 1] = Inr s" "?P (nat n) s" by blast
  moreover from this(2) have "s = map2 (\<lambda>a y. a + y * x) acc v"
    by (intro nth_equalityI) (use assms in auto)
  ultimately show ?thesis by (simp add: accumulateReg_def)
qed

definition combination_ok :: "int \<Rightarrow> ('f::comm_ring_1) \<Rightarrow> 'f SmartVector list \<Rightarrow> 'f combination \<Rightarrow> bool" where
  "combination_ok n x vs st \<longleftrightarrow>
     length (resReg st) = nat n \<and> length (tmpVec st) = nat n \<and> xPow st = x ^ length vs \<and>
     (\<forall>i<nat n. resReg st ! i + resCon st = Poly_Eval (map (\<lambda>v. value_at v (int i)) vs) x) \<and>
     (anyCon st \<longleftrightarrow> (\<exists>v\<in>set vs. is_const v)) \<and> (anyReg st \<longleftrightarrow> (\<exists>v\<in>set vs. \<not> is_const v)) \<and>
     (\<not> anyCon st \<longrightarrow> resCon st = 0)"

lemma accumulate_combination:
  assumes "combination_ok n x vs st" "sv_ok v" "Len v = n" "\<not> is_const v" "length tmp = nat n"
  shows "combination_ok n x (vs @ [v]) (st\<lparr>anyReg := True, tmpVec := tmp,
    resReg := map2 (\<lambda>a y. a + y * xPow st) (resReg st) (elems v), xPow := x * xPow st\<rparr>)"
  using assms by (auto simp: combination_ok_def Poly_Eval_append algebra_simps)

lemma LinearCombination_step_ok:
  assumes "combination_ok n x vs st" "sv_ok v" "Len v = n"
  shows "\<exists>st'. LinearCombination_step n x st v = Inr st' \<and> combination_ok n x (vs @ [v]) st'"
proof -
  have n: "0 \<le> n" using Len_pos [OF assms(2)] assms(3) by simp
  have acc: "accumulateReg n (resReg st) (elems v) (xPow st) = Inr (map2 (\<lambda>a y. a + y * xPow st) (resReg st) (elems v))"
    by (rule accumulateReg_ok) (use assms n in \<open>simp_all add: combination_ok_def\<close>)
  note reg = accumulate_combination [OF assms]
  have tmp: "length (tmpVec st) = nat n" using assms(1) by (simp add: combination_ok_def)
  have same: "st\<lparr>anyReg := True, tmpVec := tmpVec st, resReg := a, xPow := b\<rparr> = st\<lparr>anyReg := True, resReg := a, xPow := b\<rparr>" for a b
    by (cases st) simp
  show ?thesis
  proof (cases v)
    case (SvConstant c)
    then show ?thesis
      using assms by (auto simp: LinearCombination_step_def combination_ok_def Poly_Eval_append algebra_simps)
  next
    case (SvRegular r)
    then show ?thesis using acc reg [OF _ tmp] by (simp add: LinearCombination_step_def same)
  next
    case (SvWindow p)
    have "WriteInSlice v (tmpVec st) = Inr (elems v)"
      by (rule WriteInSlice_ok) (use assms n in \<open>auto simp: combination_ok_def\<close>)
    then show ?thesis using SvWindow acc reg [of "elems v"] assms(3) by (simp add: LinearCombination_step_def del: sv_ok.simps)
  next
    case (SvRotated r)
    then show ?thesis using acc reg [OF _ tmp] assms(2) by (simp add: LinearCombination_step_def rotatedAsRegular_ok same)
  qed
qed

lemma combination_loop:
  assumes "combination_ok n x us st" "\<forall>v\<in>set vs. sv_ok v \<and> Len v = n"
  shows "\<exists>st'. foldM (LinearCombination_step n x) st vs = Inr st' \<and> combination_ok n x (us @ vs) st'"
  using assms
proof (induction vs arbitrary: us st)
  case (Cons v vs)
  then obtain s where s: "LinearCombination_step n x st v = Inr s" "combination_ok n x (us @ [v]) s"
    using LinearCombination_step_ok [of n x us st v] by auto
  with Cons.IH [OF s(2)] Cons.prems show ?case by simp
qed simp

lemma LinearCombination_ok:
  assumes "vecs \<noteq> []" "\<forall>v\<in>set vecs. sv_ok v \<and> Len v = n"
  shows "\<exists>res. LinearCombination vecs x = Inr res \<and> denotes res n (\<lambda>i. Poly_Eval (map (\<lambda>v. value_at v i) vecs) x)"
proof -
  have idx: "index vecs 0 = Inr (vecs ! 0)" "Len (vecs ! 0) = n" using assms by (simp_all add: index_in)
  have n: "0 < n" "n < 2 ^ 62" using assms Len_pos [of "vecs ! 0"] by auto
  show ?thesis
  proof (cases "list_all is_const vecs")
    case True
    have val: "(case v of SvConstant c \<Rightarrow> const_value c | _ \<Rightarrow> 0) = value_at v i" if "v \<in> set vecs" for v i
      using True that by (cases v) (auto simp: list_all_iff)
    let ?c = "\<lparr>const_value = Poly_Eval (map (\<lambda>v. case v of SvConstant c \<Rightarrow> const_value c | _ \<Rightarrow> 0) vecs) x, const_length = n\<rparr>"
    have vals: "map (\<lambda>v. value_at v i) vecs = map (\<lambda>v. case v of SvConstant c \<Rightarrow> const_value c | _ \<Rightarrow> 0) vecs" for i
      by (rule map_cong [OF refl]) (rule val [symmetric])
    have "denotes (SvConstant ?c) n (\<lambda>i. Poly_Eval (map (\<lambda>v. value_at v i) vecs) x)"
      by (rule denotes_Constant [OF n]) (simp only: vals)
    then show ?thesis using True assms(1) idx n by (simp add: LinearCombination_def NewConstant_ok)
  next
    case False
    let ?s = "\<lparr>resReg = replicate (nat n) 0, tmpVec = replicate (nat n) 0, resCon = 0, anyReg = False, anyCon = False, xPow = 1\<rparr>"
    have "combination_ok n x [] ?s" by (simp add: combination_ok_def)
    from combination_loop [OF this assms(2)] obtain st where
      st: "foldM (LinearCombination_step n x) ?s vecs = Inr st" "combination_ok n x vecs st" by auto
    have reg: "anyReg st" "length (resReg st) = nat n" "resReg st \<noteq> []"
      using False st(2) n by (auto simp: combination_ok_def list_all_iff)
    have val: "resReg st ! nat i + resCon st = Poly_Eval (map (\<lambda>v. value_at v i) vecs) x" if "0 \<le> i" "i < n" for i
      using st(2) that unfolding combination_ok_def by (metis nat_0_le zless_nat_conj n(1) nat_less_iff)
    have "denotes (SvRegular (if anyCon st then map (\<lambda>a. a + resCon st) (resReg st) else resReg st)) n
        (\<lambda>i. Poly_Eval (map (\<lambda>v. value_at v i) vecs) x)"
    proof (rule denotes_Regular)
      fix i assume i: "0 \<le> i" "i < n"
      then have "nat i < length (resReg st)" using reg(2) by simp
      moreover have "\<not> anyCon st \<Longrightarrow> resCon st = 0" using st(2) by (simp add: combination_ok_def)
      ultimately show "(if anyCon st then map (\<lambda>a. a + resCon st) (resReg st) else resReg st) ! nat i =
          Poly_Eval (map (\<lambda>v. value_at v i) vecs) x" using val [OF i] by auto
    qed (use n reg in auto)
    then show ?thesis using False assms(1) idx n st(1) reg by (cases "anyCon st") (simp_all add: LinearCombination_def)
  qed
qed

subsection \<open>Inverses, zero tests and sums\<close>

lemma nonneg_mod_index: "0 < n \<Longrightarrow> nat (k mod n) < nat n" for k n :: int
  by simp

text \<open>A function applied to every stored element is applied to every denoted one.\<close>

definition map_sv :: "('a \<Rightarrow> 'a) \<Rightarrow> 'a SmartVector \<Rightarrow> 'a SmartVector" where
  "map_sv f v = (case v of
      SvConstant c \<Rightarrow> SvConstant \<lparr>const_value = f (const_value c), const_length = const_length c\<rparr>
    | SvRegular r \<Rightarrow> SvRegular (map f r)
    | SvWindow p \<Rightarrow> SvWindow \<lparr>pcw_window = map f (pcw_window p), pcw_padding = f (pcw_padding p),
        pcw_totlen = pcw_totlen p, pcw_offset = pcw_offset p\<rparr>
    | SvRotated r \<Rightarrow> SvRotated \<lparr>rot_v = map f (rot_v r), rot_offset = rot_offset r\<rparr>)"

lemma map_sv_denotes:
  assumes "sv_ok v"
  shows "denotes (map_sv f v) (Len v) (\<lambda>i. f (value_at v i))"
proof (cases v)
  case (SvWindow p)
  have "nat q < length (pcw_window p)" if "q < llen (pcw_window p)" "q = (i - pcw_offset p) mod pcw_totlen p" for q i
    using that assms SvWindow by (auto simp: nat_less_iff)
  then show ?thesis using assms SvWindow by (auto simp: map_sv_def denotes_def Let_def)
next
  case (SvRotated r)
  then show ?thesis
    using assms nonneg_mod_index [of "llen (rot_v r)"] by (auto simp: map_sv_def denotes_def)
qed (use assms in \<open>auto simp: map_sv_def denotes_def\<close>)

lemma NewRotated_map:
  assumes "sv_ok (SvRotated r)" "\<bar>rot_offset r\<bar> \<le> llen (rot_v r)"
  shows "NewRotated (map f (rot_v r)) (rot_offset r) = Inr \<lparr>rot_v = map f (rot_v r), rot_offset = rot_offset r\<rparr>"
proof -
  have "wrap64 (- rot_offset r) = - rot_offset r"
    using assms(1) by (intro wrap64_id) (auto simp: is_int64_def)
  then show ?thesis using assms by (auto simp: NewRotated_def)
qed

lemma BatchInvert_ok:
  assumes "gnark_ok g" "sv_ok v" "\<And>r. v = SvRotated r \<Longrightarrow> \<bar>rot_offset r\<bar> \<le> llen (rot_v r)"
  shows "BatchInvert g v = Inr (map_sv (elem_Inverse g) v)"
  using assms by (cases v) (auto simp: map_sv_def gnark_ok_def NewRotated_map)

lemma IsZero_ok:
  assumes "sv_ok v" "\<And>r. v = SvRotated r \<Longrightarrow> \<bar>rot_offset r\<bar> \<le> llen (rot_v r)"
  shows "IsZero v = Inr (map_sv zero_flag v)"
  using assms by (cases v) (auto simp: map_sv_def NewRotated_map)

lemma foldl_sum: "foldl (+) s xs = s + sum_list xs" for s :: "'f::comm_ring_1"
  by (induction xs arbitrary: s) (simp_all add: add.assoc)

lemma sum_list_nth: "sum_list xs = (\<Sum>i<length xs. xs ! i)"
  by (simp add: sum_list_sum_nth atLeast0LessThan)

lemma sum_shift:
  fixes n k :: int
  assumes "0 < n"
  shows "(\<Sum>i\<in>{0..<n}. f ((i + k) mod n)) = (\<Sum>i\<in>{0..<n}. f i)"
proof (rule sum.reindex_bij_witness [where j = "\<lambda>i. (i + k) mod n" and i = "\<lambda>i. (i - k) mod n"])
  show "((i + k) mod n - k) mod n = i" "((i - k) mod n + k) mod n = i" if "i \<in> {0..<n}" for i
    using that by (simp_all add: mod_simps)
qed (use assms in auto)

lemma sum_list_int: "sum_list xs = (\<Sum>i\<in>{0..<llen xs}. xs ! nat i)"
  unfolding sum_list_nth
  by (rule sum.reindex_bij_witness [where i = nat and j = int]) auto

lemma NewElement_small: "0 \<le> n \<Longrightarrow> n < 2 ^ 62 \<Longrightarrow> NewElement n = of_int n"
  by (simp add: NewElement_def)

lemma Sv_Sum_ok:
  assumes "sv_ok v"
  shows "Sv_Sum v = sum_list (elems v)"
proof -
  let ?n = "Len v"
  have n: "0 < ?n" "?n < 2 ^ 62" using Len_pos [OF assms] by simp_all
  have "sum_list (elems v) = (\<Sum>i\<in>{0..<?n}. value_at v i)"
    unfolding sum_list_int by (rule sum.cong) (use n in auto)
  moreover have "Sv_Sum v = (\<Sum>i\<in>{0..<?n}. value_at v i)"
  proof (cases v)
    case (SvWindow p)
    let ?w = "pcw_window p"
    let ?f = "\<lambda>q. if q < llen ?w then ?w ! nat q else pcw_padding p"
    have l: "llen ?w < ?n" using assms SvWindow by simp
    have "(\<Sum>i\<in>{0..<?n}. value_at v i) = (\<Sum>i\<in>{0..<?n}. ?f ((i + (- pcw_offset p)) mod ?n))"
      by (rule sum.cong) (simp_all add: SvWindow Let_def)
    also have "\<dots> = (\<Sum>i\<in>{0..<?n}. ?f i)" by (rule sum_shift [OF n(1)])
    also have "\<dots> = (\<Sum>i\<in>{0..<llen ?w}. ?f i) + (\<Sum>i\<in>{llen ?w..<?n}. ?f i)"
      by (subst sum.union_disjoint [symmetric]) (use l in \<open>auto intro!: sum.cong\<close>)
    also have "\<dots> = sum_list ?w + of_int (?n - llen ?w) * pcw_padding p"
      using l by (simp add: sum_list_int)
    finally show ?thesis using SvWindow l n by (simp add: foldl_sum NewElement_small)
  next
    case (SvRotated r)
    then show ?thesis using n sum_shift [of ?n "\<lambda>i. rot_v r ! nat i" "rot_offset r"]
      by (simp add: foldl_sum sum_list_int)
  qed (use n in \<open>simp_all add: foldl_sum sum_list_int NewElement_small\<close>)
  ultimately show ?thesis by simp
qed

subsection \<open>Polynomials in coefficient form\<close>

lemma elems_small_len: "sv_ok v \<Longrightarrow> length (elems v) = nat (Len v) \<and> elems v \<noteq> []"
  using Len_pos [of v] by (metis length_elems length_greater_0_conv zero_less_nat_eq)

text \<open>The loop that combines the elements of \<open>v\<close> into the front of a slice.\<close>

lemma merge_coeffs:
  fixes c :: "'f::comm_ring_1"
  assumes "sv_ok v" "nat (Len v) \<le> length r" "\<And>a y. f a y = a + c * y"
  shows "\<exists>r'. foldM (\<lambda>res i. rbind (Get v i) (\<lambda>y. rbind (index res i) (\<lambda>a. set_index res i (f a y)))) r [0..Len v - 1] = Inr r' \<and>
    length r' = length r \<and> (\<forall>x. Poly_Eval r' x = Poly_Eval r x + c * Poly_Eval (take (nat (Len v)) (elems v)) x)"
  by (rule for_range [where P = "\<lambda>i r'. length r' = length r \<and> (\<forall>x. Poly_Eval r' x = Poly_Eval r x + c * Poly_Eval (take i (elems v)) x)"])
    (use assms Len_pos [OF assms(1)] in \<open>auto simp: Get_ok index_nat set_index_in Poly_Eval_update take_Suc_conv_app_nth
       Poly_Eval_append algebra_simps\<close>)

lemma PolyAdd_ok:
  assumes "sv_ok a" "sv_ok b"
  shows "\<exists>r. PolyAdd a b = Inr (SvRegular r) \<and> llen r = max (Len a) (Len b) \<and>
    (\<forall>x. Poly_Eval r x = Poly_Eval (elems a) x + Poly_Eval (elems b) x)"
proof -
  have *: "\<exists>r. rbind (make_vec (Len l)) (\<lambda>res. rbind (WriteInSlice l res) (\<lambda>res.
      rbind (foldM (\<lambda>res i. rbind (Get s i) (\<lambda>x. rbind (index res i) (\<lambda>r. set_index res i (r + x)))) res [0..Len s - 1]) NewRegular)) =
        Inr (SvRegular r) \<and> llen r = Len l \<and> (\<forall>x. Poly_Eval r x = Poly_Eval (elems l) x + Poly_Eval (elems s) x)"
    if "sv_ok l" "sv_ok s" "Len s \<le> Len l" for l s :: "'a SmartVector"
  proof -
    note sl = that
    have l: "0 < Len l" using Len_pos [OF that(1)] by simp
    have le: "nat (Len s) \<le> length (elems l)" using that by simp
    have w: "WriteInSlice l (replicate (nat (Len l)) 0) = Inr (elems l)" by (rule WriteInSlice_ok) (use that l in auto)
    obtain r where r: "foldM (\<lambda>res i. rbind (Get s i) (\<lambda>x. rbind (index res i) (\<lambda>r. set_index res i (r + x)))) (elems l) [0..Len s - 1] = Inr r"
      "length r = length (elems l)" "\<forall>x. Poly_Eval r x = Poly_Eval (elems l) x + 1 * Poly_Eval (take (nat (Len s)) (elems s)) x"
      using merge_coeffs [OF sl(2), of "elems l" "(+)" 1] le by auto
    then have "r \<noteq> []" "llen r = Len l" using l by auto
    then show ?thesis using w r l by simp
  qed
  show ?thesis
    using * [OF assms] * [OF assms(2,1)] by (cases "Len a > Len b") (auto simp: PolyAdd_def max_def add.commute)
qed

lemma PolySub_ok:
  assumes "sv_ok a" "sv_ok b"
  shows "\<exists>r. PolySub a b = Inr (SvRegular r) \<and> llen r = max (Len a) (Len b) \<and>
    (\<forall>x. Poly_Eval r x = Poly_Eval (elems a) x - Poly_Eval (elems b) x)"
proof -
  let ?m = "max (Len a) (Len b)"
  have m: "0 < Len a" "0 < ?m" "nat (Len a) \<le> nat ?m" "nat (Len b) \<le> nat ?m" using Len_pos [OF assms(1)] by auto
  have w: "WriteInSlice a (replicate (nat (Len a)) 0) = Inr (elems a)" by (rule WriteInSlice_ok) (use assms m in auto)
  let ?z = "elems a @ replicate (nat ?m - nat (Len a)) 0"
  have z: "on_slice (replicate (nat ?m) 0) 0 (Len a) (WriteInSlice a) = Inr ?z"
    using w m by (simp add: on_slice_def slice_in)
  obtain r where r: "foldM (\<lambda>res i. rbind (Get b i) (\<lambda>x. rbind (index res i) (\<lambda>r. set_index res i (r - x)))) ?z [0..Len b - 1] = Inr r"
    "length r = length ?z" "\<forall>x. Poly_Eval r x = Poly_Eval ?z x + (- 1) * Poly_Eval (take (nat (Len b)) (elems b)) x"
    using merge_coeffs [OF assms(2), of ?z "(-)" "- 1"] m by auto
  have "llen r = ?m" using r(2) m by simp
  moreover from this have "r \<noteq> []" using m by auto
  moreover have "\<forall>x. Poly_Eval r x = Poly_Eval (elems a) x - Poly_Eval (elems b) x"
    using r(3) by (simp add: Poly_Eval_append)
  ultimately show ?thesis using z r(1) m by (simp add: PolySub_def)
qed

lemma EvalCoeff_ok: "sv_ok v \<Longrightarrow> EvalCoeff v x = Inr (Poly_Eval (elems v) x)"
  using Len_pos [of v] by (simp add: EvalCoeff_def WriteInSlice_ok)

lemma go_quot_mult: "0 < k \<Longrightarrow> go_quot (int (j * k)) (int k) = int j \<and> go_rem (int (j * k)) (int k) = 0"
  by (cases "j = 0") (simp_all add: go_quot_def go_rem_def sgn_mult)

lemma fold_blocks_ok:
  assumes "0 < k" "length c = m * k" "length f = m" "j \<le> m"
  shows "fold_blocks c (int k) x (int (j * k)) f =
    Inr (take j f @ map (\<lambda>l. Poly_Eval (take k (drop (l * k) c)) x) [j..<m])"
  using assms(3,4)
proof (induction "m - j" arbitrary: j f)
  case 0
  then show ?case using assms by (simp add: fold_blocks.simps)
next
  case (Suc d)
  let ?b = "Poly_Eval (take k (drop (j * k) c)) x"
  have j: "j < m" using Suc.hyps(2) by simp
  then have jk: "j * k + k \<le> m * k" using mult_le_mono1 [of "Suc j" m k] by simp
  have "int (j * k) < llen c" using jk assms(1,2) by linarith
  moreover have "int (j * k) + int k = int (Suc j * k)" by simp
  moreover have "go_quot (int (j * k)) (int k) = int j" using go_quot_mult [OF assms(1)] by blast
  moreover have "set_index f (int j) ?b = Inr (f[j := ?b])" using j Suc.prems by (simp add: set_index_in)
  moreover have "go_slice c (int (j * k)) (int (j * k) + int k) = Inr (take k (drop (j * k) c))"
  proof -
    have "int (j * k) + int k \<le> llen c" using jk assms(2) by linarith
    then show ?thesis by (subst slice_in) (simp_all only: of_nat_0_le_iff nat_int add_diff_cancel_left' le_add_same_cancel1)
  qed
  moreover have "0 < int k" using assms(1) by simp
  ultimately have "fold_blocks c (int k) x (int (j * k)) f = fold_blocks c (int k) x (int (Suc j * k)) (f[j := ?b])"
    by (simp only: fold_blocks.simps [of c "int k" x "int (j * k)"] rbind.simps if_True simp_thms)
  also have "\<dots> = Inr (take (Suc j) (f[j := ?b]) @ map (\<lambda>l. Poly_Eval (take k (drop (l * k) c)) x) [Suc j..<m])"
    by (rule Suc.hyps(1)) (use Suc.hyps(2) Suc.prems j in auto)
  also have "take (Suc j) (f[j := ?b]) = take j f @ [?b]" using j Suc.prems by (simp add: take_Suc_conv_app_nth)
  finally show ?case using j by (simp add: upt_conv_Cons)
qed

lemma EvalCoeffBivariate_ok:
  assumes "sv_ok v" "0 < k" "Len v = int (m * k)"
  shows "EvalCoeffBivariate v x (int k) y = Inr (\<Sum>j<m. \<Sum>i<k. elems v ! (j * k + i) * x ^ i * y ^ j)"
proof -
  have l: "length (elems v) = m * k" unfolding length_elems assms(3) by (rule nat_int)
  have w: "WriteInSlice v (replicate (nat (Len v)) 0) = Inr (elems v)"
    using Len_pos [OF assms(1)] by (intro WriteInSlice_ok assms(1)) simp
  have "go_rem (Len v) (int k) = 0" "go_quot (llen (elems v)) (int k) = int m"
    unfolding l assms(3) using go_quot_mult [OF assms(2)] by blast+
  moreover have "fold_blocks (elems v) (int k) x 0 (replicate m 0) =
      Inr (map (\<lambda>l. Poly_Eval (take k (drop (l * k) (elems v))) x) [0..<m])"
    using fold_blocks_ok [OF assms(2) l, of "replicate m 0" 0 x] by simp
  moreover have "Poly_Eval (map (\<lambda>l. Poly_Eval (take k (drop (l * k) (elems v))) x) [0..<m]) y =
      (\<Sum>j<m. \<Sum>i<k. elems v ! (j * k + i) * x ^ i * y ^ j)"
  proof -
    have "Poly_Eval (take k (drop (j * k) (elems v))) x = (\<Sum>i<k. elems v ! (j * k + i) * x ^ i)" if "j < m" for j
    proof -
      have "j * k + k \<le> m * k" using that mult_le_mono1 [of "Suc j" m k] by simp
      then have le: "j * k + k \<le> length (elems v)" using l by simp
      then have "drop (j * k) (elems v) ! i = elems v ! (j * k + i)" for i by (intro nth_drop) simp
      then show ?thesis using le by (simp add: Poly_Eval_sum del: nth_elems length_elems)
    qed
    then show ?thesis by (simp add: Poly_Eval_sum sum_distrib_right)
  qed
  ultimately show ?thesis using w assms Len_pos [OF assms(1)] by (simp add: EvalCoeffBivariate_def)
qed

end
