(* ===== verification/SmartVecConv.thy ===== *)
theory SmartVecConv
  imports SmartVecArith
begin

text \<open>
  Conversions between the representations of a smart vector, the second half of
  \<open>src/prover/maths/common/smartvectors/smartvectors.go\<close>: padding, the search for a smaller representation, and the compact
  form, in which the padding of a vector is written once. A \<open>nil\<close> vector is \<open>None\<close>.
\<close>

subsection \<open>Operations\<close>

definition AllocateRegular :: "int \<Rightarrow> ('f::zero) SmartVector result" where
  "AllocateRegular n = rbind (make_vec n) NewRegular"

definition Sv_Copy :: "'f SmartVector \<Rightarrow> 'f SmartVector \<Rightarrow> 'f SmartVector result" where
  "Sv_Copy into x = DeepCopy x"

definition LeftPadded :: "'f list \<Rightarrow> 'f \<Rightarrow> int \<Rightarrow> 'f SmartVector result" where
  "LeftPadded v padding targetLen =
     (if llen v > targetLen then Inl (Panic ''unpadded vector must be smaller than the target length'')
      else if llen v = targetLen then NewRegular v
      else if llen v = 0 then rbind (NewConstant padding targetLen) (\<lambda>c. Inr (SvConstant c))
      else rbind (NewPaddedCircularWindow v padding (targetLen - llen v) targetLen) (\<lambda>p. Inr (SvWindow p)))"

definition RightPadded :: "'f list \<Rightarrow> 'f \<Rightarrow> int \<Rightarrow> 'f SmartVector result" where
  "RightPadded v padding targetLen =
     (if llen v > targetLen then Inl (Panic ''unpadded vector must be smaller than the target length'')
      else if llen v = targetLen then NewRegular v
      else if llen v = 0 then rbind (NewConstant padding targetLen) (\<lambda>c. Inr (SvConstant c))
      else rbind (NewPaddedCircularWindow v padding 0 targetLen) (\<lambda>p. Inr (SvWindow p)))"

definition RightZeroPadded :: "('f::zero) list \<Rightarrow> int \<Rightarrow> 'f SmartVector result" where
  "RightZeroPadded v targetLen = RightPadded v 0 targetLen"

definition LeftZeroPadded :: "('f::zero) list \<Rightarrow> int \<Rightarrow> 'f SmartVector result" where
  "LeftZeroPadded v targetLen = LeftPadded v 0 targetLen"

fun Density :: "'f SmartVector \<Rightarrow> int" where
  "Density (SvConstant c) = 0"
| "Density (SvWindow p) = llen (pcw_window p)"
| "Density (SvRegular r) = llen r"
| "Density (SvRotated r) = llen (rot_v r)"

fun PaddingOrientationOf :: "'f SmartVector \<Rightarrow> int result" where
  "PaddingOrientationOf (SvWindow p) =
     (if pcw_offset p = 0 then Inr 1
      else if pcw_offset p + llen (pcw_window p) = pcw_totlen p then Inr (- 1)
      else Inr 0)"
| "PaddingOrientationOf v = Inl (Err ''vector is not a padded-circular window'')"

fun WindowBase :: "('f::zero) SmartVector \<Rightarrow> 'f list result" where
  "WindowBase (SvConstant c) = Inr []"
| "WindowBase (SvWindow p) = Inr (pcw_window p)"
| "WindowBase (SvRegular r) = Inr r"
| "WindowBase (SvRotated r) = IntoRegVecSaveAlloc (SvRotated r)"

definition Sv_Window :: "('f::zero) SmartVector \<Rightarrow> 'f list result" where
  "Sv_Window v = (case WindowBase v of Inl (Err _) \<Rightarrow> Inl (Panic ''conversion'') | r \<Rightarrow> r)"

fun PaddingVal :: "('f::zero) SmartVector \<Rightarrow> 'f \<times> bool" where
  "PaddingVal (SvConstant c) = (const_value c, True)"
| "PaddingVal (SvWindow p) = (pcw_padding p, True)"
| "PaddingVal v = (0, False)"

subsubsection \<open>Smaller representations\<close>

text \<open>A type assertion \<open>x.(*PaddedCircularWindow)\<close>.\<close>

fun as_window :: "'f SmartVector \<Rightarrow> 'f PaddedCircularWindow result" where
  "as_window (SvWindow p) = Inr p"
| "as_window v = Inl (Panic ''interface conversion'')"

definition tryIntoConstant :: "'f list \<Rightarrow> 'f Constant option result" where
  "tryIntoConstant w =
     (if llen w \<le> 1 then Inr None
      else if w ! 0 \<noteq> w ! 1 then Inr None
      else if w ! 0 \<noteq> w ! (length w - 1) then Inr None
      else if w ! 0 \<noteq> w ! (length w div 2) then Inr None
      else if \<not> list_all (\<lambda>x. x = w ! 0) w then Inr None
      else rbind (NewConstant (w ! 0) (llen w)) (\<lambda>c. Inr (Some c)))"

text \<open>The scans for the last position of the constant prefix, and for the first one of the constant suffix.\<close>

fun prefix_scan :: "'f \<Rightarrow> int \<Rightarrow> int \<Rightarrow> 'f list \<Rightarrow> int" where
  "prefix_scan x i bestPos [] = bestPos"
| "prefix_scan x i bestPos (y # ys) = (if y \<noteq> x then bestPos else prefix_scan x (i + 1) i ys)"

fun suffix_scan :: "'f \<Rightarrow> 'f list \<Rightarrow> nat \<Rightarrow> int \<Rightarrow> int" where
  "suffix_scan x v 0 bestPos = bestPos"
| "suffix_scan x v (Suc i) bestPos = (if v ! i \<noteq> x then int i + 1 else suffix_scan x v i bestPos)"

definition tryIntoLeftPadded :: "'f list \<Rightarrow> 'f PaddedCircularWindow option result" where
  "tryIntoLeftPadded v =
     rbind (index v 0) (\<lambda>first.
     let bestPos = prefix_scan first 1 0 (tl v) in
     if bestPos = 0 then Inr None
     else if bestPos = llen v - 1 then Inl (Panic ''passed a constant vector to tryIntoLeftPadded'')
     else rbind (go_slice v (bestPos + 1) (llen v)) (\<lambda>w.
          rbind (LeftPadded w first (llen v)) (\<lambda>p. rbind (as_window p) (\<lambda>p. Inr (Some p)))))"

definition tryIntoRightPadded :: "'f list \<Rightarrow> 'f PaddedCircularWindow option result" where
  "tryIntoRightPadded v =
     rbind (index v (llen v - 1)) (\<lambda>last.
     let bestPos = suffix_scan last v (length v - 1) (llen v - 1) in
     if llen v - bestPos < 1000 then Inr None
     else rbind (go_slice v 0 bestPos) (\<lambda>w.
          rbind (RightPadded w last (llen v)) (\<lambda>p. rbind (as_window p) (\<lambda>p. Inr (Some p)))))"

fun TryReduceSizeRight :: "'f SmartVector \<Rightarrow> ('f SmartVector \<times> int) result" where
  "TryReduceSizeRight (SvRegular w) =
     rbind (tryIntoConstant w) (\<lambda>res. case res of Some c \<Rightarrow> Inr (SvConstant c, llen w) | None \<Rightarrow>
     rbind (tryIntoRightPadded w) (\<lambda>res. case res of Some p \<Rightarrow> Inr (SvWindow p, llen w - llen (pcw_window p)) | None \<Rightarrow>
     Inr (SvRegular w, 0)))"
| "TryReduceSizeRight v = Inr (v, 0)"

fun TryReduceSizeLeft :: "'f SmartVector \<Rightarrow> ('f SmartVector \<times> int) result" where
  "TryReduceSizeLeft (SvRegular w) =
     rbind (tryIntoConstant w) (\<lambda>res. case res of Some c \<Rightarrow> Inr (SvConstant c, llen w) | None \<Rightarrow>
     rbind (tryIntoLeftPadded w) (\<lambda>res. case res of Some p \<Rightarrow> Inr (SvWindow p, llen w - llen (pcw_window p)) | None \<Rightarrow>
     Inr (SvRegular w, 0)))"
| "TryReduceSizeLeft v = Inr (v, 0)"

subsubsection \<open>Compact forms\<close>

fun FromCompactWithShape :: "'f SmartVector \<Rightarrow> 'f list \<Rightarrow> 'f SmartVector result" where
  "FromCompactWithShape (SvConstant c) compact =
     rbind (index compact 0) (\<lambda>x. rbind (NewConstant x (const_length c)) (\<lambda>c. Inr (SvConstant c)))"
| "FromCompactWithShape (SvWindow p) compact =
     (if pcw_offset p = 0
      then if llen (pcw_window p) \<noteq> llen compact - 1 then Inl (Panic ''unexpected shape for padded circular window'')
           else rbind (index compact (llen compact - 1)) (\<lambda>last.
                rbind (go_slice compact 0 (llen compact - 1)) (\<lambda>window. RightPadded window last (pcw_totlen p)))
      else if pcw_offset p + llen (pcw_window p) = pcw_totlen p
      then if llen (pcw_window p) \<noteq> llen compact - 1 then Inl (Panic ''unexpected shape for padded circular window'')
           else rbind (index compact 0) (\<lambda>first.
                rbind (go_slice compact 1 (llen compact)) (\<lambda>window. LeftPadded window first (pcw_totlen p)))
      else Inl (Panic ''unexpected shape for padded circular window''))"
| "FromCompactWithShape (SvRegular r) compact =
     (if llen r \<noteq> llen compact then Inl (Panic ''unexpected shape for regular vector'') else NewRegular compact)"
| "FromCompactWithShape (SvRotated r) compact = Inl (Panic ''unexpected type'')"

fun CoWindowRange_loop :: "bool \<Rightarrow> int \<Rightarrow> int \<Rightarrow> 'f SmartVector option list \<Rightarrow> int \<times> int" where
  "CoWindowRange_loop foundAny start stop [] = (start, stop)"
| "CoWindowRange_loop foundAny start stop (None # sv) = CoWindowRange_loop foundAny start stop sv"
| "CoWindowRange_loop foundAny start stop (Some (SvConstant _) # sv) = CoWindowRange_loop foundAny start stop sv"
| "CoWindowRange_loop foundAny start stop (Some (SvWindow p) # sv) =
     (if pcw_offset p + llen (pcw_window p) > pcw_totlen p then (0, pcw_totlen p)
      else if \<not> foundAny
      then CoWindowRange_loop foundAny (pcw_offset p) (pcw_offset p + llen (pcw_window p)) sv
      else CoWindowRange_loop True (min start (pcw_offset p)) (max stop (pcw_offset p + llen (pcw_window p))) sv)"
| "CoWindowRange_loop foundAny start stop (Some s # sv) = (0, Len s)"

definition CoWindowRange :: "'f SmartVector option list \<Rightarrow> int \<times> int" where
  "CoWindowRange sv = CoWindowRange_loop False 0 0 sv"

definition CoCompactRange :: "'f SmartVector option list \<Rightarrow> (int \<times> int) result" where
  "CoCompactRange sv =
     (let (start, stop) = CoWindowRange sv;
          start = (if start > 0 then start - 1 else start)
      in rbind (index sv 0) (\<lambda>s0. case s0 of None \<Rightarrow> Inl (Panic ''nil pointer dereference'') | Some s0 \<Rightarrow>
         Inr (start, if stop < Len s0 then stop + 1 else stop)))"

definition FromCompactWithRange :: "'f list \<Rightarrow> int \<Rightarrow> int \<Rightarrow> int \<Rightarrow> 'f SmartVector result" where
  "FromCompactWithRange compact start stop fullLen =
     (if wrap64 (stop - start) > llen compact + 2 then Inl (Panic ''inconsistent compact range, stop-start != len(compact)'')
      else if wrap64 (stop - start) > fullLen then Inl (Panic ''inconsistent compact range, stop-start > fullLen'')
      else if wrap64 (stop - start) = 1
      then rbind (index compact 0) (\<lambda>x. rbind (NewConstant x fullLen) (\<lambda>c. Inr (SvConstant c)))
      else if start = 0 \<and> stop = fullLen then NewRegular compact
      else if start = 0
      then rbind (go_slice compact 0 (llen compact - 1)) (\<lambda>w. rbind (index compact (llen compact - 1)) (\<lambda>x.
           RightPadded w x fullLen))
      else if stop = fullLen
      then rbind (go_slice compact 1 (llen compact)) (\<lambda>w. rbind (index compact 0) (\<lambda>x. LeftPadded w x fullLen))
      else rbind (index compact 0) (\<lambda>x. rbind (index compact (llen compact - 1)) (\<lambda>y.
           if x \<noteq> y then Inl (Panic ''inconsistent compact range'')
           else rbind (go_slice compact 1 (llen compact - 1)) (\<lambda>w.
                rbind (NewPaddedCircularWindow w x (wrap64 (start + 1)) fullLen) (\<lambda>p. Inr (SvWindow p))))))"

subsection \<open>Padding\<close>

lemma RightPadded_ok:
  assumes "llen v \<le> n" "0 < n" "n < 2 ^ 62"
  shows "\<exists>r. RightPadded v x n = Inr r \<and> denotes r n (\<lambda>i. if i < llen v then v ! nat i else x)"
proof -
  consider "llen v = n" | "v = []" | "v \<noteq> []" "llen v < n" using assms(1) by fastforce
  then show ?thesis
  proof cases
    case 1
    then show ?thesis using assms(2,3) by (auto simp: RightPadded_def intro!: denotes_Regular)
  next
    case 2
    then show ?thesis using assms by (auto simp: RightPadded_def NewConstant_ok intro!: denotes_Constant)
  next
    case 3
    obtain p where "NewPaddedCircularWindow v x 0 n = Inr p" "denotes (SvWindow p) n (\<lambda>i. if i < llen v then v ! nat i else x)"
      using NewWindow_ok [OF 3 assms(3), of 0 x "\<lambda>i. if i < llen v then v ! nat i else x"] by auto
    then show ?thesis using 3 by (simp add: RightPadded_def)
  qed
qed

lemma LeftPadded_ok:
  assumes "llen v \<le> n" "0 < n" "n < 2 ^ 62"
  shows "\<exists>r. LeftPadded v x n = Inr r \<and> denotes r n (\<lambda>i. if i < n - llen v then x else v ! nat (i - (n - llen v)))"
proof -
  let ?f = "\<lambda>i. if i < n - llen v then x else v ! nat (i - (n - llen v))"
  consider "llen v = n" | "v = []" | "v \<noteq> []" "llen v < n" using assms(1) by fastforce
  then show ?thesis
  proof cases
    case 1
    then show ?thesis using assms(2,3) by (auto simp: LeftPadded_def intro!: denotes_Regular)
  next
    case 2
    then show ?thesis using assms by (auto simp: LeftPadded_def NewConstant_ok intro!: denotes_Constant)
  next
    case 3
    have "(let q = (i - (n - llen v)) mod n in if q < llen v then v ! nat q else x) = ?f i" if "0 \<le> i" "i < n" for i
    proof (cases "i < n - llen v")
      case True
      have "(i - (n - llen v)) mod n = (i - (n - llen v) + n) mod n" by (rule mod_add_self2 [symmetric])
      also have "\<dots> = i + llen v" using that True by (simp add: mod_pos_pos_trivial)
      finally show ?thesis using that True by simp
    next
      case False
      then have "(i - (n - llen v)) mod n = i - (n - llen v)" using that 3(2) by (intro mod_pos_pos_trivial) linarith+
      then show ?thesis using that False by (auto simp: Let_def)
    qed
    from NewWindow_ok [OF 3 assms(3) this]
    obtain p where "NewPaddedCircularWindow v x (n - llen v) n = Inr p" "denotes (SvWindow p) n ?f" by blast
    then show ?thesis using 3 by (simp add: LeftPadded_def)
  qed
qed

lemma padding_refuses:
  assumes "n < llen v"
  shows "\<exists>m. LeftPadded v x n = Inl (Panic m)" "\<exists>m. RightPadded v x n = Inl (Panic m)"
  using assms by (simp_all add: LeftPadded_def RightPadded_def)

subsection \<open>The search for a smaller representation\<close>

lemma tryIntoConstant_ok:
  "tryIntoConstant w = Inr (if 1 < length w \<and> (\<forall>x\<in>set w. x = w ! 0)
     then Some \<lparr>const_value = w ! 0, const_length = llen w\<rparr> else None)"
proof (cases "1 < length w \<and> (\<forall>x\<in>set w. x = w ! 0)")
  case True
  define x where "x = w ! 0"
  have l: "1 < length w" and w: "\<And>i. i < length w \<Longrightarrow> w ! i = x" using True nth_mem unfolding x_def by blast+
  have e: "w ! 0 = x" "w ! 1 = x" "w ! (length w - 1) = x" "w ! (length w div 2) = x" using l by (auto intro!: w)
  have a: "list_all (\<lambda>y. y = x) w" "\<forall>y\<in>set w. y = x" unfolding x_def using True by (auto simp: list_all_iff)
  have n: "\<not> llen w \<le> 1" "\<not> llen w \<le> 0" using l by auto
  show ?thesis unfolding tryIntoConstant_def NewConstant_def e if_not_P [OF n(1)] if_not_P [OF n(2)] using a l by simp
next
  case False
  then have "llen w \<le> 1 \<or> \<not> list_all (\<lambda>x. x = w ! 0) w" by (auto simp: list_all_iff)
  then have "tryIntoConstant w = Inr None"
  proof
    assume "\<not> list_all (\<lambda>x. x = w ! 0) w"
    then show ?thesis by (simp only: tryIntoConstant_def if_True if_cancel simp_thms)
  qed (simp add: tryIntoConstant_def)
  then show ?thesis using False by (simp only: if_False)
qed

lemma prefix_scan_ok:
  "prefix_scan x i b ys = (let k = llen (takeWhile (\<lambda>y. y = x) ys) in if k = 0 then b else i + k - 1)"
  by (induction ys arbitrary: i b) (auto simp: Let_def)

lemma suffix_scan_ok:
  assumes "\<exists>i<k. v ! i \<noteq> x"
  shows "\<exists>i<k. suffix_scan x v k b = int i + 1 \<and> v ! i \<noteq> x \<and> (\<forall>j. i < j \<longrightarrow> j < k \<longrightarrow> v ! j = x)"
  using assms
proof (induction k)
  case (Suc k)
  show ?case
  proof (cases "v ! k = x")
    case True
    then have "\<exists>i<k. v ! i \<noteq> x" using Suc.prems less_Suc_eq by auto
    with Suc.IH obtain i where "i < k" "suffix_scan x v k b = int i + 1" "v ! i \<noteq> x" "\<forall>j. i < j \<longrightarrow> j < k \<longrightarrow> v ! j = x" by blast
    then show ?thesis using True by (intro exI [of _ i]) (auto simp: less_Suc_eq)
  qed auto
qed simp

definition reduces :: "'f SmartVector \<Rightarrow> ('f SmartVector \<times> int) result \<Rightarrow> bool" where
  "reduces v r \<longleftrightarrow> (\<exists>v' saving. r = Inr (v', saving) \<and> sv_ok v' \<and> elems v' = elems v \<and> 0 \<le> saving \<and>
     Density v' = Density v - saving)"

lemma reduces_same: "sv_ok v \<Longrightarrow> reduces v (Inr (v, 0))"
  by (simp add: reduces_def)

lemma reduces_window:
  assumes "denotes (SvWindow p) (llen w) (\<lambda>i. w ! nat i)"
  shows "reduces (SvRegular w) (Inr (SvWindow p, llen w - llen (pcw_window p)))"
  using assms by (auto simp: reduces_def denotes_elems map_nth denotes_def)

lemma reduces_constant:
  assumes "w \<noteq> []" "llen w < 2 ^ 62" "\<forall>x\<in>set w. x = w ! 0"
  shows "reduces (SvRegular w) (Inr (SvConstant \<lparr>const_value = w ! 0, const_length = llen w\<rparr>, llen w))"
proof -
  have "elems (SvConstant \<lparr>const_value = w ! 0, const_length = llen w\<rparr>) = w"
  proof (rule nth_equalityI)
    fix i assume "i < length (elems (SvConstant \<lparr>const_value = w ! 0, const_length = llen w\<rparr>))"
    then have "i < length w" by simp
    with assms(3) have "w ! i = w ! 0" by (meson nth_mem)
    then show "elems (SvConstant \<lparr>const_value = w ! 0, const_length = llen w\<rparr>) ! i = w ! i" using \<open>i < length w\<close> by simp
  qed simp
  then show ?thesis using assms by (simp add: reduces_def)
qed

lemma window_of:
  assumes "denotes r n f" "RightPadded v x n = Inr r \<or> LeftPadded v x n = Inr r" "v \<noteq> []" "llen v < n"
  shows "\<exists>p. r = SvWindow p \<and> pcw_window p = v"
  using assms by (auto simp: RightPadded_def LeftPadded_def NewPaddedCircularWindow_def)

lemma take_while_split:
  assumes "takeWhile P xs \<noteq> xs"
  shows "length (takeWhile P xs) < length xs"
  using assms by (metis length_takeWhile_le nat_less_le takeWhile_eq_take take_all)

lemma TryReduceSizeRight_ok:
  assumes "sv_ok v"
  shows "reduces v (TryReduceSizeRight v)"
proof (cases v)
  case (SvRegular w)
  have w: "w \<noteq> []" "llen w < 2 ^ 62" using assms SvRegular by simp_all
  let ?x = "w ! (length w - 1)"
  have "nat (llen w - 1) = length w - 1" by linarith
  then have last: "index w (llen w - 1) = Inr ?x" using w(1) by (simp add: index_in Suc_leI)
  show ?thesis
  proof (cases "1 < length w \<and> (\<forall>x\<in>set w. x = w ! 0)")
    case True
    then show ?thesis using reduces_constant [OF w] SvRegular by (simp add: tryIntoConstant_ok)
  next
    case nc: False
    then have c: "tryIntoConstant w = Inr None" by (simp add: tryIntoConstant_ok)
    show ?thesis
    proof (cases "\<exists>i<length w - 1. w ! i \<noteq> ?x")
      case True
      from suffix_scan_ok [OF this] obtain i where i: "i < length w - 1"
        "suffix_scan ?x w (length w - 1) (llen w - 1) = int i + 1" "\<forall>j. i < j \<longrightarrow> j < length w - 1 \<longrightarrow> w ! j = ?x" by blast
      let ?b = "int i + 1"
      have slice: "go_slice w 0 ?b = Inr (take (Suc i) w)" using i(1) by (simp add: slice_in nat_add_distrib)
      have len: "llen (take (Suc i) w) = ?b" "take (Suc i) w \<noteq> []" "?b < llen w" using i(1) w(1) by auto
      have le: "llen (take (Suc i) w) \<le> llen w" "0 < llen w" using w(1) by simp_all
      from RightPadded_ok [OF le w(2), of ?x, unfolded len(1)] obtain r where
        r: "RightPadded (take (Suc i) w) ?x (llen w) = Inr r"
          "denotes r (llen w) (\<lambda>k. if k < ?b then take (Suc i) w ! nat k else ?x)" by blast
      from window_of [OF r(2) disjI1 [OF r(1)] len(2)] len(1,3) obtain p where p: "r = SvWindow p" by auto
      have "denotes (SvWindow p) (llen w) (\<lambda>k. w ! nat k)"
        unfolding denotes_def
      proof (intro conjI allI impI)
        fix k assume k: "0 \<le> k" "k < llen w"
        then have "value_at (SvWindow p) k = (if k < ?b then take (Suc i) w ! nat k else ?x)"
          using r(2) p unfolding denotes_def by blast
        moreover have "w ! nat k = ?x" if "\<not> k < ?b"
        proof (cases "nat k = length w - 1")
          case False
          then have "i < nat k" "nat k < length w - 1" using that k by linarith+
          then show ?thesis using i(3) by blast
        qed simp
        ultimately show "value_at (SvWindow p) k = w ! nat k" using k by auto
      qed (use r(2) p in \<open>simp_all add: denotes_def del: sv_ok.simps value_at.simps\<close>)
      from reduces_window [OF this] show ?thesis
        using SvRegular c last i(2) slice r(1) p reduces_same [OF assms] by (simp add: tryIntoRightPadded_def Let_def)
    next
      case False
      have l: "length w = 1"
      proof (rule ccontr)
        assume "length w \<noteq> 1"
        moreover have "x = w ! 0" if "x \<in> set w" for x
        proof -
          have "w ! i = ?x" if "i < length w" for i using False that by (cases "i = length w - 1") auto
          then show ?thesis using that w(1) by (metis in_set_conv_nth length_greater_0_conv)
        qed
        ultimately show False using nc w(1) by (metis length_0_conv less_one linorder_neqE_nat)
      qed
      then show ?thesis using SvRegular c last reduces_same [OF assms] by (simp add: tryIntoRightPadded_def)
    qed
  qed
qed (use assms in \<open>simp_all add: reduces_same del: sv_ok.simps\<close>)

lemma TryReduceSizeLeft_ok:
  assumes "sv_ok v"
  shows "reduces v (TryReduceSizeLeft v)"
proof (cases v)
  case (SvRegular w)
  have w: "w \<noteq> []" "llen w < 2 ^ 62" using assms SvRegular by simp_all
  let ?x = "w ! 0"
  have fst: "index w 0 = Inr ?x" using w(1) by (simp add: index_in)
  show ?thesis
  proof (cases "1 < length w \<and> (\<forall>x\<in>set w. x = ?x)")
    case True
    then show ?thesis using reduces_constant [OF w] SvRegular by (simp add: tryIntoConstant_ok)
  next
    case nc: False
    then have c: "tryIntoConstant w = Inr None" by (simp add: tryIntoConstant_ok)
    define k where "k = length (takeWhile (\<lambda>y. y = ?x) (tl w))"
    have scan: "prefix_scan ?x 1 0 (tl w) = int k" by (simp add: prefix_scan_ok k_def Let_def)
    show ?thesis
    proof (cases "k = 0")
      case True
      then show ?thesis using SvRegular c fst scan reduces_same [OF assms] by (simp add: tryIntoLeftPadded_def)
    next
      case False
      have eq: "w ! j = ?x" if "j \<le> k" for j
      proof (cases j)
        case (Suc j')
        then have "takeWhile (\<lambda>y. y = ?x) (tl w) ! j' \<in> set (takeWhile (\<lambda>y. y = ?x) (tl w))"
          using that by (intro nth_mem) (simp add: k_def)
        then have "takeWhile (\<lambda>y. y = ?x) (tl w) ! j' = ?x" by (rule set_takeWhileD [THEN conjunct2])
        moreover have "takeWhile (\<lambda>y. y = ?x) (tl w) ! j' = tl w ! j'"
          using that Suc by (intro takeWhile_nth) (simp add: k_def)
        ultimately show ?thesis using Suc w(1) by (cases w) auto
      qed simp
      have kl: "k < length w - 1"
      proof (rule ccontr)
        assume *: "\<not> k < length w - 1"
        have "x = ?x" if x: "x \<in> set w" for x
        proof -
          obtain j where j: "j < length w" "x = w ! j" using x by (auto simp: in_set_conv_nth)
          have "j \<le> k" using j(1) * by simp
          from eq [OF this] j(2) show ?thesis by simp
        qed
        moreover have "k \<le> length w - 1" using length_takeWhile_le [of _ "tl w"] by (simp add: k_def)
        then have "1 < length w" using False by simp
        ultimately show False using nc by blast
      qed
      let ?v = "drop (Suc k) w"
      have slice: "go_slice w (int k + 1) (llen w) = Inr ?v" using kl by (simp add: slice_in nat_add_distrib)
      have len: "llen ?v = llen w - int k - 1" "?v \<noteq> []" "llen ?v < llen w" using kl by auto
      have le: "llen ?v \<le> llen w" "0 < llen w" using w(1) by simp_all
      from LeftPadded_ok [OF le w(2), of ?x] obtain r where
        r: "LeftPadded ?v ?x (llen w) = Inr r"
          "denotes r (llen w) (\<lambda>i. if i < llen w - llen ?v then ?x else ?v ! nat (i - (llen w - llen ?v)))" by blast
      from window_of [OF r(2) disjI2 [OF r(1)] len(2,3)] obtain p where p: "r = SvWindow p" by blast
      have "denotes (SvWindow p) (llen w) (\<lambda>i. w ! nat i)"
        unfolding denotes_def
      proof (intro conjI allI impI)
        fix i assume i: "0 \<le> i" "i < llen w"
        then have "value_at (SvWindow p) i = (if i < llen w - llen ?v then ?x else ?v ! nat (i - (llen w - llen ?v)))"
          using r(2) p unfolding denotes_def by blast
        moreover have "w ! nat i = ?x" if "i < llen w - llen ?v" by (rule eq) (use that len(1) in linarith)
        moreover have "?v ! nat (i - (llen w - llen ?v)) = w ! nat i" if "\<not> i < llen w - llen ?v"
        proof -
          have "Suc k + nat (i - (llen w - llen ?v)) = nat i" using that len(1) by linarith
          then show ?thesis using kl by (simp add: nth_drop)
        qed
        ultimately show "value_at (SvWindow p) i = w ! nat i" by argo
      qed (use r(2) p in \<open>simp_all add: denotes_def del: sv_ok.simps value_at.simps\<close>)
      moreover have "int k \<noteq> llen w - 1" using kl by linarith
      ultimately show ?thesis
        using reduces_window [of p w] SvRegular c fst scan False slice r(1) p by (simp add: tryIntoLeftPadded_def Let_def)
    qed
  qed
qed (use assms in \<open>simp_all add: reduces_same del: sv_ok.simps\<close>)

subsection \<open>Compact forms\<close>

text \<open>A constant, a plain vector, or a window at one end.\<close>

fun compactable :: "'f SmartVector \<Rightarrow> bool" where
  "compactable (SvWindow p) \<longleftrightarrow> pcw_offset p = 0 \<or> pcw_offset p + llen (pcw_window p) = pcw_totlen p"
| "compactable (SvRotated r) \<longleftrightarrow> False"
| "compactable _ \<longleftrightarrow> True"

lemma slice_last: "go_slice (w @ [x]) 0 (llen (w @ [x]) - 1) = Inr w" "index (w @ [x]) (llen (w @ [x]) - 1) = Inr x"
  by (simp_all add: slice_in index_in)

lemma slice_first: "go_slice (x # w) 1 (llen (x # w)) = Inr w" "index (x # w) 0 = Inr x"
  by (simp_all add: slice_in index_in)

lemma FromCompactWithShape_ok:
  assumes "sv_ok v" "compactable v"
  shows "rbind (IterateCompact v) (FromCompactWithShape v) = Inr v"
proof (cases v)
  case (SvWindow p)
  let ?w = "pcw_window p"
  have ok: "?w \<noteq> []" "llen ?w < pcw_totlen p" "0 \<le> pcw_offset p" "pcw_offset p < pcw_totlen p" using assms SvWindow by auto
  show ?thesis
  proof (cases "pcw_offset p = 0")
    case True
    then have "Window_IterateCompact p = Inr (?w @ [pcw_padding p])" using ok by (simp add: Window_IterateCompact_def)
    then show ?thesis
      using SvWindow ok True slice_last [of ?w "pcw_padding p"] by (simp add: RightPadded_def NewPaddedCircularWindow_def)
  next
    case False
    then have e: "pcw_offset p + llen ?w = pcw_totlen p" using assms SvWindow by simp
    then have "Window_IterateCompact p = Inr (pcw_padding p # ?w)" using ok False by (simp add: Window_IterateCompact_def)
    moreover have "(- llen ?w) mod pcw_totlen p = pcw_offset p"
    proof -
      have "(- llen ?w) mod pcw_totlen p = (pcw_offset p - pcw_totlen p) mod pcw_totlen p" by (simp flip: e)
      then show ?thesis using ok by simp
    qed
    ultimately show ?thesis
      using SvWindow ok False e slice_first [of "pcw_padding p" ?w] by (simp add: LeftPadded_def NewPaddedCircularWindow_def)
  qed
qed (use assms in \<open>auto simp: index_in NewConstant_def\<close>)

lemma FromCompactWithShape_refuses:
  "\<not> compactable v \<Longrightarrow> \<exists>m. FromCompactWithShape v compact = Inl (Panic m)"
  by (cases v) auto

text \<open>The positions outside which a vector is constant.\<close>

definition padded_outside :: "int \<Rightarrow> int \<Rightarrow> 'f SmartVector \<Rightarrow> bool" where
  "padded_outside start stop v \<longleftrightarrow>
     (\<exists>x. \<forall>i. 0 \<le> i \<longrightarrow> i < Len v \<longrightarrow> \<not> (start \<le> i \<and> i < stop) \<longrightarrow> value_at v i = x)"

text \<open>\<open>foundAny\<close> is never set before it is tested, so the last window decides.\<close>

lemma CoWindowRange_last:
  assumes "\<forall>v\<in>set vs. \<forall>s. v = Some s \<longrightarrow> is_const s"
    "\<forall>v\<in>set us. \<forall>s. v = Some s \<longrightarrow> is_const s \<or> (\<exists>q. s = SvWindow q \<and> pcw_offset q + llen (pcw_window q) \<le> pcw_totlen q)"
    "pcw_offset p + llen (pcw_window p) \<le> pcw_totlen p"
  shows "CoWindowRange (us @ Some (SvWindow p) # vs) = (pcw_offset p, pcw_offset p + llen (pcw_window p))"
proof -
  have vs: "CoWindowRange_loop f a b vs = (a, b)" for f a b
    using assms(1)
  proof (induction vs)
    case (Cons v vs)
    then show ?case
    proof (cases v)
      case (Some s)
      with Cons.prems have "is_const s" by simp
      then show ?thesis using Cons Some by (cases s) auto
    qed simp
  qed simp
  have "CoWindowRange_loop False a b (us @ Some (SvWindow p) # vs) = (pcw_offset p, pcw_offset p + llen (pcw_window p))" for a b
    using assms(2)
  proof (induction us arbitrary: a b)
    case Nil
    then show ?case using assms(3) vs by simp
  next
    case (Cons v us)
    show ?case
    proof (cases v)
      case (Some s)
      with Cons.prems consider c where "s = SvConstant c" |
          q where "s = SvWindow q" "pcw_offset q + llen (pcw_window q) \<le> pcw_totlen q"
        by (cases s) auto
      then show ?thesis using Cons Some by cases auto
    qed (use Cons in simp)
  qed
  then show ?thesis by (simp add: CoWindowRange_def)
qed

lemma butlast_slice: "xs \<noteq> [] \<Longrightarrow> go_slice xs 0 (llen xs - 1) = Inr (butlast xs) \<and> index xs (llen xs - 1) = Inr (last xs)"
  using slice_last [of "butlast xs" "last xs"] by simp

lemma tl_slice: "xs \<noteq> [] \<Longrightarrow> go_slice xs 1 (llen xs) = Inr (tl xs) \<and> index xs 0 = Inr (hd xs)"
  using slice_first [of "hd xs" "tl xs"] by simp

text \<open>
  Reassembling a vector from the elements of a range that keeps at least one padding element on each side that is cut
  and two more than that when both are.
\<close>

lemma FromCompactWithRange_ok:
  assumes "0 \<le> start" "start < stop" "stop \<le> n" "n < 2 ^ 62"
    "\<And>i. 0 \<le> i \<Longrightarrow> i \<le> start \<Longrightarrow> 0 < start \<Longrightarrow> f i = x" "\<And>i. stop - 1 \<le> i \<Longrightarrow> i < n \<Longrightarrow> stop < n \<Longrightarrow> f i = x"
    "0 < start \<Longrightarrow> stop < n \<Longrightarrow> 2 < stop - start"
  shows "\<exists>r. FromCompactWithRange (map f [start..stop - 1]) start stop n = Inr r \<and> denotes r n f"
proof -
  define c where "c = map f [start..stop - 1]"
  have len: "llen c = stop - start" using assms(2) by (simp add: c_def)
  have ne: "c \<noteq> []" using assms(2) by (simp add: c_def)
  have n: "0 < n" using assms by linarith
  have nth: "c ! k = f (start + int k)" if "int k < stop - start" for k using that by (simp add: c_def nth_upto)
  have hd: "hd c = f start" "index c 0 = Inr (f start)" "go_slice c 1 (llen c) = Inr (tl c)"
    using tl_slice [OF ne] nth [of 0] assms(2) by (simp_all add: hd_conv_nth [OF ne])
  have last: "last c = f (stop - 1)" "index c (llen c - 1) = Inr (f (stop - 1))" "go_slice c 0 (llen c - 1) = Inr (butlast c)"
    using butlast_slice [OF ne] nth [of "length c - 1"] len assms(2) by (simp_all add: last_conv_nth [OF ne])
  have lens: "llen (tl c) = stop - start - 1" "llen (butlast c) = stop - start - 1" using len assms(2) by simp_all
  have wr: "wrap64 (stop - start) = stop - start" "wrap64 (start + 1) = start + 1"
    using assms(1-4) by (auto intro!: wrap64_id simp: is_int64_def)
  have "\<not> stop - start > llen c + 2" "\<not> stop - start > n" using len assms by simp_all
  note go = FromCompactWithRange_def wr if_not_P [OF this(1)] if_not_P [OF this(2)] hd(2,3) last(2,3) rbind.simps
  consider (one) "stop - start = 1" | (all) "stop - start \<noteq> 1" "start = 0" "stop = n" |
      (right) "stop - start \<noteq> 1" "start = 0" "stop \<noteq> n" | (left) "stop - start \<noteq> 1" "start \<noteq> 0" "stop = n" |
      (mid) "stop - start \<noteq> 1" "start \<noteq> 0" "stop \<noteq> n" by blast
  then have "\<exists>r. FromCompactWithRange c start stop n = Inr r \<and> denotes r n f"
  proof cases
    case one
    have "f i = f start" if "0 \<le> i" "i < n" for i
    proof -
      consider "i < start" | "i = start" | "start < i" by linarith
      then show ?thesis using that one assms(1-3) assms(5) [of i] assms(5) [of start] assms(6) [of i] assms(6) [of start] by cases auto
    qed
    then have "denotes (SvConstant \<lparr>const_value = f start, const_length = n\<rparr>) n f" by (rule denotes_Constant [OF n assms(4)])
    then show ?thesis unfolding go if_P [OF one] NewConstant_ok [OF n] by blast
  next
    case all
    have "denotes (SvRegular c) n f"
      by (rule denotes_Regular) (use all n len assms(4) nth ne in auto)
    then show ?thesis unfolding go using all ne by simp
  next
    case right
    then have "stop < n" using assms(3) by simp
    then have x: "f i = f (stop - 1)" if "stop - 1 \<le> i" "i < n" for i
      using assms(6) [OF that] assms(6) [of "stop - 1"] by simp
    have "llen (butlast c) \<le> n" using lens right assms(3) by simp
    from RightPadded_ok [OF this n assms(4), of "f (stop - 1)"] obtain r where
      r: "RightPadded (butlast c) (f (stop - 1)) n = Inr r"
        "denotes r n (\<lambda>i. if i < llen (butlast c) then butlast c ! nat i else f (stop - 1))" by blast
    have "(if i < llen (butlast c) then butlast c ! nat i else f (stop - 1)) = f i" if "0 \<le> i" "i < n" for i
    proof (cases "i < stop - 1")
      case True
      then show ?thesis using that lens right nth [of "nat i"] by (simp add: nth_butlast)
    next
      case False
      then show ?thesis using x [of i] that lens right by simp
    qed
    then have "denotes r n f" using r(2) by (simp add: denotes_def)
    then show ?thesis unfolding go using right r(1) by simp
  next
    case left
    have x: "f i = f start" if "0 \<le> i" "i \<le> start" for i
      using assms(5) [OF that] assms(5) [of start] left assms(1) by simp
    have "llen (tl c) \<le> n" using lens left assms(1) by simp
    from LeftPadded_ok [OF this n assms(4), of "f start"] obtain r where
      r: "LeftPadded (tl c) (f start) n = Inr r"
        "denotes r n (\<lambda>i. if i < n - llen (tl c) then f start else tl c ! nat (i - (n - llen (tl c))))" by blast
    have "(if i < n - llen (tl c) then f start else tl c ! nat (i - (n - llen (tl c)))) = f i" if "0 \<le> i" "i < n" for i
    proof (cases "i \<le> start")
      case True
      then show ?thesis using x [of i] that lens left by simp
    next
      case False
      let ?k = "nat (i - (n - llen (tl c)))"
      have "?k < length (tl c)" "start + int (Suc ?k) = i" using False that lens left by linarith+
      then show ?thesis using False lens left nth [of "Suc ?k"] that by (simp add: nth_tl)
    qed
    then have "denotes r n f" using r(2) by (simp add: denotes_def)
    then show ?thesis unfolding go using left r(1) by simp
  next
    case mid
    let ?w = "butlast (tl c)"
    have b: "0 < start" "stop < n" "2 < stop - start" using mid assms(1,3,7) by simp_all
    have x: "f i = f start" if "0 \<le> i" "i < n" "i \<le> start \<or> stop - 1 \<le> i" for i
      using assms(5) [of i] assms(6) [of i] assms(5) [of start] that b by auto
    have lw: "llen ?w = stop - start - 2" "llen ?w < n" using lens b by auto
    have "0 < llen ?w" using lw(1) b(3) by linarith
    then have w: "?w \<noteq> []" by (simp only: of_nat_0_less_iff length_greater_0_conv not_False_eq_True)
    have slice: "go_slice c 1 (llen c - 1) = Inr ?w"
    proof -
      have "nat (llen c - 1 - 1) = length (tl c) - 1" "nat 1 = Suc 0" by simp_all
      then show ?thesis using len b by (simp add: slice_in butlast_conv_take drop_Suc)
    qed
    have "(let q = (i - (start + 1)) mod n in if q < llen ?w then ?w ! nat q else f start) = f i" if "0 \<le> i" "i < n" for i
    proof (cases "start + 1 \<le> i")
      case True
      then have q: "(i - (start + 1)) mod n = i - (start + 1)" using that b by (intro mod_pos_pos_trivial) linarith+
      have "?w ! nat (i - (start + 1)) = f i" if "i - (start + 1) < llen ?w"
      proof -
        have "?w ! nat (i - (start + 1)) = c ! Suc (nat (i - (start + 1)))"
          using that True lens by (simp add: nth_butlast nth_tl)
        also have "\<dots> = f i" using nth [of "Suc (nat (i - (start + 1)))"] that True lw by simp
        finally show ?thesis .
      qed
      then show ?thesis using q x [OF that] lw by (auto simp: Let_def)
    next
      case False
      have "(i - (start + 1)) mod n = (i - (start + 1) + n) mod n" by (rule mod_add_self2 [symmetric])
      also have "\<dots> = i - (start + 1) + n" using False that b by (intro mod_pos_pos_trivial) linarith+
      finally show ?thesis using False that x [OF that] lw b by simp
    qed
    from NewWindow_ok [OF w lw(2) assms(4) this] obtain p where
      "NewPaddedCircularWindow ?w (f start) (start + 1) n = Inr p" "denotes (SvWindow p) n f" by blast
    moreover have "f (stop - 1) = f start" using x [of "stop - 1"] b by simp
    ultimately show ?thesis unfolding go slice using mid slice by simp
  qed
  then show ?thesis by (simp add: c_def)
qed

lemma mapM_Get: "sv_ok v \<Longrightarrow> 0 \<le> a \<Longrightarrow> b \<le> Len v \<Longrightarrow> mapM (Get v) [a..b - 1] = Inr (map (value_at v) [a..b - 1])"
  by (rule mapM_total) (simp add: Get_ok)

text \<open>The compact range of a vector and the elements on it determine the vector.\<close>

lemma compact_range:
  assumes "sv_ok v"
  shows "\<exists>start stop compact r. CoCompactRange [Some v] = Inr (start, stop) \<and> mapM (Get v) [start..stop - 1] = Inr compact \<and>
    FromCompactWithRange compact start stop (Len v) = Inr r \<and> denotes r (Len v) (value_at v)"
proof -
  have n: "0 < Len v" "Len v < 2 ^ 62" using Len_pos [OF assms] by simp_all
  have *: ?thesis if "CoCompactRange [Some v] = Inr (start, stop)" "0 \<le> start" "start < stop" "stop \<le> Len v"
    "\<And>i. 0 \<le> i \<Longrightarrow> i \<le> start \<Longrightarrow> 0 < start \<Longrightarrow> value_at v i = x"
    "\<And>i. stop - 1 \<le> i \<Longrightarrow> i < Len v \<Longrightarrow> stop < Len v \<Longrightarrow> value_at v i = x"
    "0 < start \<Longrightarrow> stop < Len v \<Longrightarrow> 2 < stop - start" for start stop x
  proof -
    have "\<exists>r. FromCompactWithRange (map (value_at v) [start..stop - 1]) start stop (Len v) = Inr r \<and> denotes r (Len v) (value_at v)"
      by (rule FromCompactWithRange_ok [OF that(2-4) n(2), where x = x]) (rule that(5-7); assumption)+
    then show ?thesis using mapM_Get [OF assms that(2,4)] that(1) by blast
  qed
  have whole: "?thesis" if "CoWindowRange [Some v] = (0, Len v)"
    by (rule * [of 0 "Len v"]) (use that n in \<open>simp_all add: CoCompactRange_def index_in\<close>)
  show ?thesis
  proof (cases v)
    case (SvConstant c)
    show ?thesis
      by (rule * [of 0 1 "const_value c"])
        (use n SvConstant in \<open>auto simp: CoCompactRange_def CoWindowRange_def index_in\<close>)
  next
    case (SvWindow p)
    let ?o = "pcw_offset p" and ?l = "llen (pcw_window p)" and ?n = "pcw_totlen p"
    have ok: "pcw_window p \<noteq> []" "?l < ?n" "0 \<le> ?o" "?o < ?n" "0 < ?l" using assms SvWindow by auto
    show ?thesis
    proof (cases "?o + ?l > ?n")
      case True
      then show ?thesis using SvWindow by (intro whole) (simp add: CoWindowRange_def)
    next
      case False
      have out: "value_at v i = pcw_padding p" if "0 \<le> i" "i < ?n" "i < ?o \<or> ?o + ?l \<le> i" for i
      proof (cases "i < ?o")
        case True
        have "(i - ?o) mod ?n = (i - ?o + ?n) mod ?n" by (rule mod_add_self2 [symmetric])
        also have "\<dots> = i - ?o + ?n" using True that ok by (intro mod_pos_pos_trivial) linarith+
        finally show ?thesis using SvWindow False that by simp
      next
        case i: False
        then have "(i - ?o) mod ?n = i - ?o" using that ok by (intro mod_pos_pos_trivial) linarith+
        then show ?thesis using SvWindow i that by simp
      qed
      let ?a = "if ?o > 0 then ?o - 1 else ?o" and ?b = "if ?o + ?l < ?n then ?o + ?l + 1 else ?o + ?l"
      have l: "Len v = ?n" using SvWindow by simp
      show ?thesis
      proof (rule * [of ?a ?b "pcw_padding p"])
        show "CoCompactRange [Some v] = Inr (?a, ?b)"
          using SvWindow False by (simp add: CoCompactRange_def CoWindowRange_def index_in)
      qed (rule out | use ok False l in \<open>simp split: if_splits\<close>)+
    qed
  qed (intro whole; simp add: CoWindowRange_def)+
qed

end
