(* ===== verification/Dedicated.thy ===== *)
theory Dedicated
  imports SmartVecConv
begin

text \<open>
  Prover actions of \<open>src/prover/protocol/dedicated\<close> that compute a column from columns. The runtime of the wizard is left
  out: an action takes the columns it reads, and returns the column it assigns.
\<close>

subsection \<open>A column selected by a condition\<close>

definition Ternary_Run ::
  "('f::comm_ring_1) SmartVector \<Rightarrow> 'f SmartVector \<Rightarrow> 'f SmartVector \<Rightarrow> int \<Rightarrow> 'f SmartVector result" where
  "Ternary_Run condition ifTrue ifFalse fullSize =
     rbind (CoCompactRange [Some ifTrue, Some ifFalse, Some condition]) (\<lambda>(start, stop).
     if stop - start < 0 then Inl (Panic ''makeslice: cap out of range'')
     else rbind (mapM (\<lambda>i. rbind (Get condition i) (\<lambda>c. if c = 0 then Get ifFalse i else Get ifTrue i)) [start..stop])
            (\<lambda>res. FromCompactWithRange res start stop fullSize))"

text \<open>The loop reads one position past the range.\<close>

lemma mapM_last_panics:
  assumes "\<And>y. y \<in> set xs \<Longrightarrow> \<exists>z. f y = Inr z" "\<exists>m. f x = Inl (Panic m)"
  shows "\<exists>m. mapM f (xs @ [x]) = Inl (Panic m)"
  using assms by (induction xs) (auto simp: result_simps, fastforce)

lemma CoWindowRange_plain:
  assumes "is_reg c" "\<forall>v\<in>set vs. Len v = Len c"
  shows "CoWindowRange_loop found a b (map Some vs @ [Some c]) = (0, Len c)"
  using assms(2)
proof (induction vs arbitrary: found a b)
  case Nil
  then show ?case using assms(1) by (cases c) simp_all
next
  case (Cons v vs)
  then show ?case by (cases v) simp_all
qed

text \<open>The loop reads one position past the range, so a plain condition is read out of bounds.\<close>

lemma Ternary_plain_panics:
  assumes "sv_ok t" "sv_ok f" "c \<noteq> []" "Len t = llen c" "Len f = llen c"
  shows "\<exists>m. Ternary_Run (SvRegular c) t f (llen c) = Inl (Panic m)"
proof -
  let ?n = "llen c"
  let ?get = "\<lambda>i. rbind (Get (SvRegular c) i) (\<lambda>x. if x = 0 then Get f i else Get t i)"
  have "CoWindowRange [Some t, Some f, Some (SvRegular c)] = (0, ?n)"
    using CoWindowRange_plain [of "SvRegular c" "[t, f]" False 0 0] assms(4,5) by (simp add: CoWindowRange_def)
  then have range: "CoCompactRange [Some t, Some f, Some (SvRegular c)] = Inr (0, ?n)"
    using assms(4) by (simp add: CoCompactRange_def index_in)
  have "\<exists>m. mapM ?get ([0..?n - 1] @ [?n]) = Inl (Panic m)"
  proof (rule mapM_last_panics)
    show "\<exists>z. ?get i = Inr z" if "i \<in> set [0..?n - 1]" for i
      using that Get_ok [OF assms(1), of i] Get_ok [OF assms(2), of i] assms(4,5) by (simp add: index_in)
  qed (simp add: index_def)
  moreover have "[0..?n] = [0..?n - 1] @ [?n]" by (simp add: upto_rec2)
  ultimately show ?thesis using range by (auto simp: Ternary_Run_def)
qed

text \<open>On windows over the same positions at the start of the columns, with two positions of padding left, it selects.\<close>

lemma Ternary_windows:
  assumes "sv_ok (SvWindow c)" "sv_ok (SvWindow t)" "sv_ok (SvWindow f)"
    "\<And>p. p \<in> {c, t, f} \<Longrightarrow> pcw_totlen p = n \<and> pcw_offset p = 0 \<and> llen (pcw_window p) = l" "l + 1 < n"
  shows "\<exists>r. Ternary_Run (SvWindow c) (SvWindow t) (SvWindow f) n = Inr r \<and>
    denotes r n (\<lambda>i. if value_at (SvWindow c) i = 0 then value_at (SvWindow f) i else value_at (SvWindow t) i)"
proof -
  define g where "g = (\<lambda>i. if value_at (SvWindow c) i = 0 then value_at (SvWindow f) i else value_at (SvWindow t) i)"
  have p: "pcw_totlen c = n" "pcw_totlen t = n" "pcw_totlen f = n" "pcw_offset c = 0" "pcw_offset t = 0" "pcw_offset f = 0"
    "llen (pcw_window c) = l" "llen (pcw_window t) = l" "llen (pcw_window f) = l" using assms(4) by auto
  have l: "0 < l" "n < 2 ^ 62" "0 < n" using assms(1,5) p by auto
  have range: "CoCompactRange [Some (SvWindow t), Some (SvWindow f), Some (SvWindow c)] = Inr (0, l + 1)"
    using p l assms(5) by (simp add: CoCompactRange_def CoWindowRange_def index_in)
  have sel: "mapM (\<lambda>i. rbind (Get (SvWindow c) i) (\<lambda>x. if x = 0 then Get (SvWindow f) i else Get (SvWindow t) i)) [0..l + 1] =
      Inr (map g [0..l + 1])"
  proof (rule mapM_total)
    fix i assume "i \<in> set [0..l + 1]"
    then have i: "0 \<le> i" "i < n" using assms(5) by auto
    then have "Get (SvWindow c) i = Inr (value_at (SvWindow c) i)" "Get (SvWindow f) i = Inr (value_at (SvWindow f) i)"
      "Get (SvWindow t) i = Inr (value_at (SvWindow t) i)" using Get_ok [OF assms(1) i(1)] Get_ok [OF assms(2) i(1)] Get_ok [OF assms(3) i(1)] p by simp_all
    then show "rbind (Get (SvWindow c) i) (\<lambda>x. if x = 0 then Get (SvWindow f) i else Get (SvWindow t) i) = Inr (g i)"
      by (simp add: g_def del: Get.simps value_at.simps)
  qed
  let ?c = "map g [0..l + 1]"
  have split: "[0..l + 1] = [0..l] @ [l + 1]" using l by (simp add: upto_rec2)
  have parts: "go_slice ?c 0 (llen ?c - 1) = Inr (map g [0..l])" "index ?c (llen ?c - 1) = Inr (g (l + 1))"
    using slice_last [of "map g [0..l]" "g (l + 1)"] by (simp_all add: split)
  have pad: "g i = g (l + 1)" if "l + 1 \<le> i" "i < n" for i using that p l assms(5) by (simp add: g_def)
  have len: "llen (map g [0..l]) = l + 1" using l by simp
  then have "llen (map g [0..l]) \<le> n" using assms(5) by simp
  from RightPadded_ok [OF this l(3,2), of "g (l + 1)", unfolded len] obtain r where
    r: "RightPadded (map g [0..l]) (g (l + 1)) n = Inr r" "denotes r n (\<lambda>i. if i < l + 1 then map g [0..l] ! nat i else g (l + 1))" by blast
  have "(if i < l + 1 then map g [0..l] ! nat i else g (l + 1)) = g i" if "0 \<le> i" "i < n" for i
  proof (cases "i < l + 1")
    case True
    then show ?thesis using that by (simp add: nth_upto)
  qed (use pad [of i] that in simp)
  then have "denotes r n g" using r(2) by (simp add: denotes_def)
  moreover have "wrap64 (l + 1 - 0) = l + 1" using l assms(5) by (simp add: wrap64_id is_int64_def)
  then have "FromCompactWithRange ?c 0 (l + 1) n = Inr r"
    unfolding FromCompactWithRange_def parts rbind.simps using l assms(5) r(1) by simp
  ultimately show ?thesis using range sel l by (auto simp: Ternary_Run_def g_def)
qed

end
