(* ===== verification/Fext.thy ===== *)
theory Fext
  imports Prelude
begin

text \<open>
  Elements of the base field or of its extension, \<open>src/prover/maths/field/fext/generic_field_elem.go\<close>, and the batch inversion
  of \<open>src/prover/maths/field/fext/element.go\<close>.

  The extension field is a type of the class of commutative rings, and an element of the base field is represented by its
  image in the extension: \<open>SetFromBase\<close> is then the identity, and multiplication by a base element is multiplication. What the
  code calls in gnark-crypto beyond ring operations is the record \<open>fext\<close>: the test for base elements, the first coordinate,
  and inversion. A method that updates its receiver takes it as first argument and returns the new one.
\<close>

record 'e fext =
  fx_IsBase :: "'e \<Rightarrow> bool"
  fx_A0 :: "'e \<Rightarrow> 'e"
  fx_Inverse :: "'e \<Rightarrow> 'e"

text \<open>The base field is a subring that contains the inverses of its elements; the inverse of zero is zero.\<close>

definition fext_ok :: "('e::comm_ring_1) fext \<Rightarrow> bool" where
  "fext_ok X \<longleftrightarrow>
     fx_IsBase X 0 \<and> fx_IsBase X 1 \<and>
     (\<forall>x y. fx_IsBase X x \<longrightarrow> fx_IsBase X y \<longrightarrow> fx_IsBase X (x + y) \<and> fx_IsBase X (x * y) \<and> fx_IsBase X (- x)) \<and>
     (\<forall>x. fx_IsBase X x \<longrightarrow> fx_IsBase X (fx_Inverse X x) \<and> fx_A0 X x = x) \<and>
     fx_Inverse X 0 = 0 \<and> (\<forall>x. x \<noteq> 0 \<longrightarrow> x * fx_Inverse X x = 1)"

subsection \<open>Generic elements\<close>

record 'e GenericFieldElem =
  gf_Base :: 'e
  gf_Ext :: 'e
  gf_IsBase :: bool

definition NewGenFieldFromBase :: "'e \<Rightarrow> 'e GenericFieldElem" where
  "NewGenFieldFromBase base = \<lparr>gf_Base = base, gf_Ext = base, gf_IsBase = True\<rparr>"

definition NewGenFieldFromExt :: "('e::zero) \<Rightarrow> 'e GenericFieldElem" where
  "NewGenFieldFromExt ext = \<lparr>gf_Base = 0, gf_Ext = ext, gf_IsBase = False\<rparr>"

definition Gf_GetBase :: "('e::zero) GenericFieldElem \<Rightarrow> 'e result" where
  "Gf_GetBase e = (if gf_IsBase e then Inr (gf_Base e) else Inl (Err ''cannot get Base element from an extension element''))"

text \<open>\<open>GetExt\<close> refreshes the extension form of a base element, and returns it.\<close>

definition Gf_GetExt :: "'e GenericFieldElem \<Rightarrow> 'e GenericFieldElem \<times> 'e" where
  "Gf_GetExt e = (if gf_IsBase e then (e\<lparr>gf_Ext := gf_Base e\<rparr>, gf_Base e) else (e, gf_Ext e))"

definition NewMinimalESHashFromExt :: "('e::zero) fext \<Rightarrow> 'e \<Rightarrow> 'e GenericFieldElem" where
  "NewMinimalESHashFromExt X ext =
     (if fx_IsBase X ext then \<lparr>gf_Base = fx_A0 X ext, gf_Ext = ext, gf_IsBase = True\<rparr>
      else \<lparr>gf_Base = 0, gf_Ext = ext, gf_IsBase = False\<rparr>)"

definition Gf_IsEqual :: "'e fext \<Rightarrow> 'e GenericFieldElem \<Rightarrow> 'e GenericFieldElem \<Rightarrow> bool" where
  "Gf_IsEqual X e inp =
     (if fx_IsBase X (gf_Ext e) \<and> fx_IsBase X (gf_Ext inp) then fx_A0 X (gf_Ext e) = fx_A0 X (gf_Ext inp)
      else gf_Ext e = gf_Ext inp)"

definition Gf_IsEqualBase :: "'e fext \<Rightarrow> 'e GenericFieldElem \<Rightarrow> 'e \<Rightarrow> bool" where
  "Gf_IsEqualBase X e inp =
     (if gf_IsBase e then gf_Base e = inp
      else if fx_IsBase X (gf_Ext e) then fx_A0 X (gf_Ext e) = inp
      else False)"

text \<open>The check at the end of an operation whose result may have come back to the base field.\<close>

definition settle :: "('e::zero) fext \<Rightarrow> 'e GenericFieldElem \<Rightarrow> 'e GenericFieldElem" where
  "settle X e =
     (if fx_IsBase X (gf_Ext e) then e\<lparr>gf_Base := fx_A0 X (gf_Ext e), gf_IsBase := True\<rparr>
      else e\<lparr>gf_Base := 0, gf_IsBase := False\<rparr>)"

definition Gf_Mul :: "('e::comm_ring_1) fext \<Rightarrow> 'e GenericFieldElem \<Rightarrow> 'e GenericFieldElem \<Rightarrow> 'e GenericFieldElem" where
  "Gf_Mul X e inp =
     (if gf_IsBase e \<and> gf_IsBase inp
      then let b = gf_Base e * gf_Base inp in e\<lparr>gf_Base := b, gf_IsBase := True, gf_Ext := b\<rparr>
      else
        let e = (if gf_IsBase e then e\<lparr>gf_Ext := gf_Ext inp * gf_Base e\<rparr> else e);
            e = (if gf_IsBase inp then e\<lparr>gf_Ext := gf_Ext e * gf_Base inp\<rparr> else e);
            e = (if \<not> gf_IsBase e \<and> \<not> gf_IsBase inp then e\<lparr>gf_Ext := gf_Ext e * gf_Ext inp\<rparr> else e)
        in settle X e)"

definition Gf_Add :: "('e::comm_ring_1) GenericFieldElem \<Rightarrow> 'e GenericFieldElem \<Rightarrow> 'e GenericFieldElem" where
  "Gf_Add e inp =
     (if gf_IsBase e \<and> gf_IsBase inp then let b = gf_Base e + gf_Base inp in e\<lparr>gf_Base := b, gf_Ext := b\<rparr>
      else if gf_IsBase e \<and> \<not> gf_IsBase inp then e\<lparr>gf_Ext := gf_Ext inp + gf_Base e, gf_Base := 0, gf_IsBase := False\<rparr>
      else if \<not> gf_IsBase e \<and> gf_IsBase inp then e\<lparr>gf_Ext := gf_Ext e + gf_Base inp\<rparr>
      else e\<lparr>gf_Ext := gf_Ext e + gf_Ext inp\<rparr>)"

definition Gf_Div :: "('e::comm_ring_1) fext \<Rightarrow> 'e GenericFieldElem \<Rightarrow> 'e GenericFieldElem \<Rightarrow> 'e GenericFieldElem" where
  "Gf_Div X e inp =
     (if gf_IsBase e \<and> gf_IsBase inp
      then let b = gf_Base e * fx_Inverse X (gf_Base inp) in e\<lparr>gf_Base := b, gf_Ext := b, gf_IsBase := True\<rparr>
      else
        let e = (if gf_IsBase e then e\<lparr>gf_Ext := gf_Ext e * fx_Inverse X (gf_Ext inp)\<rparr> else e);
            e = (if gf_IsBase inp then e\<lparr>gf_Ext := gf_Ext e * fx_Inverse X (gf_Base inp)\<rparr> else e);
            e = (if \<not> gf_IsBase e \<and> \<not> gf_IsBase inp then e\<lparr>gf_Ext := gf_Ext e * fx_Inverse X (gf_Ext inp)\<rparr> else e)
        in settle X e)"

definition Gf_IsZero :: "('e::comm_ring_1) GenericFieldElem \<Rightarrow> bool" where
  "Gf_IsZero e = (if gf_IsBase e then gf_Base e = 0 else gf_Ext e = 0)"

definition Gf_IsOne :: "('e::comm_ring_1) GenericFieldElem \<Rightarrow> bool" where
  "Gf_IsOne e = (if gf_IsBase e then gf_Base e = 1 else gf_Ext e = 1)"

definition GenericFieldOne :: "('e::comm_ring_1) GenericFieldElem" where
  "GenericFieldOne = NewGenFieldFromBase 1"

definition GenericFieldZero :: "('e::comm_ring_1) GenericFieldElem" where
  "GenericFieldZero = NewGenFieldFromBase 0"

definition Gf_Square :: "('e::comm_ring_1) fext \<Rightarrow> 'e GenericFieldElem \<Rightarrow> 'e GenericFieldElem \<Rightarrow> 'e GenericFieldElem" where
  "Gf_Square X e inp =
     (if gf_IsBase inp
      then let b = gf_Base inp * gf_Base inp in e\<lparr>gf_Base := b, gf_Ext := b, gf_IsBase := True\<rparr>
      else settle X (e\<lparr>gf_Ext := gf_Ext inp * gf_Ext inp\<rparr>))"

text \<open>Exponentiation in gnark-crypto inverts for a negative exponent.\<close>

definition fx_Exp :: "('e::comm_ring_1) fext \<Rightarrow> 'e \<Rightarrow> int \<Rightarrow> 'e" where
  "fx_Exp X x k = (if 0 \<le> k then x ^ nat k else fx_Inverse X x ^ nat (- k))"

definition Gf_Exp :: "('e::comm_ring_1) fext \<Rightarrow> 'e GenericFieldElem \<Rightarrow> 'e GenericFieldElem \<Rightarrow> int \<Rightarrow> 'e GenericFieldElem" where
  "Gf_Exp X e inp k =
     (if gf_IsBase inp then let b = fx_Exp X (gf_Base inp) k in e\<lparr>gf_Base := b, gf_Ext := b\<rparr>
      else settle X (e\<lparr>gf_Ext := fx_Exp X (gf_Ext inp) k\<rparr>))"

definition Gf_SetInt64 :: "('e::comm_ring_1) GenericFieldElem \<Rightarrow> int \<Rightarrow> 'e GenericFieldElem" where
  "Gf_SetInt64 e v = e\<lparr>gf_Base := of_int v, gf_Ext := of_int v, gf_IsBase := True\<rparr>"

definition Gf_Inverse :: "'e fext \<Rightarrow> 'e GenericFieldElem \<Rightarrow> 'e GenericFieldElem \<Rightarrow> 'e GenericFieldElem" where
  "Gf_Inverse X z x =
     (if gf_IsBase x then z\<lparr>gf_Base := fx_Inverse X (gf_Base x)\<rparr> else z\<lparr>gf_Ext := fx_Inverse X (gf_Ext x)\<rparr>)"

text \<open>\<open>var t fext.GenericFieldElem\<close>.\<close>

definition gf_var :: "('e::zero) GenericFieldElem" where
  "gf_var = \<lparr>gf_Base = 0, gf_Ext = 0, gf_IsBase = False\<rparr>"

subsection \<open>The extension form is the value\<close>

definition gf_ok :: "'e fext \<Rightarrow> 'e GenericFieldElem \<Rightarrow> bool" where
  "gf_ok X e \<longleftrightarrow> (gf_IsBase e \<longrightarrow> gf_Base e = gf_Ext e \<and> fx_IsBase X (gf_Ext e))"

lemma fext_okD:
  assumes "fext_ok X"
  shows "fx_IsBase X 0" "fx_IsBase X 1" "fx_IsBase X x \<Longrightarrow> fx_IsBase X y \<Longrightarrow> fx_IsBase X (x + y)"
    "fx_IsBase X x \<Longrightarrow> fx_IsBase X y \<Longrightarrow> fx_IsBase X (x * y)" "fx_IsBase X x \<Longrightarrow> fx_IsBase X (- x)"
    "fx_IsBase X x \<Longrightarrow> fx_IsBase X (fx_Inverse X x)" "fx_IsBase X x \<Longrightarrow> fx_A0 X x = x"
    "fx_Inverse X 0 = 0" "x \<noteq> 0 \<Longrightarrow> x * fx_Inverse X x = 1"
  using assms unfolding fext_ok_def by blast+

lemma base_pow: "fext_ok X \<Longrightarrow> fx_IsBase X x \<Longrightarrow> fx_IsBase X (x ^ n)"
  by (induction n) (simp_all add: fext_okD)

lemma base_Exp: "fext_ok X \<Longrightarrow> fx_IsBase X x \<Longrightarrow> fx_IsBase X (fx_Exp X x k)"
  by (simp add: fx_Exp_def base_pow fext_okD(6))

lemma base_of_int: "fext_ok X \<Longrightarrow> fx_IsBase X (of_int k)"
proof -
  assume ok: "fext_ok X"
  have nat: "fx_IsBase X (of_nat n)" for n
    by (induction n) (simp_all add: fext_okD(1,2,3) [OF ok])
  show ?thesis
    using nat [of "nat k"] fext_okD(5) [OF ok nat [of "nat (- k)"]] by (cases "0 \<le> k") simp_all
qed

lemma settle_ok [simp]: "fext_ok X \<Longrightarrow> gf_ok X (settle X e)" "gf_Ext (settle X e) = gf_Ext e"
  by (simp_all add: settle_def gf_ok_def fext_okD(7))

lemma Gf_Mul_ok:
  assumes "fext_ok X" "gf_ok X e" "gf_ok X inp"
  shows "gf_ok X (Gf_Mul X e inp)" "gf_Ext (Gf_Mul X e inp) = gf_Ext e * gf_Ext inp"
proof -
  show "gf_ok X (Gf_Mul X e inp)"
  proof (cases "gf_IsBase e \<and> gf_IsBase inp")
    case True
    then show ?thesis using assms fext_okD(4) [OF assms(1)] by (simp add: Gf_Mul_def Let_def gf_ok_def)
  qed (auto simp: Gf_Mul_def Let_def assms(1))
  show "gf_Ext (Gf_Mul X e inp) = gf_Ext e * gf_Ext inp"
    using assms by (auto simp: Gf_Mul_def Let_def gf_ok_def mult.commute)
qed

lemma Gf_Add_ok:
  assumes "fext_ok X" "gf_ok X e" "gf_ok X inp"
  shows "gf_ok X (Gf_Add e inp)" "gf_Ext (Gf_Add e inp) = gf_Ext e + gf_Ext inp"
  using assms fext_okD(3) [OF assms(1)] by (auto simp: Gf_Add_def Let_def gf_ok_def add.commute)

lemma Gf_Div_ok:
  assumes "fext_ok X" "gf_ok X e" "gf_ok X inp"
  shows "gf_ok X (Gf_Div X e inp)" "gf_Ext (Gf_Div X e inp) = gf_Ext e * fx_Inverse X (gf_Ext inp)"
proof -
  show "gf_ok X (Gf_Div X e inp)"
  proof (cases "gf_IsBase e \<and> gf_IsBase inp")
    case True
    then show ?thesis using assms fext_okD(4,6) [OF assms(1)] by (simp add: Gf_Div_def Let_def gf_ok_def)
  qed (auto simp: Gf_Div_def Let_def assms(1))
  show "gf_Ext (Gf_Div X e inp) = gf_Ext e * fx_Inverse X (gf_Ext inp)"
    using assms by (auto simp: Gf_Div_def Let_def gf_ok_def)
qed

lemma gf_ok_base:
  "fx_IsBase X b \<Longrightarrow> gf_ok X (e\<lparr>gf_Base := b, gf_Ext := b\<rparr>)"
  "fx_IsBase X b \<Longrightarrow> gf_ok X (e\<lparr>gf_Base := b, gf_Ext := b, gf_IsBase := True\<rparr>)"
  by (simp_all add: gf_ok_def)

lemma gf_okD: "gf_ok X e \<Longrightarrow> gf_IsBase e \<Longrightarrow> gf_Base e = gf_Ext e" "gf_ok X e \<Longrightarrow> gf_IsBase e \<Longrightarrow> fx_IsBase X (gf_Ext e)"
  by (simp_all add: gf_ok_def)

lemma Gf_Square_ok:
  assumes "fext_ok X" "gf_ok X inp"
  shows "gf_ok X (Gf_Square X e inp) \<and> gf_Ext (Gf_Square X e inp) = gf_Ext inp * gf_Ext inp"
proof (cases "gf_IsBase inp")
  case True
  have "fx_IsBase X (gf_Ext inp * gf_Ext inp)" using fext_okD(4) [OF assms(1)] gf_okD(2) [OF assms(2) True] by blast
  then show ?thesis using True by (simp add: Gf_Square_def Let_def gf_okD(1) [OF assms(2) True] gf_ok_base)
qed (simp add: Gf_Square_def assms(1))

lemma Gf_Exp_ok:
  assumes "fext_ok X" "gf_ok X inp"
  shows "gf_ok X (Gf_Exp X e inp k) \<and> gf_Ext (Gf_Exp X e inp k) = fx_Exp X (gf_Ext inp) k"
proof (cases "gf_IsBase inp")
  case True
  have "fx_IsBase X (fx_Exp X (gf_Ext inp) k)" using base_Exp [OF assms(1)] gf_okD(2) [OF assms(2) True] by blast
  then show ?thesis using True by (simp add: Gf_Exp_def Let_def gf_okD(1) [OF assms(2) True] gf_ok_base)
qed (simp add: Gf_Exp_def assms(1))

lemma Gf_simple_ok:
  assumes "fext_ok X"
  shows "gf_ok X (Gf_SetInt64 e v)" "gf_Ext (Gf_SetInt64 e v) = of_int v"
    "gf_ok X GenericFieldOne" "gf_Ext (GenericFieldOne) = (1 :: 'e::comm_ring_1)" "gf_ok X GenericFieldZero" "gf_Ext GenericFieldZero = (0 :: 'e)"
    "gf_ok X (NewMinimalESHashFromExt X x)" "gf_Ext (NewMinimalESHashFromExt X x) = (x :: 'e)"
  using assms base_of_int [OF assms] fext_okD(1,2,7) [OF assms]
  by (auto simp: Gf_SetInt64_def GenericFieldOne_def GenericFieldZero_def NewGenFieldFromBase_def NewMinimalESHashFromExt_def gf_ok_def)

lemma Gf_tests:
  assumes "fext_ok X" "gf_ok X e" "gf_ok X inp"
  shows "Gf_IsZero e \<longleftrightarrow> gf_Ext e = 0" "Gf_IsOne e \<longleftrightarrow> gf_Ext e = 1" "Gf_IsEqual X e inp \<longleftrightarrow> gf_Ext e = gf_Ext inp"
    "snd (Gf_GetExt e) = gf_Ext e"
  using assms fext_okD(7) [OF assms(1)] by (auto simp: Gf_IsZero_def Gf_IsOne_def Gf_IsEqual_def Gf_GetExt_def gf_ok_def)

text \<open>The inverse of a base element is written to the base form of a receiver whose extension form and flag stay as they were.\<close>

lemma Gf_Inverse_stale: "gf_IsBase x \<Longrightarrow> gf_Ext (Gf_Inverse X z x) = gf_Ext z \<and> gf_IsBase (Gf_Inverse X z x) = gf_IsBase z"
  by (simp add: Gf_Inverse_def)

subsection \<open>Batch inversion\<close>

definition invert_forward :: "('e::comm_ring_1) list \<Rightarrow> nat \<Rightarrow> 'e list \<times> 'e \<Rightarrow> 'e list \<times> 'e" where
  "invert_forward a i = (\<lambda>(res, accumulator).
     if a ! i = 0 then (res, accumulator) else (res[i := accumulator], accumulator * a ! i))"

definition invert_backward :: "('e::comm_ring_1) list \<Rightarrow> nat \<Rightarrow> 'e list \<times> 'e \<Rightarrow> 'e list \<times> 'e" where
  "invert_backward a i = (\<lambda>(res, accumulator).
     if a ! i = 0 then (res, accumulator) else (res[i := res ! i * accumulator], accumulator * a ! i))"

definition BatchInvertInto :: "('e::comm_ring_1) fext \<Rightarrow> 'e list \<Rightarrow> 'e list \<Rightarrow> 'e list result" where
  "BatchInvertInto X a res =
     (if length a \<noteq> length res then Inl (Panic ''input and output slices must have the same length'')
      else if length a = 0 then Inr res
      else let (res, accumulator) = fold (invert_forward a) [0..<length a] (res, 1);
               (res, _) = fold (invert_backward a) (rev [0..<length a]) (res, fx_Inverse X accumulator)
           in Inr res)"

definition nonzero_product :: "('e::comm_ring_1) list \<Rightarrow> nat \<Rightarrow> 'e" where
  "nonzero_product a i = prod_list (filter (\<lambda>x. x \<noteq> 0) (take i a))"

lemma nonzero_product_Suc:
  "i < length a \<Longrightarrow> nonzero_product a (Suc i) = (if a ! i = 0 then nonzero_product a i else nonzero_product a i * a ! i)"
  by (simp add: nonzero_product_def take_Suc_conv_app_nth)

lemma invert_steps:
  "invert_forward a i (r, acc) = (if a ! i = 0 then (r, acc) else (r[i := acc], acc * a ! i))"
  "invert_backward a i (r, acc) = (if a ! i = 0 then (r, acc) else (r[i := r ! i * acc], acc * a ! i))"
  by (simp_all add: invert_forward_def invert_backward_def)

lemma mult_nonzero:
  fixes X :: "('e::comm_ring_1) fext" and x y :: 'e
  assumes "fext_ok X" "x \<noteq> 0" "y \<noteq> 0"
  shows "x * y \<noteq> 0"
proof
  assume "x * y = 0"
  then have "fx_Inverse X x * (x * y) = 0" by simp
  moreover have "fx_Inverse X x * x = 1" using fext_okD(9) [OF assms(1,2)] by (simp add: mult.commute)
  ultimately show False using assms(3) by (simp flip: mult.assoc)
qed

lemma nonzero_product_neq:
  fixes X :: "('e::comm_ring_1) fext" and a :: "'e list"
  assumes "fext_ok X" "(0::'e) \<noteq> 1"
  shows "nonzero_product a i \<noteq> 0"
proof -
  have "prod_list xs \<noteq> 0" if "\<forall>x\<in>set xs. x \<noteq> 0" for xs :: "'e list"
    using that
  proof (induction xs)
    case (Cons x xs)
    then show ?case using mult_nonzero [OF assms(1), of x "prod_list xs"] by simp
  qed (use assms(2) in simp)
  then show ?thesis by (simp add: nonzero_product_def)
qed

lemma forward_ok:
  assumes "k \<le> length a" "length res = length a"
  shows "\<exists>r. fold (invert_forward a) [0..<k] (res, 1) = (r, nonzero_product a k) \<and> length r = length a \<and>
    (\<forall>i<length a. r ! i = (if i < k \<and> a ! i \<noteq> 0 then nonzero_product a i else res ! i))"
  using assms
proof (induction k)
  case (Suc k)
  then obtain r where r: "fold (invert_forward a) [0..<k] (res, 1) = (r, nonzero_product a k)" "length r = length a"
    "\<forall>i<length a. r ! i = (if i < k \<and> a ! i \<noteq> 0 then nonzero_product a i else res ! i)" by auto
  show ?case
    using r Suc.prems by (cases "a ! k = 0") (auto simp: invert_steps nonzero_product_Suc nth_list_update less_Suc_eq)
qed (simp add: nonzero_product_def)

lemma backward_ok:
  assumes "k \<le> length a" "length r = length a" "\<forall>i<k. a ! i \<noteq> 0 \<longrightarrow> r ! i = nonzero_product a i"
    "nonzero_product a k * acc = 1"
  shows "\<exists>r' acc'. fold (invert_backward a) (rev [0..<k]) (r, acc) = (r', acc') \<and> length r' = length a \<and>
    (\<forall>i<length a. if i < k \<and> a ! i \<noteq> 0 then a ! i * r' ! i = 1 else r' ! i = r ! i)"
  using assms
proof (induction k arbitrary: r acc)
  case (Suc k)
  show ?case
  proof (cases "a ! k = 0")
    case True
    then obtain r' acc' where "fold (invert_backward a) (rev [0..<k]) (r, acc) = (r', acc')" "length r' = length a"
      "\<forall>i<length a. if i < k \<and> a ! i \<noteq> 0 then a ! i * r' ! i = 1 else r' ! i = r ! i"
      using Suc.IH [of r acc] Suc.prems by (auto simp: nonzero_product_Suc)
    then show ?thesis using True by (auto simp: invert_steps less_Suc_eq)
  next
    case False
    let ?r = "r[k := r ! k * acc]" and ?acc = "acc * a ! k"
    have one: "nonzero_product a k * a ! k * acc = 1" using Suc.prems False by (simp add: nonzero_product_Suc)
    then have "nonzero_product a k * ?acc = 1" by (simp add: ac_simps)
    then obtain r' acc' where r': "fold (invert_backward a) (rev [0..<k]) (?r, ?acc) = (r', acc')" "length r' = length a"
      "\<forall>i<length a. if i < k \<and> a ! i \<noteq> 0 then a ! i * r' ! i = 1 else r' ! i = ?r ! i"
      using Suc.IH [of ?r ?acc] Suc.prems by auto
    have "r' ! k = nonzero_product a k * acc" using r'(3) Suc.prems False by auto
    then have k: "a ! k * r' ! k = 1" using one by (simp add: ac_simps)
    have "fold (invert_backward a) (rev [0..<Suc k]) (r, acc) = (r', acc')" using r'(1) False by (simp add: invert_steps)
    moreover have "if i < Suc k \<and> a ! i \<noteq> 0 then a ! i * r' ! i = 1 else r' ! i = r ! i" if "i < length a" for i
      using r'(3) k False that by (cases "i = k") (auto simp: less_Suc_eq)
    ultimately show ?thesis using r'(2) by blast
  qed
qed simp

text \<open>Every non-zero entry is inverted with one inversion; a position of a zero entry keeps what the result slice held.\<close>

lemma BatchInvertInto_ok:
  fixes a :: "('e::comm_ring_1) list"
  assumes "fext_ok X" "(0::'e) \<noteq> 1" "length a = length res"
  shows "\<exists>r. BatchInvertInto X a res = Inr r \<and> length r = length a \<and>
    (\<forall>i<length a. if a ! i \<noteq> 0 then a ! i * r ! i = 1 else r ! i = res ! i)"
proof (cases "a = []")
  case True
  then show ?thesis using assms(3) by (simp add: BatchInvertInto_def)
next
  case False
  obtain r where r: "fold (invert_forward a) [0..<length a] (res, 1) = (r, nonzero_product a (length a))" "length r = length a"
    "\<forall>i<length a. r ! i = (if i < length a \<and> a ! i \<noteq> 0 then nonzero_product a i else res ! i)"
    using forward_ok [OF order_refl assms(3) [symmetric]] by blast
  have "nonzero_product a (length a) * fx_Inverse X (nonzero_product a (length a)) = 1"
    by (rule fext_okD(9) [OF assms(1) nonzero_product_neq [OF assms(1,2)]])
  moreover have "\<forall>i<length a. a ! i \<noteq> 0 \<longrightarrow> r ! i = nonzero_product a i" using r(3) by simp
  ultimately obtain r' acc' where r': "fold (invert_backward a) (rev [0..<length a]) (r, fx_Inverse X (nonzero_product a (length a))) = (r', acc')"
    "length r' = length a" "\<forall>i<length a. if i < length a \<and> a ! i \<noteq> 0 then a ! i * r' ! i = 1 else r' ! i = r ! i"
    using backward_ok [OF order_refl r(2)] by blast
  have "BatchInvertInto X a res = Inr r'" using False r(1) r'(1) by (simp add: BatchInvertInto_def assms(3) [symmetric])
  moreover have "if a ! i \<noteq> 0 then a ! i * r' ! i = 1 else r' ! i = res ! i" if "i < length a" for i
    using r'(3) r(3) that by auto
  ultimately show ?thesis using r'(2) by blast
qed

end
