(* ===== verification/Symbolic.thy ===== *)
theory Symbolic
  imports Vectors Collections Fext
begin

text \<open>
  Symbolic expressions, \<open>src/prover/symbolic\<close>: \<open>expression.go\<close>, \<open>constant.go\<close>, \<open>variable.go\<close>, \<open>lincomb.go\<close>, \<open>product.go\<close>,
  \<open>polyeval.go\<close>, \<open>simplification.go\<close>, \<open>constructors.go\<close>, \<open>constructor_new.go\<close> and \<open>pattern.go\<close>.

  An expression is a tree of operators over columns; each node carries a hash (\<open>ESHash\<close>) that is meant to identify what the
  expression computes, and the constructors simplify: they flatten nested sums and products, merge the terms that have the
  same hash, and fold constants. The environment \<open>symenv\<close> holds what the code calls outside: the extension field, the name and
  kind of the metadata of a variable, and the hash of a name (\<open>metadataToESH\<close> takes the coordinates from a BLAKE2b digest).

  Whether two Go pointers are equal is a parameter \<open>same\<close> of the operations that compare them. The cache of degrees is left
  out: it holds the value that the recursion returns.
\<close>

record ('e, 'm) symenv =
  sx :: "'e fext"
  mString :: "'m \<Rightarrow> string"
  mIsBase :: "'m \<Rightarrow> bool"
  nameESH :: "string \<Rightarrow> 'e"

datatype ('e, 'm) Operator =
    OpConstant "'e GenericFieldElem"
  | OpVariable 'm
  | OpLinComb "int list"
  | OpProduct "int list"
  | OpPolyEval

datatype ('e, 'm) Expression =
  Expression (ESHash: 'e) (Children: "('e, 'm) Expression list") (Operator: "('e, 'm) Operator") (IsBase: bool)

lemma mapM_cong [fundef_cong]: "xs = ys \<Longrightarrow> (\<And>x. x \<in> set ys \<Longrightarrow> f x = g x) \<Longrightarrow> mapM f xs = mapM g ys"
proof -
  assume "xs = ys" "\<And>x. x \<in> set ys \<Longrightarrow> f x = g x"
  then show ?thesis by (induction ys arbitrary: xs) (auto intro!: rbind_cong)
qed

subsection \<open>Leaves and tests\<close>

definition NewConstantExpr :: "('e::comm_ring_1, 'm) symenv \<Rightarrow> 'e \<Rightarrow> ('e, 'm) Expression" where
  "NewConstantExpr E x = Expression x [] (OpConstant (NewMinimalESHashFromExt (sx E) x)) (fx_IsBase (sx E) x)"

definition metadataToESH :: "('e, 'm) symenv \<Rightarrow> 'm \<Rightarrow> 'e" where
  "metadataToESH E m = nameESH E (mString E m)"

definition NewVariable :: "('e, 'm) symenv \<Rightarrow> 'm \<Rightarrow> ('e, 'm) Expression" where
  "NewVariable E m = Expression (metadataToESH E m) [] (OpVariable m) (mIsBase E m)"

definition IsMul :: "('e, 'm) Expression \<Rightarrow> bool" where
  "IsMul e = (case Operator e of OpProduct _ \<Rightarrow> True | _ \<Rightarrow> False)"

definition IsConstant :: "('e::comm_ring_1, 'm) Expression \<Rightarrow> bool \<times> 'e GenericFieldElem" where
  "IsConstant e = (case Operator e of OpConstant v \<Rightarrow> (True, v) | _ \<Rightarrow> (False, GenericFieldZero))"

definition IsLC :: "('e, 'm) Expression \<Rightarrow> bool" where
  "IsLC e = (case Operator e of OpLinComb _ \<Rightarrow> True | _ \<Rightarrow> False)"

definition IsVariable :: "('e, 'm) Expression \<Rightarrow> bool" where
  "IsVariable e = (case Operator e of OpVariable _ \<Rightarrow> True | _ \<Rightarrow> False)"

definition computeIsBaseFromChildren :: "('e, 'm) Expression list \<Rightarrow> bool" where
  "computeIsBaseFromChildren children = list_all IsBase children"

subsection \<open>Simplification\<close>

text \<open>The terms collected so far, with the index from hashes to positions that is built from the seventeenth on.\<close>

record ('e, 'm) terms =
  t_items :: "('e, 'm) Expression list"
  t_nums :: "int list"
  t_map :: "('e \<rightharpoonup> nat) option"

definition itemMap_of :: "('e, 'm) Expression list \<Rightarrow> 'e \<rightharpoonup> nat" where
  "itemMap_of items = fold (\<lambda>(i, it) m. m(ESHash it \<mapsto> i)) (enumerate 0 items) Map.empty"

fun find_hash :: "'e \<Rightarrow> ('e, 'm) Expression list \<Rightarrow> nat option" where
  "find_hash h [] = None"
| "find_hash h (it # items) = (if ESHash it = h then Some 0 else map_option Suc (find_hash h items))"

definition add_at :: "int list \<Rightarrow> nat \<Rightarrow> int \<Rightarrow> int list" where
  "add_at nums i c = nums[i := wrap64 (nums ! i + c)]"

definition merge_term :: "('e, 'm) terms \<Rightarrow> ('e, 'm) Expression \<Rightarrow> int \<Rightarrow> ('e, 'm) terms" where
  "merge_term ts item c =
     (let tm = (case t_map ts of
            Some m \<Rightarrow> Some m
          | None \<Rightarrow> if length (t_items ts) \<ge> 16 then Some (itemMap_of (t_items ts)) else None)
      in case tm of
           Some m \<Rightarrow>
             (case m (ESHash item) of
                Some idx \<Rightarrow> ts\<lparr>t_nums := add_at (t_nums ts) idx c, t_map := tm\<rparr>
              | None \<Rightarrow> \<lparr>t_items = t_items ts @ [item], t_nums = t_nums ts @ [c],
                         t_map = Some (m(ESHash item \<mapsto> length (t_items ts)))\<rparr>)
         | None \<Rightarrow>
             (case find_hash (ESHash item) (t_items ts) of
                Some idx \<Rightarrow> ts\<lparr>t_nums := add_at (t_nums ts) idx c\<rparr>
              | None \<Rightarrow> ts\<lparr>t_items := t_items ts @ [item], t_nums := t_nums ts @ [c]\<rparr>))"

text \<open>The common end of both simplifications: the constant, if it is not neutral, and the removal of zero coefficients.\<close>

definition finish_terms ::
  "('e::comm_ring_1, 'm) symenv \<Rightarrow> bool \<Rightarrow> 'e GenericFieldElem \<Rightarrow> ('e, 'm) terms \<Rightarrow> ('e, 'm) Expression list \<times> int list" where
  "finish_terms E neutral acc ts =
     (let items = (if \<not> neutral then t_items ts @ [NewConstantExpr E (gf_Ext acc)] else t_items ts);
          nums = (if \<not> neutral then t_nums ts @ [1] else t_nums ts);
          kept = filter (\<lambda>(it, c). c \<noteq> 0) (zip items nums)
      in (map fst kept, map snd kept))"

definition lin_addTerm ::
  "('e::comm_ring_1, 'm) symenv \<Rightarrow> 'e GenericFieldElem \<times> ('e, 'm) terms \<Rightarrow> ('e, 'm) Expression \<Rightarrow> int \<Rightarrow>
   'e GenericFieldElem \<times> ('e, 'm) terms" where
  "lin_addTerm E st item coeff =
     (if coeff = 0 then st
      else case Operator item of
             OpConstant v \<Rightarrow> (Gf_Add (fst st) (Gf_Mul (sx E) (Gf_SetInt64 gf_var coeff) v), snd st)
           | _ \<Rightarrow> (fst st, merge_term (snd st) item coeff))"

definition lin_item ::
  "('e::comm_ring_1, 'm) symenv \<Rightarrow> 'e GenericFieldElem \<times> ('e, 'm) terms \<Rightarrow> ('e, 'm) Expression \<times> int \<Rightarrow>
   ('e GenericFieldElem \<times> ('e, 'm) terms) result" where
  "lin_item E st = (\<lambda>(item, coeff).
     if coeff = 0 then Inr st
     else case Operator item of
            OpLinComb cs \<Rightarrow>
              foldM (\<lambda>st (k, grandChild). rbind (index cs (int k)) (\<lambda>ck. Inr (lin_addTerm E st grandChild (wrap64 (coeff * ck)))))
                st (enumerate 0 (Children item))
          | _ \<Rightarrow> Inr (lin_addTerm E st item coeff))"

definition no_terms :: "('e, 'm) terms" where
  "no_terms = \<lparr>t_items = [], t_nums = [], t_map = None\<rparr>"

definition simplifyLinComb ::
  "('e::comm_ring_1, 'm) symenv \<Rightarrow> ('e, 'm) Expression list \<Rightarrow> int list \<Rightarrow> (('e, 'm) Expression list \<times> int list) result" where
  "simplifyLinComb E items coeffs =
     (if length items \<noteq> length coeffs then Inl (Panic ''unmatching lengths'')
      else rbind (foldM (lin_item E) (GenericFieldZero, no_terms) (zip items coeffs)) (\<lambda>(acc, ts).
           Inr (finish_terms E (Gf_IsZero acc) acc ts)))"

definition prod_addTerm ::
  "('e::comm_ring_1, 'm) symenv \<Rightarrow> 'e GenericFieldElem \<times> ('e, 'm) terms \<Rightarrow> ('e, 'm) Expression \<Rightarrow> int \<Rightarrow>
   'e GenericFieldElem \<times> ('e, 'm) terms" where
  "prod_addTerm E st item ex =
     (if ex = 0 then st
      else case Operator item of
             OpConstant v \<Rightarrow> (Gf_Mul (sx E) (fst st) (Gf_Exp (sx E) gf_var v ex), snd st)
           | _ \<Rightarrow> (fst st, merge_term (snd st) item ex))"

definition prod_item ::
  "('e::comm_ring_1, 'm) symenv \<Rightarrow> 'e GenericFieldElem \<times> ('e, 'm) terms \<Rightarrow> ('e, 'm) Expression \<Rightarrow> int \<Rightarrow>
   ('e GenericFieldElem \<times> ('e, 'm) terms) result" where
  "prod_item E st item ex =
     (case Operator item of
        OpProduct es \<Rightarrow>
          foldM (\<lambda>st (k, grandChild). rbind (index es (int k)) (\<lambda>ek. Inr (prod_addTerm E st grandChild (wrap64 (ex * ek)))))
            st (enumerate 0 (Children item))
      | _ \<Rightarrow> Inr (prod_addTerm E st item ex))"

text \<open>The loop over the factors; \<open>None\<close> is the early return on a factor whose hash is zero.\<close>

fun prod_loop ::
  "('e::comm_ring_1, 'm) symenv \<Rightarrow> 'e GenericFieldElem \<times> ('e, 'm) terms \<Rightarrow> (('e, 'm) Expression \<times> int) list \<Rightarrow>
   ('e GenericFieldElem \<times> ('e, 'm) terms) option result" where
  "prod_loop E st [] = Inr (Some st)"
| "prod_loop E st ((item, ex) # rest) =
     (if ex = 0 then prod_loop E st rest
      else if ex < 0 then Inl (Panic ''negative exponents are not allowed'')
      else if ESHash item = 0 then Inr None
      else rbind (prod_item E st item ex) (\<lambda>st. prod_loop E st rest))"

definition simplifyProduct ::
  "('e::comm_ring_1, 'm) symenv \<Rightarrow> ('e, 'm) Expression list \<Rightarrow> int list \<Rightarrow> (('e, 'm) Expression list \<times> int list) result" where
  "simplifyProduct E items exponents =
     (if length items \<noteq> length exponents then Inl (Panic ''unmatching lengths'')
      else rbind (prod_loop E (GenericFieldOne, no_terms) (zip items exponents)) (\<lambda>st.
           case st of None \<Rightarrow> Inr ([NewConstantExpr E 0], [1])
                    | Some (acc, ts) \<Rightarrow> Inr (finish_terms E (Gf_IsOne acc) acc ts)))"

subsection \<open>Inner nodes\<close>

definition newLinCombNoSimplify ::
  "('e::comm_ring_1, 'm) symenv \<Rightarrow> ('e, 'm) Expression list \<Rightarrow> int list \<Rightarrow> ('e, 'm) Expression result" where
  "newLinCombNoSimplify E items coeffs =
     rbind (foldM (\<lambda>esh (i, it). rbind (index coeffs (int i)) (\<lambda>c. Inr (esh + ESHash it * of_int c))) 0 (enumerate 0 items))
       (\<lambda>esh. Inr (Expression esh items (OpLinComb coeffs) (computeIsBaseFromChildren items)))"

definition NewLinComb ::
  "('e::comm_ring_1, 'm) symenv \<Rightarrow> ('e, 'm) Expression list \<Rightarrow> int list \<Rightarrow> ('e, 'm) Expression result" where
  "NewLinComb E items coeffs =
     (if length items \<noteq> length coeffs then Inl (Panic ''unmatching lengths'')
      else rbind (simplifyLinComb E items coeffs) (\<lambda>(items, coeffs).
        if length items = 0 then Inr (NewConstantExpr E 0)
        else if length items = 1 \<and> coeffs ! 0 = 1 then Inr (items ! 0)
        else newLinCombNoSimplify E items coeffs))"

definition newProductNoSimplify ::
  "('e::comm_ring_1, 'm) symenv \<Rightarrow> ('e, 'm) Expression list \<Rightarrow> int list \<Rightarrow> ('e, 'm) Expression result" where
  "newProductNoSimplify E items exponents =
     rbind (foldM (\<lambda>esh (i, it). rbind (index exponents (int i)) (\<lambda>c. Inr (esh * fx_Exp (sx E) (ESHash it) c))) 1 (enumerate 0 items))
       (\<lambda>esh. Inr (Expression esh items (OpProduct exponents) (computeIsBaseFromChildren items)))"

definition NewProduct ::
  "('e::comm_ring_1, 'm) symenv \<Rightarrow> ('e, 'm) Expression list \<Rightarrow> int list \<Rightarrow> ('e, 'm) Expression result" where
  "NewProduct E items exponents =
     (if length items \<noteq> length exponents then Inl (Panic ''unmatching lengths'')
      else rbind (simplifyProduct E items exponents) (\<lambda>(items, exponents).
        if length items = 0 then Inr (NewConstantExpr E 1)
        else if length items = 1 \<and> exponents ! 0 = 1 then Inr (items ! 0)
        else newProductNoSimplify E items exponents))"

definition NewPolyEval :: "('e::comm_ring_1, 'm) Expression \<Rightarrow> ('e, 'm) Expression list \<Rightarrow> ('e, 'm) Expression result" where
  "NewPolyEval x coeffs =
     (if length coeffs = 0 then Inl (Panic ''Polynomial with no coeffs'')
      else if length coeffs = 1 then Inr (coeffs ! 0)
      else Inr (Expression (foldr (\<lambda>c esh. esh * ESHash x + ESHash c) coeffs 0) (x # coeffs) OpPolyEval False))"

subsection \<open>Constructors for callers\<close>

text \<open>A pointer that may be \<open>nil\<close>, as in the deprecated methods.\<close>

definition Expression_Add ::
  "('e::comm_ring_1, 'm) symenv \<Rightarrow> ('e, 'm) Expression option \<Rightarrow> ('e, 'm) Expression option \<Rightarrow> ('e, 'm) Expression option result" where
  "Expression_Add E e f =
     (case (e, f) of (Some e, Some f) \<Rightarrow> rbind (NewLinComb E [e, f] [1, 1]) (\<lambda>r. Inr (Some r)) | _ \<Rightarrow> Inr None)"

definition Expression_Mul ::
  "('e::comm_ring_1, 'm) symenv \<Rightarrow> ('e, 'm) Expression option \<Rightarrow> ('e, 'm) Expression option \<Rightarrow> ('e, 'm) Expression option result" where
  "Expression_Mul E e f =
     (case (e, f) of (Some e, Some f) \<Rightarrow> rbind (NewProduct E [e, f] [1, 1]) (\<lambda>r. Inr (Some r)) | _ \<Rightarrow> Inr None)"

definition Expression_Neg ::
  "('e::comm_ring_1, 'm) symenv \<Rightarrow> ('e, 'm) Expression option \<Rightarrow> ('e, 'm) Expression option result" where
  "Expression_Neg E e = (case e of Some e \<Rightarrow> rbind (NewLinComb E [e] [- 1]) (\<lambda>r. Inr (Some r)) | None \<Rightarrow> Inr None)"

definition Expression_Sub ::
  "('e::comm_ring_1, 'm) symenv \<Rightarrow> ('e, 'm) Expression option \<Rightarrow> ('e, 'm) Expression option \<Rightarrow> ('e, 'm) Expression option result" where
  "Expression_Sub E e f =
     (case (e, f) of (Some e, Some f) \<Rightarrow> rbind (NewLinComb E [e, f] [1, - 1]) (\<lambda>r. Inr (Some r)) | _ \<Rightarrow> Inr None)"

definition Expression_Square ::
  "('e::comm_ring_1, 'm) symenv \<Rightarrow> ('e, 'm) Expression option \<Rightarrow> ('e, 'm) Expression option result" where
  "Expression_Square E e = (case e of Some e \<Rightarrow> rbind (NewProduct E [e] [2]) (\<lambda>r. Inr (Some r)) | None \<Rightarrow> Inr None)"

subsubsection \<open>Validation\<close>

text \<open>\<open>EvaluateExt\<close> on constant vectors of length one, as \<open>Validate\<close> calls it.\<close>

fun evaluate_hashes :: "'e fext \<Rightarrow> ('e::comm_ring_1, 'm) Operator \<Rightarrow> 'e list \<Rightarrow> 'e result" where
  "evaluate_hashes X (OpLinComb cs) hs =
     (if length cs \<noteq> length hs then Inl (Panic ''length mismatch'') else Inr (sum_list (map2 (\<lambda>c h. of_int c * h) cs hs)))"
| "evaluate_hashes X (OpProduct es) hs =
     (if length es \<noteq> length hs then Inl (Panic ''length mismatch'') else Inr (prod_list (map2 (\<lambda>c h. fx_Exp X h c) es hs)))"
| "evaluate_hashes X OpPolyEval hs =
     (case hs of x # p \<Rightarrow> if p = [] then Inl (Panic ''no input vectors'') else Inr (Poly_Eval p x)
      | [] \<Rightarrow> Inl (Panic ''index out of range''))"
| "evaluate_hashes X _ hs = Inl (Panic ''we never call EvaluateExt for a leaf'')"

fun Operator_Validate :: "('e, 'm) Operator \<Rightarrow> ('e, 'm) Expression list \<Rightarrow> unit result" where
  "Operator_Validate (OpLinComb cs) ch =
     require (length cs = length ch) (Err ''mismatch in the size of the children and coefficients'')"
| "Operator_Validate (OpProduct es) ch =
     rbind (require (length es = length ch) (Err ''mismatch in the size of the children and coefficients'')) (\<lambda>_.
     require (list_all (\<lambda>e. \<not> e < 0) es) (Panic ''found a negative exponent''))"
| "Operator_Validate OpPolyEval ch = require (\<not> length ch < 2) (Err ''poly eval of degree 0'')"
| "Operator_Validate _ ch = require (length ch = 0) (Err ''mismatch in the size of the children and coefficients'')"

fun Validate :: "'e fext \<Rightarrow> ('e::comm_ring_1, 'm) Expression \<Rightarrow> unit result" where
  "Validate X (Expression h ch op b) =
     rbind (if ch \<noteq> []
            then rbind (evaluate_hashes X op (map ESHash ch)) (\<lambda>expected. require (h = expected) (Err ''esh mismatch''))
            else Inr ()) (\<lambda>_.
     rbind (Operator_Validate op ch) (\<lambda>_.
     rbind (mapM (Validate X) ch) (\<lambda>_. Inr ())))"

definition AssertValid :: "'e fext \<Rightarrow> ('e::comm_ring_1, 'm) Expression \<Rightarrow> unit result" where
  "AssertValid X e = (case Validate X e of Inl (Err m) \<Rightarrow> Inl (Panic m) | r \<Rightarrow> r)"

definition Expression_Pow ::
  "('e::comm_ring_1, 'm) symenv \<Rightarrow> ('e, 'm) Expression option \<Rightarrow> int \<Rightarrow> ('e, 'm) Expression option result" where
  "Expression_Pow E e n =
     (case e of Some e \<Rightarrow> rbind (AssertValid (sx E) e) (\<lambda>_. rbind (NewProduct E [e] [n]) (\<lambda>r. Inr (Some r)))
      | None \<Rightarrow> Inr None)"

subsubsection \<open>Operands of any type\<close>

text \<open>An operand of type \<open>any\<close>: \<open>nil\<close>, an expression, a metadata, a field element, or something else.\<close>

datatype ('e, 'm) any = AnyNil | AnyExpr "('e, 'm) Expression" | AnyMeta 'm | AnyField 'e | AnyOther

fun intoExpr :: "('e::comm_ring_1, 'm) symenv \<Rightarrow> ('e, 'm) any \<Rightarrow> ('e, 'm) Expression result" where
  "intoExpr E (AnyExpr e) = Inr e"
| "intoExpr E (AnyMeta m) = Inr (NewVariable E m)"
| "intoExpr E (AnyField x) = Inr (NewConstantExpr E x)"
| "intoExpr E _ = Inl (Panic ''expected either a *Expression or a Metadata'')"

definition intoExprSlice :: "('e::comm_ring_1, 'm) symenv \<Rightarrow> ('e, 'm) any list \<Rightarrow> ('e, 'm) Expression list result" where
  "intoExprSlice E inputs = mapM (intoExpr E) inputs"

definition doesContainNil :: "('e, 'm) any list \<Rightarrow> bool" where
  "doesContainNil inputs = list_ex (\<lambda>x. case x of AnyNil \<Rightarrow> True | _ \<Rightarrow> False) inputs"

definition Sym_Add :: "('e::comm_ring_1, 'm) symenv \<Rightarrow> ('e, 'm) any list \<Rightarrow> ('e, 'm) Expression option result" where
  "Sym_Add E inputs =
     (if length inputs = 0 then Inl (Panic ''No inputs were provided'')
      else if doesContainNil inputs then Inr None
      else rbind (intoExprSlice E inputs) (\<lambda>exprs.
           rbind (NewLinComb E exprs (replicate (length exprs) 1)) (\<lambda>r. Inr (Some r))))"

definition Sym_Mul :: "('e::comm_ring_1, 'm) symenv \<Rightarrow> ('e, 'm) any list \<Rightarrow> ('e, 'm) Expression option result" where
  "Sym_Mul E inputs =
     (if length inputs = 0 then Inl (Panic ''No inputs were provided'')
      else if doesContainNil inputs then Inr None
      else rbind (intoExprSlice E inputs) (\<lambda>exprs.
           rbind (NewProduct E exprs (replicate (length exprs) 1)) (\<lambda>r. Inr (Some r))))"

definition MulNoSimplify :: "('e::comm_ring_1, 'm) symenv \<Rightarrow> ('e, 'm) any list \<Rightarrow> ('e, 'm) Expression result" where
  "MulNoSimplify E inputs =
     rbind (intoExprSlice E inputs) (\<lambda>exprs. newProductNoSimplify E exprs (replicate (length exprs) 1))"

text \<open>\<open>doesContainNil(bs)\<close> is given the slice as its only argument, which is not \<open>nil\<close>.\<close>

definition Sym_Sub :: "('e::comm_ring_1, 'm) symenv \<Rightarrow> ('e, 'm) any \<Rightarrow> ('e, 'm) any list \<Rightarrow> ('e, 'm) Expression option result" where
  "Sym_Sub E a bs =
     (if a = AnyNil \<or> doesContainNil [AnyOther :: ('e, 'm) any] then Inr None
      else rbind (intoExpr E a) (\<lambda>aExpr. rbind (intoExprSlice E bs) (\<lambda>bExpr.
           rbind (NewLinComb E (aExpr # bExpr) (1 # replicate (length bExpr) (- 1))) (\<lambda>r. Inr (Some r)))))"

definition Sym_Neg :: "('e::comm_ring_1, 'm) symenv \<Rightarrow> ('e, 'm) any \<Rightarrow> ('e, 'm) Expression option result" where
  "Sym_Neg E x = (if x = AnyNil then Inr None else rbind (intoExpr E x) (\<lambda>e. Expression_Neg E (Some e)))"

definition Sym_Square :: "('e::comm_ring_1, 'm) symenv \<Rightarrow> ('e, 'm) any \<Rightarrow> ('e, 'm) Expression option result" where
  "Sym_Square E x =
     (if x = AnyNil then Inr None
      else rbind (intoExpr E x) (\<lambda>e. rbind (NewProduct E [e] [2]) (\<lambda>r. Inr (Some r))))"

definition Sym_Pow :: "('e::comm_ring_1, 'm) symenv \<Rightarrow> ('e, 'm) any \<Rightarrow> int \<Rightarrow> ('e, 'm) Expression option result" where
  "Sym_Pow E x n =
     (if n < 0 then Inl (Panic ''Pow cannot accept negative exponent'')
      else if x = AnyNil then Inr None
      else rbind (intoExpr E x) (\<lambda>e. Expression_Pow E (Some e) n))"

subsection \<open>Rebuilding expressions\<close>

definition poly_of :: "('e::comm_ring_1, 'm) Expression list \<Rightarrow> ('e, 'm) Expression result" where
  "poly_of children = rbind (index children 0) (\<lambda>x. rbind (go_slice children 1 (llen children)) (NewPolyEval x))"

definition SameWithNewChildren ::
  "('e::comm_ring_1, 'm) symenv \<Rightarrow> ('e, 'm) Expression \<Rightarrow> ('e, 'm) Expression list \<Rightarrow> ('e, 'm) Expression result" where
  "SameWithNewChildren E e newChildren =
     (case Operator e of
        OpLinComb cs \<Rightarrow> NewLinComb E newChildren cs
      | OpProduct es \<Rightarrow> NewProduct E newChildren es
      | OpPolyEval \<Rightarrow> poly_of newChildren
      | _ \<Rightarrow> Inr e)"

definition SameWithNewChildrenNoSimplify ::
  "('e::comm_ring_1, 'm) symenv \<Rightarrow> ('e, 'm) Expression \<Rightarrow> ('e, 'm) Expression list \<Rightarrow> ('e, 'm) Expression result" where
  "SameWithNewChildrenNoSimplify E e newChildren =
     (case Operator e of
        OpLinComb cs \<Rightarrow> newLinCombNoSimplify E newChildren cs
      | OpProduct es \<Rightarrow> newProductNoSimplify E newChildren es
      | OpPolyEval \<Rightarrow> poly_of newChildren
      | _ \<Rightarrow> Inr e)"

fun Replay ::
  "('e::comm_ring_1, 'm) symenv \<Rightarrow> (('e, 'm) Expression \<Rightarrow> ('e, 'm) Expression \<Rightarrow> bool) \<Rightarrow> (string, ('e, 'm) Expression) Mapping \<Rightarrow>
   ('e, 'm) Expression \<Rightarrow> ('e, 'm) Expression result" where
  "Replay E same translationMap (Expression h ch op b) =
     (case op of
        OpConstant _ \<Rightarrow> Inr (Expression h ch op b)
      | OpVariable m \<Rightarrow>
          (case TryGet translationMap (mString E m) of None \<Rightarrow> Inr (Expression h ch op b) | Some res \<Rightarrow> Inr res)
      | _ \<Rightarrow>
          rbind (mapM (Replay E same translationMap) ch) (\<lambda>children.
          if list_all2 same children ch then Inr (Expression h ch op b)
          else SameWithNewChildren E (Expression h ch op b) children))"

fun ReconstructBottomUp ::
  "(('e, 'm) Expression \<Rightarrow> ('e, 'm) Expression list \<Rightarrow> ('e, 'm) Expression result) \<Rightarrow> ('e, 'm) Expression \<Rightarrow>
   ('e, 'm) Expression result" where
  "ReconstructBottomUp constr (Expression h ch op b) =
     (case op of
        OpConstant _ \<Rightarrow> constr (Expression h ch op b) []
      | OpVariable _ \<Rightarrow> constr (Expression h ch op b) []
      | _ \<Rightarrow> rbind (mapM (ReconstructBottomUp constr) ch) (\<lambda>children. constr (Expression h ch op b) children))"

subsection \<open>Degrees\<close>

definition Max_int :: "int list \<Rightarrow> int result" where
  "Max_int s =
     (if length s = 0 then Inl (Panic ''Got an empty list of arguments'')
      else Inr (foldl (\<lambda>m v. if m < v then v else m) (s ! 0) s))"

fun Operator_Degree :: "('e, 'm) Operator \<Rightarrow> int list \<Rightarrow> int result" where
  "Operator_Degree (OpLinComb _) inputDegrees = Max_int inputDegrees"
| "Operator_Degree (OpProduct es) inputDegrees =
     foldM (\<lambda>res (i, ex). rbind (index inputDegrees (int i)) (\<lambda>d. Inr (wrap64 (res + wrap64 (ex * d))))) 0 (enumerate 0 es)"
| "Operator_Degree OpPolyEval inputDegrees = Max_int inputDegrees"
| "Operator_Degree _ _ = Inl (Panic ''we never call it for a leaf'')"

fun Expression_Degree :: "('m \<Rightarrow> int) \<Rightarrow> ('e, 'm) Expression \<Rightarrow> int result" where
  "Expression_Degree getDegree (Expression h ch op b) =
     (case op of
        OpConstant _ \<Rightarrow> Inr 0
      | OpVariable m \<Rightarrow> Inr (getDegree m)
      | _ \<Rightarrow> rbind (mapM (Expression_Degree getDegree) ch) (Operator_Degree op))"

end
