(* ===== verification/SymbolicCorrect.thy ===== *)
theory SymbolicCorrect
  imports Symbolic
begin

text \<open>
  The constructors of symbolic expressions compute what they say: the hash of an expression is its value at the point where
  each variable has the hash of its name, and a simplified sum or product has the value of the sum or product of its operands,
  at every assignment at which operands with equal hashes have equal values. The collection and merging of the terms is proved
  once, in the locale \<open>term_action\<close>, for integer multiples under addition and for powers under multiplication.
\<close>

subsection \<open>Meaning and well-formedness\<close>

fun eval :: "('e::comm_ring_1, 'm) symenv \<Rightarrow> (string \<Rightarrow> 'e) \<Rightarrow> ('e, 'm) Expression \<Rightarrow> 'e" where
  "eval E \<rho> (Expression h ch op b) =
     (case op of
        OpConstant v \<Rightarrow> gf_Ext v
      | OpVariable m \<Rightarrow> \<rho> (mString E m)
      | OpLinComb cs \<Rightarrow> sum_list (map2 (\<lambda>x c. of_int c * x) (map (eval E \<rho>) ch) cs)
      | OpProduct es \<Rightarrow> prod_list (map2 (\<lambda>x c. x ^ nat c) (map (eval E \<rho>) ch) es)
      | OpPolyEval \<Rightarrow> (case map (eval E \<rho>) ch of x # p \<Rightarrow> Poly_Eval p x | [] \<Rightarrow> 0))"

fun expr_ok :: "('e::comm_ring_1, 'm) symenv \<Rightarrow> ('e, 'm) Expression \<Rightarrow> bool" where
  "expr_ok E (Expression h ch op b) \<longleftrightarrow>
     (\<forall>c\<in>set ch. expr_ok E c) \<and>
     (case op of
        OpConstant v \<Rightarrow> ch = [] \<and> gf_ok (sx E) v \<and> h = gf_Ext v
      | OpVariable m \<Rightarrow> ch = [] \<and> h = metadataToESH E m
      | OpLinComb cs \<Rightarrow> length cs = length ch \<and> h = sum_list (map2 (\<lambda>x c. of_int c * x) (map ESHash ch) cs)
      | OpProduct es \<Rightarrow> length es = length ch \<and> (\<forall>c\<in>set es. 0 \<le> c) \<and>
          h = prod_list (map2 (\<lambda>x c. x ^ nat c) (map ESHash ch) es)
      | OpPolyEval \<Rightarrow> 2 \<le> length ch \<and> h = Poly_Eval (tl (map ESHash ch)) (hd (map ESHash ch)))"

lemma map_cong_set: "(\<And>x. x \<in> set xs \<Longrightarrow> f x = g x) \<Longrightarrow> map f xs = map g xs"
  by simp

text \<open>The hash of an expression is its value at the hashes of the names.\<close>

lemma ESHash_eval: "expr_ok E e \<Longrightarrow> ESHash e = eval E (nameESH E) e"
proof (induction e)
  case (Expression h ch op b)
  have ch: "map ESHash ch = map (eval E (nameESH E)) ch"
    by (rule map_cong_set) (use Expression in auto)
  show ?case
  proof (cases op)
    case OpPolyEval
    then have "h = Poly_Eval (tl (map ESHash ch)) (hd (map ESHash ch))" "ch \<noteq> []" using Expression.prems by auto
    then show ?thesis unfolding ch using OpPolyEval by (cases ch) auto
  qed (use Expression.prems ch in \<open>auto simp: metadataToESH_def\<close>)
qed

text \<open>\<open>Validate\<close> accepts an expression exactly when every inner node has the hash of its operation on its children.\<close>

fun leaves_ok :: "('e::comm_ring_1, 'm) symenv \<Rightarrow> ('e, 'm) Expression \<Rightarrow> bool" where
  "leaves_ok E (Expression h ch op b) \<longleftrightarrow>
     (\<forall>c\<in>set ch. leaves_ok E c) \<and>
     (case op of
        OpConstant v \<Rightarrow> gf_ok (sx E) v \<and> h = gf_Ext v
      | OpVariable m \<Rightarrow> h = metadataToESH E m
      | OpLinComb cs \<Rightarrow> ch = [] \<longrightarrow> h = 0
      | OpProduct es \<Rightarrow> ch = [] \<longrightarrow> h = 1
      | OpPolyEval \<Rightarrow> True)"

lemma map2_swap: "map2 f xs ys = map2 (\<lambda>y x. f x y) ys xs"
  by (induction xs arbitrary: ys) (auto simp: zip_Cons1 split: list.splits)

lemma Validate_ok:
  assumes "leaves_ok E e"
  shows "Validate (sx E) e = Inr () \<longleftrightarrow> expr_ok E e"
  using assms
proof (induction e)
  case (Expression h ch op b)
  have m: "mapM (Validate (sx E)) ch = Inr (map (\<lambda>_. ()) ch) \<longleftrightarrow> (\<forall>c\<in>set ch. expr_ok E c)"
  proof -
    have "mapM (Validate (sx E)) xs = Inr (map (\<lambda>_. ()) xs) \<longleftrightarrow> (\<forall>c\<in>set xs. Validate (sx E) c = Inr ())" for xs
      by (induction xs) (auto simp: result_simps)
    then show ?thesis using Expression by auto
  qed
  have u: "(\<exists>us. mapM (Validate (sx E)) ch = Inr us) \<longleftrightarrow> mapM (Validate (sx E)) ch = Inr (map (\<lambda>_. ()) ch)"
  proof -
    have "us = map (\<lambda>_. ()) xs" if "mapM (Validate (sx E)) xs = Inr us" for us xs
      using that by (induction xs arbitrary: us) (auto simp: result_simps)
    then show ?thesis by blast
  qed
  have exp: "map2 (\<lambda>c x. fx_Exp (sx E) x c) es xs = map2 (\<lambda>x c. x ^ nat c) xs es" if "\<forall>c\<in>set es. 0 \<le> c" for es xs
    using that by (subst map2_swap) (auto simp: fx_Exp_def dest!: set_zip_rightD)
  show ?case
  proof (cases op)
    case (OpLinComb cs)
    then show ?thesis using Expression.prems m u
      by (cases "ch = []") (auto simp: result_simps map2_swap [of _ cs])
  next
    case (OpProduct es)
    then show ?thesis using Expression.prems m u exp [of es "map ESHash ch"]
      by (cases "ch = []") (auto simp: result_simps list_all_iff not_less)
  next
    case OpPolyEval
    then show ?thesis using Expression.prems m u
      by (cases ch) (auto simp: result_simps Suc_le_eq)
  qed (use Expression.prems m u in \<open>auto simp: result_simps\<close>)
qed

subsection \<open>Collecting terms\<close>

lemma find_hash_iff:
  "find_hash h items = Some i \<Longrightarrow> i < length items \<and> ESHash (items ! i) = h"
  "find_hash h items = None \<longleftrightarrow> h \<notin> ESHash ` set items"
  by (induction items arbitrary: i) (auto split: if_splits)

lemma find_hash_append:
  "find_hash h (items @ [it]) = (case find_hash h items of Some i \<Rightarrow> Some i | None \<Rightarrow> if ESHash it = h then Some (length items) else None)"
  by (induction items) (auto split: option.splits)

lemma itemMap_snoc: "itemMap_of (items @ [it]) = (itemMap_of items)(ESHash it \<mapsto> length items)"
  by (simp add: itemMap_of_def enumerate_append_eq)

lemma itemMap_find: "distinct (map ESHash items) \<Longrightarrow> itemMap_of items = (\<lambda>h. find_hash h items)"
proof (induction items rule: rev_induct)
  case (snoc it items)
  then have "find_hash (ESHash it) items = None" by (auto simp: find_hash_iff)
  then show ?case using snoc by (auto simp: itemMap_snoc find_hash_append fun_eq_iff split: option.splits)
qed (simp add: itemMap_of_def fun_eq_iff)

text \<open>The index agrees with the scan, the hashes are distinct, and the coefficients have absolute values of sum at most \<open>w\<close>.\<close>

definition weight :: "int list \<Rightarrow> int" where
  "weight ns = (\<Sum>n\<leftarrow>ns. \<bar>n\<bar>)"

definition terms_ok :: "('e, 'm) terms \<Rightarrow> bool" where
  "terms_ok ts \<longleftrightarrow> length (t_nums ts) = length (t_items ts) \<and> distinct (map ESHash (t_items ts)) \<and>
     (\<forall>m. t_map ts = Some m \<longrightarrow> m = (\<lambda>h. find_hash h (t_items ts)))"

text \<open>Merging is one of two actions, whether or not the index is in use.\<close>

lemma merge_term_cases:
  assumes "terms_ok ts"
  shows "(case find_hash (ESHash item) (t_items ts) of
      Some i \<Rightarrow> t_items (merge_term ts item c) = t_items ts \<and> t_nums (merge_term ts item c) = add_at (t_nums ts) i c
    | None \<Rightarrow> t_items (merge_term ts item c) = t_items ts @ [item] \<and> t_nums (merge_term ts item c) = t_nums ts @ [c])"
    and "terms_ok (merge_term ts item c)"
proof -
  let ?F = "\<lambda>h. find_hash h (t_items ts)"
  define tm where "tm = (case t_map ts of Some m \<Rightarrow> Some m
      | None \<Rightarrow> if length (t_items ts) \<ge> 16 then Some (itemMap_of (t_items ts)) else None)"
  have tm: "tm = None \<and> t_map ts = None \<or> tm = Some ?F"
    using assms by (auto simp: terms_ok_def tm_def itemMap_find split: option.splits)
  have snoc: "(\<lambda>h. find_hash h (t_items ts @ [item])) = ?F(ESHash item \<mapsto> length (t_items ts))" if "?F (ESHash item) = None"
    using that by (auto simp: find_hash_append fun_eq_iff split: option.splits)
  have merge: "merge_term ts item c = (case tm of
       Some m \<Rightarrow> (case m (ESHash item) of
            Some idx \<Rightarrow> ts\<lparr>t_nums := add_at (t_nums ts) idx c, t_map := tm\<rparr>
          | None \<Rightarrow> \<lparr>t_items = t_items ts @ [item], t_nums = t_nums ts @ [c], t_map = Some (m(ESHash item \<mapsto> length (t_items ts)))\<rparr>)
     | None \<Rightarrow> (case ?F (ESHash item) of
            Some idx \<Rightarrow> ts\<lparr>t_nums := add_at (t_nums ts) idx c\<rparr>
          | None \<Rightarrow> ts\<lparr>t_items := t_items ts @ [item], t_nums := t_nums ts @ [c]\<rparr>))"
    unfolding tm_def merge_term_def Let_def ..
  show "case ?F (ESHash item) of
      Some i \<Rightarrow> t_items (merge_term ts item c) = t_items ts \<and> t_nums (merge_term ts item c) = add_at (t_nums ts) i c
    | None \<Rightarrow> t_items (merge_term ts item c) = t_items ts @ [item] \<and> t_nums (merge_term ts item c) = t_nums ts @ [c]"
    using tm by (auto simp: merge split: option.splits)
  have "distinct (map ESHash (t_items ts @ [item]))" if "?F (ESHash item) = None"
    using that assms by (auto simp: terms_ok_def find_hash_iff)
  then show "terms_ok (merge_term ts item c)"
    using assms tm snoc
    by (cases "?F (ESHash item)"; elim disjE) (simp_all add: merge terms_ok_def add_at_def)
qed

lemma weight_append [simp]: "weight (xs @ ys) = weight xs + weight ys" "weight [] = 0" "weight (n # xs) = \<bar>n\<bar> + weight xs"
  by (simp_all add: weight_def)

lemma weight_nth: "i < length ns \<Longrightarrow> \<bar>ns ! i\<bar> \<le> weight ns" and weight_nonneg: "0 \<le> weight ns"
proof -
  show "0 \<le> weight ns" for ns by (induction ns) auto
  then show "i < length ns \<Longrightarrow> \<bar>ns ! i\<bar> \<le> weight ns"
  proof (induction ns arbitrary: i)
    case (Cons n ns)
    then show ?case using \<open>0 \<le> weight ns\<close> by (cases i) fastforce+
  qed simp
qed

lemma weight_update: "i < length ns \<Longrightarrow> weight (ns[i := x]) = weight ns - \<bar>ns ! i\<bar> + \<bar>x\<bar>"
  by (induction ns arbitrary: i) (auto split: nat.splits)

lemma add_at_small:
  assumes "i < length ns" "weight ns + \<bar>c\<bar> < 2 ^ 63"
  shows "add_at ns i c = ns[i := ns ! i + c]" "weight (add_at ns i c) \<le> weight ns + \<bar>c\<bar>"
proof -
  have "\<bar>ns ! i + c\<bar> < 2 ^ 63" using weight_nth [OF assms(1)] assms(2) by linarith
  then have "is_int64 (ns ! i + c)" by (auto simp: is_int64_def)
  then show eq: "add_at ns i c = ns[i := ns ! i + c]" by (simp add: add_at_def)
  show "weight (add_at ns i c) \<le> weight ns + \<bar>c\<bar>" by (simp add: eq weight_update assms(1))
qed

subsection \<open>Integer multiples and powers\<close>

definition agg ::
  "('e \<Rightarrow> 'e \<Rightarrow> 'e) \<Rightarrow> 'e \<Rightarrow> (int \<Rightarrow> 'e \<Rightarrow> 'e) \<Rightarrow> ('x \<Rightarrow> 'e) \<Rightarrow> 'x list \<Rightarrow> int list \<Rightarrow> 'e" where
  "agg comb unt act f its ns = foldr comb (map2 (\<lambda>it n. act n (f it)) its ns) unt"

lemma agg_simps [simp]:
  "agg comb unt act f [] ns = unt" "agg comb unt act f its [] = unt"
  "agg comb unt act f (it # its) (n # ns) = comb (act n (f it)) (agg comb unt act f its ns)"
  by (simp_all add: agg_def)

locale term_action = comm_monoid comb unt
  for comb :: "'e::comm_ring_1 \<Rightarrow> 'e \<Rightarrow> 'e" and unt :: 'e +
  fixes act :: "int \<Rightarrow> 'e \<Rightarrow> 'e" and pos :: "int \<Rightarrow> bool"
  assumes act_add: "pos a \<Longrightarrow> pos b \<Longrightarrow> act (a + b) x = comb (act a x) (act b x)"
    and act_mult: "pos a \<Longrightarrow> pos b \<Longrightarrow> act (a * b) x = act a (act b x)"
    and act_comb: "act a (comb x y) = comb (act a x) (act a y)"
    and act_unit: "act a unt = unt" "act 0 x = unt" "act 1 x = x"
    and pos_closed: "pos a \<Longrightarrow> pos b \<Longrightarrow> pos (a + b)" "pos a \<Longrightarrow> pos b \<Longrightarrow> pos (a * b)"
begin

lemma agg_snoc:
  "length its = length ns \<Longrightarrow> agg comb unt act f (its @ [it]) (ns @ [c]) = comb (agg comb unt act f its ns) (act c (f it))"
  by (induction its ns rule: list_induct2) (simp_all add: assoc)

lemma agg_update:
  assumes "length its = length ns" "i < length ns" "pos (ns ! i)" "pos c"
  shows "agg comb unt act f its (ns[i := ns ! i + c]) = comb (agg comb unt act f its ns) (act c (f (its ! i)))"
  using assms
proof (induction its ns arbitrary: i rule: list_induct2)
  case (Cons it its n ns)
  show ?case
  proof (cases i)
    case 0
    then show ?thesis using Cons.prems by (simp add: act_add ac_simps)
  next
    case (Suc j)
    then show ?thesis using Cons by (simp add: assoc)
  qed
qed simp

lemma agg_nonzero: "agg comb unt act f (map fst (filter (\<lambda>(it, c). c \<noteq> 0) (zip its ns))) (map snd (filter (\<lambda>(it, c). c \<noteq> 0) (zip its ns))) =
    agg comb unt act f its ns"
proof (induction its arbitrary: ns)
  case (Cons it its)
  then show ?case by (cases ns) (auto simp: act_unit)
qed simp

lemma act_agg: "length its = length ns \<Longrightarrow> pos a \<Longrightarrow> \<forall>n\<in>set ns. pos n \<Longrightarrow>
    act a (agg comb unt act f its ns) = agg comb unt act f its (map ((*) a) ns)"
  by (induction its ns rule: list_induct2) (simp_all add: act_unit act_comb act_mult)

text \<open>What has been collected: the constant and the terms combine to \<open>tot\<close>, with at most \<open>w\<close> of the coefficients spent.\<close>

definition collected ::
  "'e fext \<Rightarrow> (('e, 'm) Expression \<Rightarrow> 'e) \<Rightarrow> ('e, 'm) Expression set \<Rightarrow> int \<Rightarrow> 'e \<Rightarrow> 'e GenericFieldElem \<times> ('e, 'm) terms \<Rightarrow> bool" where
  "collected X f T w tot st \<longleftrightarrow>
     gf_ok X (fst st) \<and> terms_ok (snd st) \<and> weight (t_nums (snd st)) \<le> w \<and> (\<forall>n\<in>set (t_nums (snd st)). pos n) \<and>
     set (t_items (snd st)) \<subseteq> T \<and> comb (gf_Ext (fst st)) (agg comb unt act f (t_items (snd st)) (t_nums (snd st))) = tot"

lemma collected_constant:
  assumes "collected X f T w tot st" "gf_ok X acc" "gf_Ext acc = comb (gf_Ext (fst st)) x"
  shows "collected X f T w (comb tot x) (acc, snd st)"
proof -
  have "comb (comb (gf_Ext (fst st)) x) y = comb (comb (gf_Ext (fst st)) y) x" for y by (simp add: ac_simps)
  then show ?thesis using assms by (auto simp: collected_def)
qed

lemma collected_merge:
  assumes "collected X f T w tot st" "item \<in> T" "pos c" "w + \<bar>c\<bar> < 2 ^ 63"
    "\<forall>a\<in>T. \<forall>b\<in>T. ESHash a = ESHash b \<longrightarrow> f a = f b"
  shows "collected X f T (w + \<bar>c\<bar>) (comb tot (act c (f item))) (fst st, merge_term (snd st) item c)"
proof -
  define ts where "ts = snd st"
  let ?ts = "merge_term ts item c"
  have ok: "terms_ok ts" "weight (t_nums ts) \<le> w" "\<forall>n\<in>set (t_nums ts). pos n" "set (t_items ts) \<subseteq> T"
    and len: "length (t_items ts) = length (t_nums ts)" and g: "gf_ok X (fst st)"
    and teq: "comb (gf_Ext (fst st)) (agg comb unt act f (t_items ts) (t_nums ts)) = tot"
    using assms(1) by (auto simp: collected_def ts_def terms_ok_def)
  have w: "weight (t_nums ts) + \<bar>c\<bar> < 2 ^ 63" using ok(2) assms(4) by linarith
  note ts' = merge_term_cases [OF ok(1), of item c]
  have "agg comb unt act f (t_items ?ts) (t_nums ?ts) = comb (agg comb unt act f (t_items ts) (t_nums ts)) (act c (f item)) \<and>
      weight (t_nums ?ts) \<le> w + \<bar>c\<bar> \<and> (\<forall>n\<in>set (t_nums ?ts). pos n) \<and> set (t_items ?ts) \<subseteq> T"
  proof (cases "find_hash (ESHash item) (t_items ts)")
    case None
    then show ?thesis using ts'(1) ok len assms(2,3) by (simp add: agg_snoc)
  next
    case (Some i)
    have i: "i < length (t_nums ts)" "ESHash (t_items ts ! i) = ESHash item" using find_hash_iff(1) [OF Some] len by simp_all
    then have "f (t_items ts ! i) = f item" using assms(2,5) ok(4) len by (metis nth_mem subsetD)
    moreover have "pos (t_nums ts ! i)" using ok(3) i(1) by simp
    moreover have "pos (t_nums ts ! i + c)" using pos_closed(1) calculation(2) assms(3) by blast
    ultimately show ?thesis
      using ts'(1) Some ok len i(1) assms(3) add_at_small [OF i(1) w] agg_update [OF len i(1)]
      by (auto dest!: set_update_subset_insert [THEN subsetD])
  qed
  then show ?thesis using ts'(2) g teq by (simp add: collected_def flip: ts_def) (simp flip: teq add: assoc)
qed

text \<open>Flattening a nested node: its grandchildren are added with the multiplied coefficients.\<close>

lemma collected_nested:
  assumes "collected X f T w tot st" "length ch = length cs" "set ch \<subseteq> T" "pos a" "\<forall>n\<in>set cs. pos n"
    "w + \<bar>a\<bar> * weight cs < 2 ^ 63"
    "\<And>st w tot gc c. collected X f T w tot st \<Longrightarrow> gc \<in> T \<Longrightarrow> pos c \<Longrightarrow> w + \<bar>c\<bar> < 2 ^ 63 \<Longrightarrow>
       collected X f T (w + \<bar>c\<bar>) (comb tot (act c (f gc))) (add st gc c)"
  shows "\<exists>st'. foldM (\<lambda>st (k, gc). rbind (index cs (int k)) (\<lambda>ck. Inr (add st gc (wrap64 (a * ck))))) st (enumerate 0 ch) = Inr st' \<and>
    collected X f T (w + \<bar>a\<bar> * weight cs) (comb tot (act a (agg comb unt act f ch cs))) st'"
proof -
  let ?g = "\<lambda>st (k, gc). rbind (index cs (int k)) (\<lambda>ck. Inr (add st gc (wrap64 (a * ck))))"
  have "\<exists>st'. foldM ?g st (enumerate 0 (take m ch)) = Inr st' \<and>
      collected X f T (w + \<bar>a\<bar> * weight (take m cs)) (comb tot (act a (agg comb unt act f (take m ch) (take m cs)))) st'"
    if "m \<le> length ch" for m
    using that
  proof (induction m)
    case 0
    then show ?case using assms(1) by (simp add: act_unit)
  next
    case (Suc m)
    then obtain s where s: "foldM ?g st (enumerate 0 (take m ch)) = Inr s"
      "collected X f T (w + \<bar>a\<bar> * weight (take m cs)) (comb tot (act a (agg comb unt act f (take m ch) (take m cs)))) s" by auto
    have m: "m < length ch" "m < length cs" using Suc.prems assms(2) by auto
    have takes: "take (Suc m) ch = take m ch @ [ch ! m]" "take (Suc m) cs = take m cs @ [cs ! m]"
      using m by (simp_all add: take_Suc_conv_app_nth)
    have le: "weight (take (Suc m) cs) \<le> weight cs"
      using weight_append(1) [of "take (Suc m) cs" "drop (Suc m) cs"] weight_nonneg [of "drop (Suc m) cs"] by simp
    then have "w + \<bar>a\<bar> * weight (take (Suc m) cs) < 2 ^ 63"
      using assms(6) mult_left_mono [OF le, of "\<bar>a\<bar>"] by linarith
    then have b: "w + \<bar>a\<bar> * weight (take m cs) + \<bar>a * cs ! m\<bar> < 2 ^ 63" by (simp add: takes algebra_simps abs_mult)
    have "0 \<le> w + \<bar>a\<bar> * weight (take m cs)" using s(2) weight_nonneg by (auto simp: collected_def intro: order_trans)
    then have "is_int64 (a * cs ! m)" using b by (auto simp: is_int64_def)
    then have wrap: "wrap64 (a * cs ! m) = a * cs ! m" by simp
    have p: "pos (cs ! m)" using assms(5) m by simp
    then have "collected X f T (w + \<bar>a\<bar> * weight (take m cs) + \<bar>a * cs ! m\<bar>)
        (comb (comb tot (act a (agg comb unt act f (take m ch) (take m cs)))) (act (a * cs ! m) (f (ch ! m)))) (add s (ch ! m) (a * cs ! m))"
      using assms(3,4) m b by (intro assms(7) [OF s(2)] pos_closed(2)) auto
    then have "collected X f T (w + \<bar>a\<bar> * weight (take (Suc m) cs))
        (comb tot (act a (agg comb unt act f (take (Suc m) ch) (take (Suc m) cs)))) (add s (ch ! m) (a * cs ! m))"
      using m assms(2,4) p by (simp add: takes agg_snoc act_comb act_mult assoc algebra_simps abs_mult)
    moreover have "foldM ?g st (enumerate 0 (take (Suc m) ch)) = Inr (add s (ch ! m) (a * cs ! m))"
      using s(1) m wrap by (simp add: takes enumerate_append_eq foldM_append index_nat)
    ultimately show ?case by blast
  qed
  from this [of "length ch"] show ?thesis using assms(2) by simp
qed

end

interpretation sums: term_action "(+)" "0 :: 'e::comm_ring_1" "\<lambda>c x. of_int c * x" "\<lambda>_. True"
  by unfold_locales (simp_all add: algebra_simps)

interpretation powers: term_action "(*)" "1 :: 'e::comm_ring_1" "\<lambda>c x. x ^ nat c" "\<lambda>c. 0 \<le> c"
  by unfold_locales (simp_all add: power_add nat_add_distrib nat_mult_distrib power_mult_distrib mult.commute flip: power_mult)

abbreviation lin_agg :: "('x \<Rightarrow> 'e::comm_ring_1) \<Rightarrow> 'x list \<Rightarrow> int list \<Rightarrow> 'e" where
  "lin_agg \<equiv> agg (+) 0 (\<lambda>c x. of_int c * x)"

abbreviation prod_agg :: "('x \<Rightarrow> 'e::comm_ring_1) \<Rightarrow> 'x list \<Rightarrow> int list \<Rightarrow> 'e" where
  "prod_agg \<equiv> agg (*) 1 (\<lambda>c x. x ^ nat c)"

lemma agg_lists:
  "lin_agg f its ns = sum_list (map2 (\<lambda>x c. of_int c * x) (map f its) ns)"
  "prod_agg f its ns = prod_list (map2 (\<lambda>x c. x ^ nat c) (map f its) ns)"
proof -
  show "lin_agg f its ns = sum_list (map2 (\<lambda>x c. of_int c * x) (map f its) ns)"
    by (induction its arbitrary: ns) (auto simp: agg_def zip_Cons1 split: list.splits)
  show "prod_agg f its ns = prod_list (map2 (\<lambda>x c. x ^ nat c) (map f its) ns)"
    by (induction its arbitrary: ns) (auto simp: agg_def zip_Cons1 split: list.splits)
qed

text \<open>What hashes and values have in common.\<close>

definition valuation :: "('e::comm_ring_1, 'm) symenv \<Rightarrow> (('e, 'm) Expression \<Rightarrow> 'e) \<Rightarrow> bool" where
  "valuation E f \<longleftrightarrow> (\<forall>e. expr_ok E e \<longrightarrow>
     (\<forall>v. Operator e = OpConstant v \<longrightarrow> f e = gf_Ext v) \<and>
     (\<forall>cs. Operator e = OpLinComb cs \<longrightarrow> f e = lin_agg f (Children e) cs) \<and>
     (\<forall>es. Operator e = OpProduct es \<longrightarrow> f e = prod_agg f (Children e) es))"

lemma valuationD:
  assumes "valuation E f" "expr_ok E e"
  shows "Operator e = OpConstant v \<Longrightarrow> f e = gf_Ext v" "Operator e = OpLinComb cs \<Longrightarrow> f e = lin_agg f (Children e) cs"
    "Operator e = OpProduct cs \<Longrightarrow> f e = prod_agg f (Children e) cs"
  using assms unfolding valuation_def by blast+

lemma valuation_hash: "valuation E ESHash"
  unfolding valuation_def
proof (intro allI impI)
  fix e assume "expr_ok E e"
  then show "(\<forall>v. Operator e = OpConstant v \<longrightarrow> ESHash e = gf_Ext v) \<and>
     (\<forall>cs. Operator e = OpLinComb cs \<longrightarrow> ESHash e = lin_agg ESHash (Children e) cs) \<and>
     (\<forall>es. Operator e = OpProduct es \<longrightarrow> ESHash e = prod_agg ESHash (Children e) es)"
    by (cases e) (auto simp: agg_lists)
qed

lemma valuation_eval: "valuation E (eval E \<rho>)"
  unfolding valuation_def
proof (intro allI impI)
  fix e assume "expr_ok E e"
  then show "(\<forall>v. Operator e = OpConstant v \<longrightarrow> eval E \<rho> e = gf_Ext v) \<and>
     (\<forall>cs. Operator e = OpLinComb cs \<longrightarrow> eval E \<rho> e = lin_agg (eval E \<rho>) (Children e) cs) \<and>
     (\<forall>es. Operator e = OpProduct es \<longrightarrow> eval E \<rho> e = prod_agg (eval E \<rho>) (Children e) es)"
    by (cases e) (auto simp: agg_lists)
qed

text \<open>Terms with equal hashes have equal values.\<close>

definition faithful :: "(('e, 'm) Expression \<Rightarrow> 'v) \<Rightarrow> ('e, 'm) Expression set \<Rightarrow> bool" where
  "faithful f T \<longleftrightarrow> (\<forall>a\<in>T. \<forall>b\<in>T. ESHash a = ESHash b \<longrightarrow> f a = f b)"

lemma faithful_hash [simp]: "faithful ESHash T"
  by (simp add: faithful_def)

subsection \<open>Sums\<close>

fun lin_parts :: "('e, 'm) Expression \<Rightarrow> ('e, 'm) Expression set" where
  "lin_parts (Expression h ch (OpLinComb cs) b) = set ch"
| "lin_parts e = {e}"

fun lin_weight :: "('e, 'm) Expression \<Rightarrow> int" where
  "lin_weight (Expression h ch (OpLinComb cs) b) = weight cs"
| "lin_weight e = 1"

definition lin_total :: "('e, 'm) Expression list \<Rightarrow> int list \<Rightarrow> int" where
  "lin_total items cs = (\<Sum>(it, c)\<leftarrow>zip items cs. \<bar>c\<bar> * lin_weight it)"

lemma collected_mono: "sums.collected X f T w tot st \<Longrightarrow> w \<le> w' \<Longrightarrow> sums.collected X f T w' tot st"
  "powers.collected X f T w tot st \<Longrightarrow> w \<le> w' \<Longrightarrow> powers.collected X f T w' tot st"
  by (auto simp: sums.collected_def powers.collected_def)

lemma lin_addTerm_ok:
  assumes "fext_ok (sx E)" "valuation E f" "faithful f T" "\<forall>a\<in>T. expr_ok E a"
    "sums.collected (sx E) f T w tot st" "item \<in> T" "w + \<bar>c\<bar> < 2 ^ 63"
  shows "sums.collected (sx E) f T (w + \<bar>c\<bar>) (tot + of_int c * f item) (lin_addTerm E st item c)"
proof (cases "c = 0")
  case True
  then show ?thesis using assms(5) by (simp add: lin_addTerm_def)
next
  case False
  have ok: "expr_ok E item" using assms(4,6) by blast
  have merge: ?thesis if "lin_addTerm E st item c = (fst st, merge_term (snd st) item c)"
    unfolding that by (rule sums.collected_merge [OF assms(5,6) TrueI assms(7) assms(3) [unfolded faithful_def]])
  show ?thesis
  proof (cases "Operator item")
    case (OpConstant v)
    have v: "f item = gf_Ext v" by (rule valuationD(1) [OF assms(2) ok OpConstant])
    have g: "gf_ok (sx E) v" using ok OpConstant by (cases item) auto
    let ?t = "Gf_Mul (sx E) (Gf_SetInt64 gf_var c) v"
    have t: "gf_ok (sx E) ?t" "gf_Ext ?t = of_int c * gf_Ext v"
      using Gf_Mul_ok [OF assms(1) Gf_simple_ok(1) [OF assms(1)] g] Gf_simple_ok(2) [OF assms(1)] by simp_all
    have "gf_ok (sx E) (fst st)" using assms(5) by (simp add: sums.collected_def)
    note acc = Gf_Add_ok [OF assms(1) this t(1)]
    have "sums.collected (sx E) f T w (tot + of_int c * f item) (Gf_Add (fst st) ?t, snd st)"
      by (rule sums.collected_constant [OF assms(5) acc(1)]) (simp add: acc(2) t(2) v)
    from collected_mono(1) [OF this, of "w + \<bar>c\<bar>"] show ?thesis using OpConstant False by (simp add: lin_addTerm_def)
  qed (use False merge in \<open>simp_all add: lin_addTerm_def\<close>)
qed

lemma lin_item_ok:
  assumes "fext_ok (sx E)" "valuation E f" "faithful f T" "\<forall>a\<in>T. expr_ok E a"
    "sums.collected (sx E) f T w tot st" "expr_ok E item" "lin_parts item \<subseteq> T" "w + \<bar>c\<bar> * lin_weight item < 2 ^ 63"
  shows "\<exists>st'. lin_item E st (item, c) = Inr st' \<and> sums.collected (sx E) f T (w + \<bar>c\<bar> * lin_weight item) (tot + of_int c * f item) st'"
proof (cases "c = 0")
  case True
  then show ?thesis using assms(5) by (simp add: lin_item_def)
next
  case False
  obtain h ch op b where item: "item = Expression h ch op b" by (cases item)
  show ?thesis
  proof (cases "\<exists>cs. op = OpLinComb cs")
    case True
    then obtain cs where cs: "op = OpLinComb cs" by blast
    have len: "length ch = length cs" and parts: "set ch \<subseteq> T" and w: "w + \<bar>c\<bar> * weight cs < 2 ^ 63"
      using assms(6-8) item cs by auto
    have v: "f item = lin_agg f ch cs" using valuationD(2) [OF assms(2,6), of cs] item cs by simp
    have "\<exists>st'. foldM (\<lambda>st (k, gc). rbind (index cs (int k)) (\<lambda>ck. Inr (lin_addTerm E st gc (wrap64 (c * ck))))) st (enumerate 0 ch) = Inr st' \<and>
        sums.collected (sx E) f T (w + \<bar>c\<bar> * weight cs) (tot + of_int c * lin_agg f ch cs) st'"
      by (rule sums.collected_nested [OF assms(5) len parts TrueI _ w lin_addTerm_ok [OF assms(1-4)]]) simp_all
    then show ?thesis using False item cs v by (simp add: lin_item_def)
  next
    case nested: False
    then have "item \<in> T" "lin_weight item = 1" using assms(7) item by (cases op; simp)+
    then show ?thesis using lin_addTerm_ok [OF assms(1-5), of item c] assms(8) False nested item
      by (cases op) (auto simp: lin_item_def)
  qed
qed

lemma lin_weight_nonneg: "0 \<le> lin_weight it"
  by (cases it rule: lin_weight.cases) (simp_all add: weight_nonneg)

lemma lin_total_simps [simp]:
  "lin_total [] cs = 0" "lin_total (it # items) (c # cs) = \<bar>c\<bar> * lin_weight it + lin_total items cs"
  by (simp_all add: lin_total_def)

lemma lin_total_nonneg: "0 \<le> lin_total items cs"
proof (induction items arbitrary: cs)
  case (Cons it items)
  then show ?case by (cases cs) (auto simp: lin_weight_nonneg lin_total_def)
qed simp

lemma lin_loop:
  assumes "fext_ok (sx E)" "valuation E f" "faithful f T" "\<forall>a\<in>T. expr_ok E a" "length items = length cs"
    "sums.collected (sx E) f T w tot st" "\<forall>it\<in>set items. expr_ok E it \<and> lin_parts it \<subseteq> T" "w + lin_total items cs < 2 ^ 63"
  shows "\<exists>st'. foldM (lin_item E) st (zip items cs) = Inr st' \<and>
    sums.collected (sx E) f T (w + lin_total items cs) (tot + lin_agg f items cs) st'"
  using assms(5-8)
proof (induction items cs arbitrary: w tot st rule: list_induct2)
  case (Cons it items c cs)
  have "w + \<bar>c\<bar> * lin_weight it < 2 ^ 63" using Cons.prems(3) lin_total_nonneg [of items cs] by simp
  moreover have "expr_ok E it" "lin_parts it \<subseteq> T" using Cons.prems(2) by simp_all
  ultimately obtain s where s: "lin_item E st (it, c) = Inr s"
    "sums.collected (sx E) f T (w + \<bar>c\<bar> * lin_weight it) (tot + of_int c * f it) s"
    using lin_item_ok [OF assms(1-4) Cons.prems(1)] by blast
  from Cons.IH [OF s(2)] Cons.prems show ?case by (simp add: s(1) algebra_simps)
qed simp

lemma finish_terms_parts:
  assumes "finish_terms E neutral acc ts = (its, ns)" "length (t_nums ts) = length (t_items ts)"
  shows "length its = length ns" "\<forall>n\<in>set ns. n \<noteq> 0 \<and> (n = 1 \<or> n \<in> set (t_nums ts))"
    "set its \<subseteq> insert (NewConstantExpr E (gf_Ext acc)) (set (t_items ts))"
  using assms by (auto simp: finish_terms_def Let_def elim!: in_set_zipE split: if_splits)

lemma NewConstantExpr_ok:
  assumes "fext_ok (sx E)"
  shows "expr_ok E (NewConstantExpr E x)" "valuation E f \<Longrightarrow> f (NewConstantExpr E x) = x"
proof -
  show ok: "expr_ok E (NewConstantExpr E x)" using Gf_simple_ok(7,8) [OF assms] by (simp add: NewConstantExpr_def)
  assume "valuation E f"
  from valuationD(1) [OF this ok] show "f (NewConstantExpr E x) = x"
    using Gf_simple_ok(8) [OF assms] by (simp add: NewConstantExpr_def)
qed

lemma simplifyLinComb_ok:
  assumes "fext_ok (sx E)" "valuation E f" "length items = length cs" "\<forall>it\<in>set items. expr_ok E it" "lin_total items cs < 2 ^ 63"
    "faithful f (\<Union>(lin_parts ` set items))"
  shows "\<exists>its ns. simplifyLinComb E items cs = Inr (its, ns) \<and> length its = length ns \<and> (\<forall>it\<in>set its. expr_ok E it) \<and>
    lin_agg f its ns = lin_agg f items cs"
proof -
  let ?T = "\<Union>(lin_parts ` set items)"
  have T: "\<forall>a\<in>?T. expr_ok E a"
  proof safe
    fix it a assume "it \<in> set items" "a \<in> lin_parts it"
    then show "expr_ok E a" using assms(4) by (cases it rule: lin_parts.cases) auto
  qed
  have "sums.collected (sx E) f ?T 0 0 (GenericFieldZero, no_terms)"
    using Gf_simple_ok(5,6) [OF assms(1)] by (simp add: sums.collected_def no_terms_def terms_ok_def)
  from lin_loop [OF assms(1,2,6) T assms(3) this, of] assms(4,5) obtain acc ts where
    st: "foldM (lin_item E) (GenericFieldZero, no_terms) (zip items cs) = Inr (acc, ts)"
    "sums.collected (sx E) f ?T (lin_total items cs) (lin_agg f items cs) (acc, ts)" by fastforce
  obtain its ns where fin: "finish_terms E (Gf_IsZero acc) acc ts = (its, ns)" by fastforce
  have c: "gf_ok (sx E) acc" "terms_ok ts" "set (t_items ts) \<subseteq> ?T" "gf_Ext acc + lin_agg f (t_items ts) (t_nums ts) = lin_agg f items cs"
    using st(2) by (simp_all add: sums.collected_def)
  then have len: "length (t_items ts) = length (t_nums ts)" by (simp add: terms_ok_def)
  note parts = finish_terms_parts [OF fin len [symmetric]]
  have zero: "Gf_IsZero acc \<longleftrightarrow> gf_Ext acc = 0" by (rule Gf_tests(1) [OF assms(1) c(1) c(1)])
  have "lin_agg f its ns = lin_agg f items cs"
  proof (cases "gf_Ext acc = 0")
    case True
    then have "lin_agg f its ns = lin_agg f (t_items ts) (t_nums ts)"
      using fin zero sums.agg_nonzero [of f "t_items ts" "t_nums ts"] by (auto simp: finish_terms_def Let_def)
    then show ?thesis using c(4) True by simp
  next
    case False
    have "lin_agg f its ns = lin_agg f (t_items ts @ [NewConstantExpr E (gf_Ext acc)]) (t_nums ts @ [1])"
      using fin zero False sums.agg_nonzero [of f "t_items ts @ [NewConstantExpr E (gf_Ext acc)]" "t_nums ts @ [1]"] len
      by (auto simp: finish_terms_def Let_def)
    also have "\<dots> = lin_agg f (t_items ts) (t_nums ts) + gf_Ext acc"
      using len NewConstantExpr_ok(2) [OF assms(1,2)] by (simp add: sums.agg_snoc)
    finally show ?thesis using c(4) by (simp add: add.commute)
  qed
  moreover have "simplifyLinComb E items cs = Inr (its, ns)" using st(1) fin assms(3) by (simp add: simplifyLinComb_def)
  moreover have "\<forall>it\<in>set its. expr_ok E it" using parts(3) c(3) T NewConstantExpr_ok(1) [OF assms(1)] by blast
  ultimately show ?thesis using parts(1) by blast
qed

lemma newLinCombNoSimplify_ok:
  assumes "length items = length cs"
  shows "newLinCombNoSimplify E items cs = Inr (Expression (lin_agg ESHash items cs) items (OpLinComb cs) (computeIsBaseFromChildren items))"
proof -
  let ?g = "\<lambda>esh (i, it). rbind (index cs (int i)) (\<lambda>c. Inr (esh + ESHash it * of_int c))"
  have "foldM ?g 0 (enumerate 0 (take m items)) = Inr (lin_agg ESHash (take m items) (take m cs))" if "m \<le> length items" for m
    using that
  proof (induction m)
    case (Suc m)
    then have m: "m < length items" "m < length cs" using assms by auto
    then show ?case
      using Suc assms by (simp add: take_Suc_conv_app_nth enumerate_append_eq foldM_append index_nat sums.agg_snoc mult.commute [of "ESHash (items ! m)"])
  qed simp
  from this [of "length items"] show ?thesis using assms by (simp add: newLinCombNoSimplify_def)
qed

lemma expr_ok_LinComb:
  "length items = length cs \<Longrightarrow> \<forall>it\<in>set items. expr_ok E it \<Longrightarrow> expr_ok E (Expression (lin_agg ESHash items cs) items (OpLinComb cs) b)"
  by (simp add: agg_lists)

lemma length_one: "length xs = 1 \<Longrightarrow> length ys = 1 \<Longrightarrow> ys ! 0 = (1::int) \<Longrightarrow> lin_agg f xs ys = f (xs ! 0) \<and> prod_agg f xs ys = f (xs ! 0)"
  by (cases xs; cases ys) auto

text \<open>A sum built by \<open>NewLinComb\<close> is well formed and has the value of the sum of its operands.\<close>

lemma NewLinComb_ok:
  assumes "fext_ok (sx E)" "length items = length cs" "\<forall>it\<in>set items. expr_ok E it" "lin_total items cs < 2 ^ 63"
  shows "\<exists>r. NewLinComb E items cs = Inr r \<and> expr_ok E r \<and> ESHash r = lin_agg ESHash items cs \<and>
    (\<forall>f. valuation E f \<longrightarrow> faithful f (\<Union>(lin_parts ` set items)) \<longrightarrow> f r = lin_agg f items cs)"
proof -
  obtain its ns where s: "simplifyLinComb E items cs = Inr (its, ns)" "length its = length ns" "\<forall>it\<in>set its. expr_ok E it"
    "lin_agg ESHash its ns = lin_agg ESHash items cs"
    using simplifyLinComb_ok [OF assms(1) valuation_hash assms(2-4) faithful_hash] by blast
  have val: "lin_agg f its ns = lin_agg f items cs" if "valuation E f" "faithful f (\<Union>(lin_parts ` set items))" for f
    using simplifyLinComb_ok [OF assms(1) that(1) assms(2-4) that(2)] s(1) by auto
  let ?r = "if length its = 0 then NewConstantExpr E 0 else if length its = 1 \<and> ns ! 0 = 1 then its ! 0
      else Expression (lin_agg ESHash its ns) its (OpLinComb ns) (computeIsBaseFromChildren its)"
  have "NewLinComb E items cs = Inr ?r"
    using assms(2) s(1) newLinCombNoSimplify_ok [OF s(2), of E] by (auto simp: NewLinComb_def)
  moreover have ok: "expr_ok E ?r"
    using NewConstantExpr_ok(1) [OF assms(1), of 0] s(2,3) expr_ok_LinComb [OF s(2,3)] by (auto simp del: expr_ok.simps)
  moreover have r: "f ?r = lin_agg f its ns" if "valuation E f" for f
  proof -
    consider "length its = 0" | "length its = 1" "ns ! 0 = 1" | "length its \<noteq> 0" "\<not> (length its = 1 \<and> ns ! 0 = 1)" by blast
    then show ?thesis
    proof cases
      case 1
      then show ?thesis using NewConstantExpr_ok(2) [OF assms(1) that] s(2) by simp
    next
      case 2
      then show ?thesis using length_one [of its ns f] s(2) by simp
    next
      case 3
      have "f (Expression (lin_agg ESHash its ns) its (OpLinComb ns) (computeIsBaseFromChildren its)) = lin_agg f its ns"
        using valuationD(2) [OF that expr_ok_LinComb [OF s(2,3)], where cs = ns] by simp
      then show ?thesis using 3 by (simp only: if_False)
    qed
  qed
  ultimately show ?thesis using val s(4) r [OF valuation_hash] by metis
qed

subsection \<open>Products\<close>

fun prod_parts :: "('e, 'm) Expression \<Rightarrow> ('e, 'm) Expression set" where
  "prod_parts (Expression h ch (OpProduct es) b) = set ch"
| "prod_parts e = {e}"

fun prod_weight :: "('e, 'm) Expression \<Rightarrow> int" where
  "prod_weight (Expression h ch (OpProduct es) b) = weight es"
| "prod_weight e = 1"

definition prod_total :: "('e, 'm) Expression list \<Rightarrow> int list \<Rightarrow> int" where
  "prod_total items es = (\<Sum>(it, c)\<leftarrow>zip items es. \<bar>c\<bar> * prod_weight it)"

lemma prod_weight_nonneg: "0 \<le> prod_weight it"
  by (cases it rule: prod_weight.cases) (simp_all add: weight_nonneg)

lemma prod_total_simps [simp]:
  "prod_total [] cs = 0" "prod_total (it # items) (c # cs) = \<bar>c\<bar> * prod_weight it + prod_total items cs"
  by (simp_all add: prod_total_def)

lemma prod_total_nonneg: "0 \<le> prod_total items cs"
proof (induction items arbitrary: cs)
  case (Cons it items)
  then show ?case by (cases cs) (auto simp: prod_weight_nonneg prod_total_def)
qed simp

lemma prod_addTerm_ok:
  assumes "fext_ok (sx E)" "valuation E f" "faithful f T" "\<forall>a\<in>T. expr_ok E a"
    "powers.collected (sx E) f T w tot st" "item \<in> T" "0 \<le> c" "w + \<bar>c\<bar> < 2 ^ 63"
  shows "powers.collected (sx E) f T (w + \<bar>c\<bar>) (tot * f item ^ nat c) (prod_addTerm E st item c)"
proof (cases "c = 0")
  case True
  then show ?thesis using assms(5) by (simp add: prod_addTerm_def)
next
  case False
  have ok: "expr_ok E item" using assms(4,6) by blast
  have merge: ?thesis if "prod_addTerm E st item c = (fst st, merge_term (snd st) item c)"
    unfolding that by (rule powers.collected_merge [OF assms(5-8) assms(3) [unfolded faithful_def]])
  show ?thesis
  proof (cases "Operator item")
    case (OpConstant v)
    have v: "f item = gf_Ext v" by (rule valuationD(1) [OF assms(2) ok OpConstant])
    have g: "gf_ok (sx E) v" using ok OpConstant by (cases item) auto
    let ?t = "Gf_Exp (sx E) gf_var v c"
    have t: "gf_ok (sx E) ?t" "gf_Ext ?t = gf_Ext v ^ nat c"
      using Gf_Exp_ok [OF assms(1) g, of gf_var c] assms(7) by (simp_all add: fx_Exp_def)
    have "gf_ok (sx E) (fst st)" using assms(5) by (simp add: powers.collected_def)
    note acc = Gf_Mul_ok [OF assms(1) this t(1)]
    have "powers.collected (sx E) f T w (tot * f item ^ nat c) (Gf_Mul (sx E) (fst st) ?t, snd st)"
      by (rule powers.collected_constant [OF assms(5) acc(1)]) (simp add: acc(2) t(2) v)
    from collected_mono(2) [OF this, of "w + \<bar>c\<bar>"] show ?thesis using OpConstant False by (simp add: prod_addTerm_def)
  qed (use False merge in \<open>simp_all add: prod_addTerm_def\<close>)
qed

lemma prod_item_ok:
  assumes "fext_ok (sx E)" "valuation E f" "faithful f T" "\<forall>a\<in>T. expr_ok E a"
    "powers.collected (sx E) f T w tot st" "expr_ok E item" "prod_parts item \<subseteq> T" "0 < c" "w + \<bar>c\<bar> * prod_weight item < 2 ^ 63"
  shows "\<exists>st'. prod_item E st item c = Inr st' \<and> powers.collected (sx E) f T (w + \<bar>c\<bar> * prod_weight item) (tot * f item ^ nat c) st'"
proof -
  obtain h ch op b where item: "item = Expression h ch op b" by (cases item)
  show ?thesis
  proof (cases "\<exists>es. op = OpProduct es")
    case True
    then obtain es where es: "op = OpProduct es" by blast
    have len: "length ch = length es" and parts: "set ch \<subseteq> T" and w: "w + \<bar>c\<bar> * weight es < 2 ^ 63" and pos: "\<forall>n\<in>set es. 0 \<le> n"
      using assms(6,7,9) item es by auto
    have v: "f item = prod_agg f ch es" using valuationD(3) [OF assms(2,6), of es] item es by simp
    have "\<exists>st'. foldM (\<lambda>st (k, gc). rbind (index es (int k)) (\<lambda>ck. Inr (prod_addTerm E st gc (wrap64 (c * ck))))) st (enumerate 0 ch) = Inr st' \<and>
        powers.collected (sx E) f T (w + \<bar>c\<bar> * weight es) (tot * prod_agg f ch es ^ nat c) st'"
      by (rule powers.collected_nested [OF assms(5) len parts _ pos w prod_addTerm_ok [OF assms(1-4)]]) (use assms(8) in simp_all)
    then show ?thesis using item es v by (simp add: prod_item_def)
  next
    case nested: False
    then have "item \<in> T" "prod_weight item = 1" using assms(7) item by (cases op; simp)+
    then show ?thesis using prod_addTerm_ok [OF assms(1-5), of item c] assms(8,9) nested item
      by (cases op) (auto simp: prod_item_def)
  qed
qed

lemma prod_loop_ok:
  assumes "fext_ok (sx E)" "valuation E f" "faithful f T" "\<forall>a\<in>T. expr_ok E a" "length items = length cs"
    "powers.collected (sx E) f T w tot st" "\<forall>it\<in>set items. expr_ok E it \<and> prod_parts it \<subseteq> T" "\<forall>c\<in>set cs. 0 \<le> c"
    "w + prod_total items cs < 2 ^ 63" "\<And>it. it \<in> set items \<Longrightarrow> ESHash it = 0 \<Longrightarrow> f it = 0"
  shows "(\<exists>st'. prod_loop E st (zip items cs) = Inr (Some st') \<and>
      powers.collected (sx E) f T (w + prod_total items cs) (tot * prod_agg f items cs) st') \<or>
    (prod_loop E st (zip items cs) = Inr None \<and> prod_agg f items cs = 0)"
  using assms(5-10)
proof (induction items cs arbitrary: w tot st rule: list_induct2)
  case (Cons it items c cs)
  have w: "w + \<bar>c\<bar> * prod_weight it < 2 ^ 63" using Cons.prems(4) prod_total_nonneg [of items cs] by simp
  have it: "expr_ok E it" "prod_parts it \<subseteq> T" using Cons.prems(2) by simp_all
  consider "c = 0" | "0 < c" "ESHash it = 0" | "0 < c" "ESHash it \<noteq> 0" using Cons.prems(3) by fastforce
  then show ?case
  proof cases
    case 1
    then show ?thesis using Cons.IH [OF Cons.prems(1)] Cons.prems by simp
  next
    case 2
    then show ?thesis using Cons.prems(5) [of it] by (simp add: zero_power)
  next
    case 3
    from prod_item_ok [OF assms(1-4) Cons.prems(1) it 3(1) w] obtain s where
      s: "prod_item E st it c = Inr s" "powers.collected (sx E) f T (w + \<bar>c\<bar> * prod_weight it) (tot * f it ^ nat c) s" by blast
    show ?thesis using Cons.IH [OF s(2)] Cons.prems 3 s(1) by (auto simp: algebra_simps)
  qed
qed simp

text \<open>For a product, a factor whose hash is zero must also have the value zero.\<close>

definition faithful_zero :: "(('e::zero, 'm) Expression \<Rightarrow> 'e) \<Rightarrow> ('e, 'm) Expression set \<Rightarrow> bool" where
  "faithful_zero f T \<longleftrightarrow> (\<forall>a\<in>T. ESHash a = 0 \<longrightarrow> f a = 0)"

lemma faithful_zero_hash [simp]: "faithful_zero ESHash T"
  by (simp add: faithful_zero_def)

lemma simplifyProduct_ok:
  assumes "fext_ok (sx E)" "valuation E f" "length items = length cs" "\<forall>it\<in>set items. expr_ok E it" "prod_total items cs < 2 ^ 63"
    "\<forall>c\<in>set cs. 0 \<le> c" "faithful f (\<Union>(prod_parts ` set items))" "faithful_zero f (set items)"
  shows "\<exists>its ns. simplifyProduct E items cs = Inr (its, ns) \<and> length its = length ns \<and> (\<forall>it\<in>set its. expr_ok E it) \<and>
    (\<forall>n\<in>set ns. 0 \<le> n) \<and> prod_agg f its ns = prod_agg f items cs"
proof -
  let ?T = "\<Union>(prod_parts ` set items)"
  have T: "\<forall>a\<in>?T. expr_ok E a"
  proof safe
    fix it a assume "it \<in> set items" "a \<in> prod_parts it"
    then show "expr_ok E a" using assms(4) by (cases it rule: prod_parts.cases) auto
  qed
  have "powers.collected (sx E) f ?T 0 1 (GenericFieldOne, no_terms)"
    using Gf_simple_ok(3,4) [OF assms(1)] by (simp add: powers.collected_def no_terms_def terms_ok_def)
  from prod_loop_ok [OF assms(1,2,7) T assms(3) this _ assms(6)] assms(4,5,8)
  consider acc ts where "prod_loop E (GenericFieldOne, no_terms) (zip items cs) = Inr (Some (acc, ts))"
      "powers.collected (sx E) f ?T (prod_total items cs) (prod_agg f items cs) (acc, ts)"
    | "prod_loop E (GenericFieldOne, no_terms) (zip items cs) = Inr None" "prod_agg f items cs = 0"
    by (fastforce simp: faithful_zero_def)
  then show ?thesis
  proof cases
    case st: 1
    obtain its ns where fin: "finish_terms E (Gf_IsOne acc) acc ts = (its, ns)" by fastforce
    have c: "gf_ok (sx E) acc" "terms_ok ts" "set (t_items ts) \<subseteq> ?T" "gf_Ext acc * prod_agg f (t_items ts) (t_nums ts) = prod_agg f items cs"
      "\<forall>n\<in>set (t_nums ts). 0 \<le> n"
      using st(2) by (simp_all add: powers.collected_def)
    then have len: "length (t_items ts) = length (t_nums ts)" by (simp add: terms_ok_def)
    note parts = finish_terms_parts [OF fin len [symmetric]]
    have one: "Gf_IsOne acc \<longleftrightarrow> gf_Ext acc = 1" by (rule Gf_tests(2) [OF assms(1) c(1) c(1)])
    have "prod_agg f its ns = prod_agg f items cs"
    proof (cases "gf_Ext acc = 1")
      case True
      then have "prod_agg f its ns = prod_agg f (t_items ts) (t_nums ts)"
        using fin one powers.agg_nonzero [of f "t_items ts" "t_nums ts"] by (auto simp: finish_terms_def Let_def)
      then show ?thesis using c(4) True by simp
    next
      case False
      have "prod_agg f its ns = prod_agg f (t_items ts @ [NewConstantExpr E (gf_Ext acc)]) (t_nums ts @ [1])"
        using fin one False powers.agg_nonzero [of f "t_items ts @ [NewConstantExpr E (gf_Ext acc)]" "t_nums ts @ [1]"] len
        by (auto simp: finish_terms_def Let_def)
      also have "\<dots> = prod_agg f (t_items ts) (t_nums ts) * gf_Ext acc"
        using len NewConstantExpr_ok(2) [OF assms(1,2)] by (simp add: powers.agg_snoc)
      finally show ?thesis using c(4) by (simp add: mult.commute)
    qed
    moreover have "simplifyProduct E items cs = Inr (its, ns)" using st(1) fin assms(3) by (simp add: simplifyProduct_def)
    moreover have "\<forall>it\<in>set its. expr_ok E it" using parts(3) c(3) T NewConstantExpr_ok(1) [OF assms(1)] by blast
    moreover have "\<forall>n\<in>set ns. 0 \<le> n" using parts(2) c(5) by auto
    ultimately show ?thesis using parts(1) by blast
  next
    case 2
    then have "simplifyProduct E items cs = Inr ([NewConstantExpr E 0], [1])" using assms(3) by (simp add: simplifyProduct_def)
    then show ?thesis using 2(2) NewConstantExpr_ok [OF assms(1)] assms(2) by (intro exI [of _ "[NewConstantExpr E 0]"] exI [of _ "[1]"]) simp
  qed
qed

lemma newProductNoSimplify_ok:
  assumes "length items = length cs" "\<forall>c\<in>set cs. 0 \<le> c"
  shows "newProductNoSimplify E items cs = Inr (Expression (prod_agg ESHash items cs) items (OpProduct cs) (computeIsBaseFromChildren items))"
proof -
  let ?g = "\<lambda>esh (i, it). rbind (index cs (int i)) (\<lambda>c. Inr (esh * fx_Exp (sx E) (ESHash it) c))"
  have "foldM ?g 1 (enumerate 0 (take m items)) = Inr (prod_agg ESHash (take m items) (take m cs))" if "m \<le> length items" for m
    using that
  proof (induction m)
    case (Suc m)
    then have m: "m < length items" "m < length cs" using assms(1) by auto
    then have "0 \<le> cs ! m" using assms(2) by simp
    then show ?case
      using Suc m assms(1) by (simp add: take_Suc_conv_app_nth enumerate_append_eq foldM_append index_nat powers.agg_snoc fx_Exp_def)
  qed simp
  from this [of "length items"] show ?thesis using assms(1) by (simp add: newProductNoSimplify_def)
qed

lemma expr_ok_Product:
  "length items = length cs \<Longrightarrow> \<forall>it\<in>set items. expr_ok E it \<Longrightarrow> \<forall>c\<in>set cs. 0 \<le> c \<Longrightarrow>
   expr_ok E (Expression (prod_agg ESHash items cs) items (OpProduct cs) b)"
  by (simp add: agg_lists)

text \<open>A product built by \<open>NewProduct\<close> is well formed and has the value of the product of its operands.\<close>

lemma NewProduct_ok:
  assumes "fext_ok (sx E)" "length items = length cs" "\<forall>it\<in>set items. expr_ok E it" "prod_total items cs < 2 ^ 63" "\<forall>c\<in>set cs. 0 \<le> c"
  shows "\<exists>r. NewProduct E items cs = Inr r \<and> expr_ok E r \<and> ESHash r = prod_agg ESHash items cs \<and>
    (\<forall>f. valuation E f \<longrightarrow> faithful f (\<Union>(prod_parts ` set items)) \<longrightarrow> faithful_zero f (set items) \<longrightarrow> f r = prod_agg f items cs)"
proof -
  obtain its ns where s: "simplifyProduct E items cs = Inr (its, ns)" "length its = length ns" "\<forall>it\<in>set its. expr_ok E it"
    "\<forall>n\<in>set ns. 0 \<le> n" "prod_agg ESHash its ns = prod_agg ESHash items cs"
    using simplifyProduct_ok [OF assms(1) valuation_hash assms(2-5) faithful_hash faithful_zero_hash] by blast
  have val: "prod_agg f its ns = prod_agg f items cs"
    if "valuation E f" "faithful f (\<Union>(prod_parts ` set items))" "faithful_zero f (set items)" for f
    using simplifyProduct_ok [OF assms(1) that(1) assms(2-5) that(2,3)] s(1) by auto
  let ?r = "if length its = 0 then NewConstantExpr E 1 else if length its = 1 \<and> ns ! 0 = 1 then its ! 0
      else Expression (prod_agg ESHash its ns) its (OpProduct ns) (computeIsBaseFromChildren its)"
  have "NewProduct E items cs = Inr ?r"
    using assms(2) s(1) newProductNoSimplify_ok [OF s(2,4), of E] by (auto simp: NewProduct_def)
  moreover have ok: "expr_ok E ?r"
    using NewConstantExpr_ok(1) [OF assms(1), of 1] s(2,3) expr_ok_Product [OF s(2-4)] by (auto simp del: expr_ok.simps)
  moreover have r: "f ?r = prod_agg f its ns" if "valuation E f" for f
  proof -
    consider "length its = 0" | "length its = 1" "ns ! 0 = 1" | "length its \<noteq> 0" "\<not> (length its = 1 \<and> ns ! 0 = 1)" by blast
    then show ?thesis
    proof cases
      case 1
      then show ?thesis using NewConstantExpr_ok(2) [OF assms(1) that] s(2) by simp
    next
      case 2
      then show ?thesis using length_one [of its ns f] s(2) by simp
    next
      case 3
      have "f (Expression (prod_agg ESHash its ns) its (OpProduct ns) (computeIsBaseFromChildren its)) = prod_agg f its ns"
        using valuationD(3) [OF that expr_ok_Product [OF s(2-4)], where cs = ns] by simp
      then show ?thesis using 3 by (simp only: if_False)
    qed
  qed
  ultimately show ?thesis using val s(5) r [OF valuation_hash] by metis
qed

text \<open>A negative exponent is refused.\<close>

lemma NewProduct_refuses:
  assumes "length items = length cs" "cs \<noteq> []" "hd cs < 0"
  shows "\<exists>m. NewProduct E items cs = Inl (Panic m)"
  using assms by (cases items; cases cs) (auto simp: NewProduct_def simplifyProduct_def)

subsection \<open>Polynomial evaluations\<close>

lemma NewPolyEval_ok:
  assumes "expr_ok E x" "\<forall>c\<in>set coeffs. expr_ok E c" "coeffs \<noteq> []"
  shows "\<exists>r. NewPolyEval x coeffs = Inr r \<and> expr_ok E r \<and> eval E \<rho> r = Poly_Eval (map (eval E \<rho>) coeffs) (eval E \<rho> x)"
proof (cases "length coeffs = 1")
  case True
  then show ?thesis using assms by (cases coeffs) (auto simp: NewPolyEval_def)
next
  case False
  have "foldr (\<lambda>c esh. esh * ESHash x + ESHash c) coeffs 0 = Poly_Eval (map ESHash coeffs) (ESHash x)"
    by (induction coeffs) (simp_all add: algebra_simps)
  then show ?thesis using False assms by (auto simp: NewPolyEval_def Suc_le_eq)
qed

text \<open>\<open>Sub\<close> does not see that one of the subtracted operands is \<open>nil\<close>, and panics when it converts it.\<close>

lemma Sym_Sub_nil:
  assumes "AnyNil \<in> set bs" "a \<noteq> AnyNil" "intoExpr E a = Inr x"
  shows "\<exists>m. Sym_Sub E a bs = Inl (Panic m)"
proof -
  have "\<exists>m. mapM (intoExpr E) bs = Inl (Panic m)"
    using assms(1)
  proof (induction bs)
    case (Cons b bs)
    then show ?case by (cases b) auto
  qed simp
  then show ?thesis using assms(2,3) by (auto simp: Sym_Sub_def doesContainNil_def intoExprSlice_def)
qed

end
