(* ===== verification/Spec2Isabelle.thy ===== *)
theory Spec2Isabelle
  imports Concrete SmtBuild Dedicated SymbolicCorrect
begin

text \<open>
  \<^bold>\<open>The program.\<close> The repository is a zero-knowledge rollup: contracts, a coordinator, tracers, services in several
  languages, and in \<open>src/prover\<close> the prover, written in Go. This development is about the part of the prover that
  stores the state of the chain and about the libraries it and the arithmetization share.

  \<^item> The state lives in an \<^emph>\<open>accumulator\<close> (\<open>crypto/state-management/accumulator\<close>): a key-value map whose entries are
    leaves of a sparse Merkle tree, in a doubly linked list sorted by the hashes of the keys. The prover serves reads,
    insertions, deletions and updates and emits a trace for each; a verifier that holds only a root and a counter
    replays the traces.
  \<^item> The \<^emph>\<open>sparse Merkle tree\<close> (\<open>crypto/state-management/smt_koalabear\<close>) stores levels only up to their last non-empty
    node and is built in parallel by goroutines.
  \<^item> Leaves, nodes and keys are hashed by a \<^emph>\<open>Merkle-Damgard hasher\<close> (\<open>crypto/poseidon2_koalabear\<close>) over octuplets of field
    elements, and the stored values are \<^emph>\<open>accounts, addresses and words\<close> with binary formats (\<open>utils/types\<close>).
  \<^item> The columns of the arithmetization are \<^emph>\<open>smart vectors\<close> (\<open>maths/common/smartvectors\<close>): constant, plain, windowed on
    a circle or rotated, with operators that keep the compact representations.
  \<^item> \<open>utils\<close>, \<open>utils/collection\<close> and \<open>utils/parallel\<close> hold the helpers all of these call.

  \<^bold>\<open>How Go is modelled\<close> (theory \<open>Prelude\<close>). A call that may fail returns \<open>failure + 'a\<close>: \<open>Panic\<close> for a panic, \<open>Err\<close> for an error
  value, with \<open>rbind\<close> for sequencing; a panic that the code does not recover is therefore the result of the whole
  operation. Objects with mutable fields are records that each operation returns updated. An \<open>int\<close> is an unbounded integer,
  with \<open>wrap64\<close> written where a sum or a shift can leave 64 bits. Slices are lists; \<open>index\<close>, \<open>set_index\<close> and \<open>go_slice\<close>
  panic out of range. The order in which Go ranges over a map, the scheduling of goroutines and the result of an
  unstable sort are parameters: the theorems hold for each of them.

  \<^bold>\<open>Code outside the repository.\<close> Field elements are a type \<open>'f\<close> with ring operations and an order. What the code calls in
  gnark-crypto is a record: \<open>koalabear\<close> (theory \<open>Koala\<close>: the Poseidon2 compression, the canonical bytes of an element) with
  hypothesis \<open>koala_ok\<close>, and \<open>gnark\<close> (theory \<open>Vectors\<close>: vector kernels, exponentiation and
  inversion) with hypothesis \<open>gnark_ok\<close>. \<open>fext\<close> (theory \<open>Fext\<close>) is the same for the extension field. A hash function is
  never assumed injective, nor to avoid the zero digest, on which the tree panics: a soundness theorem concludes its claim or
  \<open>breaks kb Q\<close> (two inputs of \<open>Q\<close> collide, or one compresses to zero), and a completeness theorem its claim or a panic with
  \<open>zero_digest kb Q\<close>, where \<open>Q\<close> is the finite set of compression inputs that the trees and traces of the statement evaluate. Theory \<open>Concrete\<close> instantiates these records by computable functions, on which the hypotheses are proved and
  the witnesses evaluate.

  \<^bold>\<open>Theories, from the bottom up.\<close>

  \<^item> \<open>Utils\<close> models \<open>utils/utils.go\<close>: powers of two, divisions, greatest common divisors, padding. The bit tricks are shown
    to compute the least power of two above their argument, and the subtraction loop of \<open>GCD\<close>, a \<open>partial_function\<close>, to return
    for positive arguments and to run forever on a zero and a positive one.
  \<^item> \<open>Koala\<close>, \<open>Types\<close>: octuplets, their order and byte formats; words, addresses, accounts. Writers and readers are inverse
    where they are, and the one format that loses a field is identified.
  \<^item> \<open>Poseidon\<close>: the hasher with its buffer. \<open>HashVec\<close> binds its input up to collisions.
  \<^item> \<open>Collections\<close>: \<open>Mapping\<close> over a Go map, behind the locale \<open>kv_store\<close>, in which the scans of the accumulator are
    shown independent of the iteration order.
  \<^item> \<open>Merkle\<close>, \<open>Smt\<close>, \<open>Binding\<close>, \<open>SmtBuild\<close>: the specification of a Merkle tree as a function from leaves to nodes, the
    tree of the code with its truncated levels, its refinement of the specification under \<open>Update\<close>, \<open>Prove\<close> and
    \<open>Verify\<close>, binding of proofs, and \<open>NewTree\<close> under every interleaving of its goroutines.
  \<^item> \<open>Parallel\<close>: the split of \<open>Execute\<close>, the atomic counter at its width of 32 bits, and the worker pool as a transition
    system.
  \<^item> \<open>Linked\<close>, \<open>Accumulator\<close>, \<open>AccumulatorState\<close>, \<open>AccumulatorCorrect\<close>, \<open>AccumulatorSound\<close>, \<open>AccumulatorRun\<close>: sorted linked
    lists; the whole of the prover, the traces and the verifier; the invariant \<open>prover_ok\<close>; completeness (every request a map
    accepts is served, keeps the invariant, and its trace is accepted, or a zero node makes the prover panic); soundness (an accepted
    trace, from whomever, is true of the state or exhibits a collision or an input that compresses to zero); and sequences of requests against a plain map. The
    contracts between them are locales: \<open>writer_to\<close> for the \<open>WriteTo\<close> methods that feed the hasher,
    \<open>authenticated_vector\<close> for the tree, \<open>trace_kind\<close> for the five traces and their deferred checks.
  \<^item> \<open>Circular\<close>, \<open>SmartVec\<close>, \<open>Vectors\<close>, \<open>SmartVecOps\<close>, \<open>SmartVecOpsCorrect\<close>: circular intervals and their smallest cover;
    the four representations with \<open>value_at\<close>, the element denoted at a position; slices and coefficient polynomials;
    \<open>LinComb\<close> and \<open>Product\<close> with the splitting by representation and the merging, proved once in the locale
    \<open>operator_laws\<close> and interpreted for sums and for products.
  \<^item> \<open>SmartVecArith\<close>, \<open>SmartVecConv\<close>, \<open>Dedicated\<close>: the other arithmetic and the conversions of smart vectors with their compact ranges, and
    the prover actions of dedicated columns.
  \<^item> \<open>Fext\<close>, \<open>Symbolic\<close>, \<open>SymbolicCorrect\<close>: the embedding of base elements into the extension, symbolic expressions with their
    hashes and constructors, and that the constructors denote what they combine.

  \<^bold>\<open>Bounds.\<close> The trees of the accumulator have depth 40, as in the code; lengths of vectors stay below \<open>2\<^sup>6\<^sup>2\<close>, so that the
  sums of two lengths or offsets do not wrap, and this is a hypothesis (\<open>sv_ok\<close>, \<open>ival_ok\<close>) where it is used. No definition takes
  fuel: every loop is structural, has a termination proof, or is a \<open>partial_function\<close> into \<open>option\<close>.

  \<^bold>\<open>Not modelled.\<close> Text and JSON forms, logging, random generation, profiling and file handling. The vectors over the extension field, whose
  arithmetic is in gnark-crypto; the compiled boards of symbolic expressions; the FFT, Ring-SIS and Vortex code over its kernels; circuits
  over gnark's frontend and the wizard framework with its compilers and the zkEVM modules expressed in it, whose meaning is that of
  constraint systems outside the sources. The contracts, the coordinator, the tracer and the services in Solidity, Kotlin, Java,
  Rust and TypeScript, which are other programs around third-party clients.
\<close>

section \<open>The key-value accumulator\<close>

text \<open>
  C1. Refinement of a plain map. Whatever sequence of insertions, deletions, updates and reads the
  map from hashed keys to entries accepts, the prover serves it: it returns from every operation, keeps
  its invariant, ends with the contents of the map, and the traces it emits bring a verifier from the
  snapshot of the first state to the snapshot of the last one. The one exception is a panic of the tree on a zero node,
  and then one of the compression inputs of the trees on the way compresses to zero. The keys hash to neither
  sentinel, keys and values can be hashed, and the next free position plus the number of insertions is at most
  \<open>2 ^ 40\<close>, the capacity of the tree.
\<close>

theorem run_lockstep:
  assumes "env_ok E" "prover_ok E s" "list_all (request_ok E) qs"
    "map_serve_all E (contents s) qs = Some m" "ps_NextFreeNode s + inserts qs \<le> 2 ^ 40"
  shows "(\<exists>trs s'. serve_all E s qs = Inr (trs, s') \<and> prover_ok E s' \<and> contents s' = m \<and>
      verify_all (verify_trace E) (VerifierState_of s) trs = Inr (VerifierState_of s', None)) \<or>
    (\<exists>p. serve_all E s qs = Inl (Panic p)) \<and> zero_digest (koala E) (serve_all_queries E s qs)"
  using serve_all_correct [OF assms] unfolding zero_panic_def by blast

theorem run_lockstep_witness:
  "\<exists>trs s'. serve_all w32_env w32_start
      [RReadZero key_a, RInsert key_a key_a, RReadNonZero key_a, RUpdate key_a 0, RDelete key_a, RReadZero key_a] = Inr (trs, s') \<and>
    prover_ok w32_env s' \<and> contents s' = Map.empty \<and>
    verify_all (verify_trace w32_env) (VerifierState_of w32_start) trs = Inr (VerifierState_of s', None)"
  using run_lockstep [of w32_env w32_start
      "[RReadZero key_a, RInsert key_a key_a, RReadNonZero key_a, RUpdate key_a 0, RDelete key_a, RReadZero key_a]" Map.empty]
  by (simp add: w32_env_ok w32_start w32_requests [simplified] key_a_hk key_a_ok w32_hashable)

text \<open>
  C2. Soundness of a whole audit. If a verifier that starts from the snapshot of a prover state accepts a
  list of traces, whoever made them, then the prover serves the operations these traces claim and the
  verifier ends at the snapshot of the state it reaches, unless two of the compression inputs
  evaluated along the run collide or one of them compresses to zero. The traces are those the code's types allow, with keys and
  values that can be hashed and 64-bit links, and no opening of a read
  of a present key or of an update is a sentinel.
\<close>

theorem run_sound:
  assumes "env_ok E" "prover_ok E s" "list_all (trace_wf E) trs"
    "verify_all (verify_trace E) (VerifierState_of s) trs = Inr (v', None)"
  shows "(\<exists>trs' s'. serve_all E s (map request_of trs) = Inr (trs', s') \<and> prover_ok E s' \<and> v' = VerifierState_of s') \<or>
    breaks (koala E) (run_queries E s trs)"
  using verify_all_sound [OF assms] by blast

theorem run_sound_witness:
  "\<exists>trs v'. trs \<noteq> [] \<and> list_all (trace_wf w32_env) trs \<and>
    verify_all (verify_trace w32_env) (VerifierState_of w32_start) trs = Inr (v', None) \<and>
    ((\<exists>trs' s'. serve_all w32_env w32_start (map request_of trs) = Inr (trs', s') \<and> prover_ok w32_env s' \<and> v' = VerifierState_of s') \<or>
     breaks (koala w32_env) (run_queries w32_env w32_start trs))"
proof -
  obtain tr v' where "trace_wf w32_env (TInsertion tr)"
    "verify_trace w32_env (VerifierState_of w32_start) (TInsertion tr) = Inr (v', None)"
    using w32_insertion by blast
  then have "list_all (trace_wf w32_env) [TInsertion tr]"
    "verify_all (verify_trace w32_env) (VerifierState_of w32_start) [TInsertion tr] = Inr (v', None)"
    by simp_all
  from run_sound [OF w32_env_ok w32_start(2) this] this show ?thesis by blast
qed

text \<open>
  C3. Creating a state returns a state that has no entry and leaves the third leaf as the next free one, or panics on a
  zero node, and then an input of the initial trees compresses to zero. Without any exception, every state a process
  reaches from it by the exported operations, on values and keys that can be hashed, keys that hash to neither sentinel, and below the
  capacity of the tree, satisfies the invariant: the tree holds the hash of every stored tuple at
  its position, the tuples form a list sorted by hashed key between the two sentinels, and every entry is stored under
  the hashes of its own key and value.
\<close>

theorem reachable_states_ok:
  assumes "env_ok E"
  shows "((\<exists>s. InitializeProverState E loc = Inr s \<and> contents s = Map.empty \<and> ps_NextFreeNode s = 2 \<and> ps_Location s = loc) \<or>
      (\<exists>p. InitializeProverState E loc = Inl (Panic p)) \<and> zero_digest (koala E) (initial_queries (koala E))) \<and>
    (\<forall>s. reachable E loc s \<longrightarrow> prover_ok E s)"
  using InitializeProverState_correct [OF assms, of loc] reachable_invariant [OF assms, of loc]
  unfolding zero_panic_def by blast

theorem reachable_states_ok_witness: "reachable w32_env [] w32_start \<and> prover_ok w32_env w32_start"
  using reachable_states_ok [OF w32_env_ok, of "[]"] reachable.start [OF w32_start(1)] by simp

text \<open>
  C4. An insertion under an absent key returns, keeps the invariant, adds exactly the new entry, and
  its trace is accepted by a verifier in the corresponding state, which then reaches the state that
  corresponds to the new prover state. It panics instead only if an input of the trees before and during the
  insertion compresses to zero. The key hashes to neither sentinel, key and value can be hashed, and the next free position is
  below \<open>2 ^ 40\<close>.
\<close>

theorem insertion_complete:
  assumes "env_ok E" "prover_ok E s" "key_ok E k" "hashableV E v" "ps_NextFreeNode s < 2 ^ 40"
    "contents s (hk E k) = None"
  shows "(\<exists>tr s'. InsertAndProve E s k v = Inr (tr, s') \<and> prover_ok E s' \<and>
      contents s' = (contents s)(hk E k \<mapsto> (k, v)) \<and>
      VerifyInsertion E (VerifierState_of s) tr = Inr (VerifierState_of s', None)) \<or>
    (\<exists>p. InsertAndProve E s k v = Inl (Panic p)) \<and> zero_digest (koala E) (insert_queries E s k v)"
  using InsertAndProve_correct [OF assms] unfolding zero_panic_def by blast

theorem insertion_complete_witness:
  "\<exists>tr s'. InsertAndProve w32_env w32_start key_a key_a = Inr (tr, s') \<and> prover_ok w32_env s' \<and>
    contents s' = [key_a \<mapsto> (key_a, key_a)] \<and>
    VerifyInsertion w32_env (VerifierState_of w32_start) tr = Inr (VerifierState_of s', None)"
  using insertion_complete [of w32_env w32_start key_a key_a]
  by (simp add: w32_env_ok w32_start key_a_ok w32_hashable key_a_hk)

text \<open>
  C5. A deletion of a present key, which can be hashed and hashes to neither sentinel, returns, keeps the invariant, removes exactly that entry, and
  its trace is accepted by a verifier in the corresponding state, which reaches the state of the new prover state. It panics instead only if an
  input of the trees before and during the deletion compresses to zero.
\<close>

theorem deletion_complete:
  assumes "env_ok E" "prover_ok E s" "key_ok E k" "contents s (hk E k) = Some (k', v)"
  shows "(\<exists>tr s'. DeleteAndProve E s k = Inr (tr, s') \<and> prover_ok E s' \<and>
      contents s' = (contents s)(hk E k := None) \<and>
      VerifyDeletion E (VerifierState_of s) tr = Inr (VerifierState_of s', None)) \<or>
    (\<exists>p. DeleteAndProve E s k = Inl (Panic p)) \<and> zero_digest (koala E) (delete_queries E s k)"
  using DeleteAndProve_correct [OF assms] unfolding zero_panic_def by blast

theorem deletion_complete_witness:
  "\<exists>tr s'. DeleteAndProve w32_env w32_one key_a = Inr (tr, s') \<and> prover_ok w32_env s' \<and>
    contents s' = Map.empty \<and>
    VerifyDeletion w32_env (VerifierState_of w32_one) tr = Inr (VerifierState_of s', None)"
  using deletion_complete [of w32_env w32_one key_a key_a key_a]
  by (simp add: w32_env_ok w32_one key_a_ok key_a_hk)

text \<open>
  C6. An update of a present key, which can be hashed and hashes to neither sentinel, to a value that can be hashed returns, keeps the invariant,
  replaces exactly the value of that entry and keeps the key it was stored with, and its trace is accepted by a verifier in the
  corresponding state. It panics instead only if an input of the tree before the update compresses to zero.
\<close>

theorem update_complete:
  assumes "env_ok E" "prover_ok E s" "key_ok E k" "contents s (hk E k) = Some (k', v0)" "hashableV E v"
  shows "(\<exists>tr s'. UpdateAndProve E s k v = Inr (tr, s') \<and> prover_ok E s' \<and>
      contents s' = (contents s)(hk E k \<mapsto> (k', v)) \<and>
      UpdateVerify E (VerifierState_of s) tr = Inr (VerifierState_of s', None)) \<or>
    (\<exists>p. UpdateAndProve E s k v = Inl (Panic p)) \<and> zero_digest (koala E) (state_queries (koala E) (data s))"
  using UpdateAndProve_correct [OF assms] unfolding zero_panic_def by blast

theorem update_complete_witness:
  "\<exists>tr s'. UpdateAndProve w32_env w32_one key_a 0 = Inr (tr, s') \<and> prover_ok w32_env s' \<and>
    contents s' = [key_a \<mapsto> (key_a, 0)] \<and>
    UpdateVerify w32_env (VerifierState_of w32_one) tr = Inr (VerifierState_of s', None)"
  using update_complete [of w32_env w32_one key_a key_a key_a 0]
  by (simp add: w32_env_ok w32_one key_a_ok key_a_hk w32_hashable)

text \<open>
  C7. An insertion trace, with a key and a value that can be hashed and openings with 64-bit links, that the verifier accepts moves it to the snapshot of the state that inserting the
  claimed key and value produces, unless two compression inputs evaluated for it collide or one of them compresses to zero.
\<close>

theorem insertion_sound:
  assumes "env_ok E" "prover_ok E s" "hashableK E (it_Key tr)" "hashableV E (it_Val tr)"
    "leaf_int64 (it_OldOpenMinus tr)" "leaf_int64 (it_OldOpenPlus tr)"
    "VerifyInsertion E (VerifierState_of s) tr = Inr (v', None)"
  shows "(\<exists>tr' s'. InsertAndProve E s (it_Key tr) (it_Val tr) = Inr (tr', s') \<and> prover_ok E s' \<and> v' = VerifierState_of s') \<or>
    breaks (koala E) (insertion_queries E s tr)"
  by (rule VerifyInsertion_sound [OF assms])

theorem insertion_sound_witness:
  "\<exists>tr v'. VerifyInsertion w32_env (VerifierState_of w32_start) tr = Inr (v', None) \<and>
    ((\<exists>tr' s'. InsertAndProve w32_env w32_start (it_Key tr) (it_Val tr) = Inr (tr', s') \<and> prover_ok w32_env s' \<and> v' = VerifierState_of s') \<or>
     breaks (koala w32_env) (insertion_queries w32_env w32_start tr))"
proof -
  obtain tr v' where "trace_wf w32_env (TInsertion tr)"
    "verify_trace w32_env (VerifierState_of w32_start) (TInsertion tr) = Inr (v', None)"
    using w32_insertion by blast
  with insertion_sound [OF w32_env_ok w32_start(2), of tr v'] show ?thesis
    by (intro exI [of _ tr] exI [of _ v']) auto
qed

text \<open>
  C8. A deletion trace, with a key and a value that can be hashed and openings with 64-bit links, that the verifier accepts moves it to the snapshot of the state that deleting the
  claimed key produces, unless two compression inputs evaluated for it collide or one of them compresses to zero.
\<close>

theorem deletion_sound:
  assumes "env_ok E" "prover_ok E s" "hashableK E (dt_Key tr)" "hashableV E (dt_DeletedValue tr)"
    "leaf_int64 (dt_OldOpenMinus tr)" "leaf_int64 (dt_DeletedOpen tr)" "leaf_int64 (dt_OldOpenPlus tr)"
    "VerifyDeletion E (VerifierState_of s) tr = Inr (v', None)"
  shows "(\<exists>tr' s'. DeleteAndProve E s (dt_Key tr) = Inr (tr', s') \<and> prover_ok E s' \<and> v' = VerifierState_of s') \<or>
    breaks (koala E) (deletion_queries E s tr)"
  by (rule VerifyDeletion_sound [OF assms])

theorem deletion_sound_witness:
  "\<exists>tr v'. VerifyDeletion w32_env (VerifierState_of w32_one) tr = Inr (v', None) \<and>
    ((\<exists>tr' s'. DeleteAndProve w32_env w32_one (dt_Key tr) = Inr (tr', s') \<and> prover_ok w32_env s' \<and> v' = VerifierState_of s') \<or>
     breaks (koala w32_env) (deletion_queries w32_env w32_one tr))"
proof -
  obtain tr v' where "trace_wf w32_env (TDeletion tr)"
    "verify_trace w32_env (VerifierState_of w32_one) (TDeletion tr) = Inr (v', None)"
    using w32_deletion by blast
  with deletion_sound [OF w32_env_ok w32_one(1), of tr v'] show ?thesis
    by (intro exI [of _ tr] exI [of _ v']) auto
qed

text \<open>
  C9. An update trace, with a key and values that can be hashed, that the verifier accepts with an opening that has 64-bit links and is not a sentinel moves it to the snapshot
  of the state that updating the claimed key produces, unless two compression inputs evaluated for it collide or one of
  them compresses to zero.
\<close>

theorem update_sound:
  assumes "env_ok E" "prover_ok E s" "hashableK E (ut_Key tr)" "hashableV E (ut_OldValue tr)"
    "hashableV E (ut_NewValue tr)" "leaf_int64 (ut_OldOpening tr)" "\<not> HeadOrTail (ut_OldOpening tr)"
    "UpdateVerify E (VerifierState_of s) tr = Inr (v', None)"
  shows "(\<exists>tr' s'. UpdateAndProve E s (ut_Key tr) (ut_NewValue tr) = Inr (tr', s') \<and>
             prover_ok E s' \<and> v' = VerifierState_of s') \<or>
    breaks (koala E) (read_queries E s (ut_Proof tr) (ut_OldOpening tr))"
  by (rule UpdateVerify_sound [OF assms])

theorem update_sound_witness:
  "\<exists>tr v'. \<not> HeadOrTail (ut_OldOpening tr) \<and> UpdateVerify w32_env (VerifierState_of w32_one) tr = Inr (v', None) \<and>
    ((\<exists>tr' s'. UpdateAndProve w32_env w32_one (ut_Key tr) (ut_NewValue tr) = Inr (tr', s') \<and>
        prover_ok w32_env s' \<and> v' = VerifierState_of s') \<or>
     breaks (koala w32_env) (read_queries w32_env w32_one (ut_Proof tr) (ut_OldOpening tr)))"
proof -
  obtain tr v' where "trace_wf w32_env (TUpdate tr)"
    "verify_trace w32_env (VerifierState_of w32_one) (TUpdate tr) = Inr (v', None)"
    using w32_update by blast
  with update_sound [OF w32_env_ok w32_one(1), of tr v'] show ?thesis
    by (intro exI [of _ tr] exI [of _ v']) auto
qed

text \<open>
  C10. A read-zero trace, with a key that can be hashed and openings with 64-bit links, that the verifier accepts shows that the key is absent from the state, unless two
  compression inputs evaluated for it collide or one of them compresses to zero.
\<close>

theorem read_zero_sound:
  assumes "env_ok E" "prover_ok E s" "hashableK E (rz_Key tr)"
    "leaf_int64 (rz_OpeningMinus tr)" "leaf_int64 (rz_OpeningPlus tr)"
    "ReadZeroVerify E (VerifierState_of s) tr = Inr (v', None)"
  shows "contents s (hk E (rz_Key tr)) = None \<or> breaks (koala E) (read_zero_queries E s tr)"
  by (rule ReadZeroVerify_sound [OF assms])

theorem read_zero_sound_witness:
  "\<exists>tr v'. ReadZeroVerify w32_env (VerifierState_of w32_start) tr = Inr (v', None) \<and>
    (contents w32_start (hk w32_env (rz_Key tr)) = None \<or> breaks (koala w32_env) (read_zero_queries w32_env w32_start tr))"
proof -
  obtain tr v' where "trace_wf w32_env (TReadZero tr)"
    "verify_trace w32_env (VerifierState_of w32_start) (TReadZero tr) = Inr (v', None)"
    using w32_read_zero by blast
  with read_zero_sound [OF w32_env_ok w32_start(2), of tr v'] show ?thesis
    by (intro exI [of _ tr] exI [of _ v']) auto
qed

text \<open>
  C11. A read trace, with a key and a value that can be hashed, that the verifier accepts with an opening that has 64-bit links and is not a sentinel shows that the state
  holds an entry under that key, and that its value has the hash of the claimed one, unless two
  compression inputs evaluated for it collide or one of them compresses to zero.
\<close>

theorem read_nonzero_sound:
  assumes "env_ok E" "prover_ok E s" "hashableK E (rnz_Key tr)" "hashableV E (rnz_Value tr)"
    "leaf_int64 (rnz_LeafOpening tr)" "\<not> HeadOrTail (rnz_LeafOpening tr)"
    "ReadNonZeroVerify E (VerifierState_of s) tr = Inr (v', None)"
  shows "(\<exists>k v. contents s (hk E (rnz_Key tr)) = Some (k, v) \<and>
             hk E k = hk E (rnz_Key tr) \<and> hv E v = hv E (rnz_Value tr)) \<or>
    breaks (koala E) (read_queries E s (rnz_Proof tr) (rnz_LeafOpening tr))"
  by (rule ReadNonZeroVerify_sound [OF assms])

theorem read_nonzero_sound_witness:
  "\<exists>tr v'. ReadNonZeroVerify w32_env (VerifierState_of w32_one) tr = Inr (v', None) \<and> \<not> HeadOrTail (rnz_LeafOpening tr) \<and>
    ((\<exists>k v. contents w32_one (hk w32_env (rnz_Key tr)) = Some (k, v) \<and>
        hk w32_env k = hk w32_env (rnz_Key tr) \<and> hv w32_env v = hv w32_env (rnz_Value tr)) \<or>
     breaks (koala w32_env) (read_queries w32_env w32_one (rnz_Proof tr) (rnz_LeafOpening tr)))"
proof -
  obtain tr v' where "trace_wf w32_env (TReadNonZero tr)"
    "verify_trace w32_env (VerifierState_of w32_one) (TReadNonZero tr) = Inr (v', None)"
    using w32_read_nonzero by blast
  with read_nonzero_sound [OF w32_env_ok w32_one(1), of tr v'] show ?thesis
    by (intro exI [of _ tr] exI [of _ v']) auto
qed

text \<open>
  C12. A gap in the read verifier. For every state there is a read trace for any key and any value
  that the verifier accepts: it opens the head of the list, whose key and value are not compared with
  the claimed ones.
\<close>

theorem read_nonzero_forgeable:
  assumes "env_ok E" "prover_ok E s"
  shows "\<exists>tr. rnz_Key tr = k \<and> rnz_Value tr = v \<and>
    ReadNonZeroVerify E (VerifierState_of s) tr = Inr (VerifierState_of s, None)"
  by (rule ReadNonZeroVerify_forged [OF assms])

theorem read_nonzero_forgeable_witness:
  "contents w32_start key_a = None \<and>
   (\<exists>tr. rnz_Key tr = key_a \<and> rnz_Value tr = key_a \<and>
     ReadNonZeroVerify w32_env (VerifierState_of w32_start) tr = Inr (VerifierState_of w32_start, None))"
  using read_nonzero_forgeable [OF w32_env_ok w32_start(2)] by (simp add: w32_start)

text \<open>
  C13. Error behaviour. An operation the map refuses (inserting or reading as absent a present key,
  deleting, updating or reading an absent one), with a key that can be hashed and hashes to neither sentinel, panics.
\<close>

theorem refused_requests_panic:
  assumes "env_ok E" "prover_ok E s" "request_ok E q" "map_serve E (contents s) q = None"
  shows "\<exists>m. serve E s q = Inl (Panic m)"
  by (rule serve_refused [OF assms])

theorem refused_requests_panic_witness:
  "(\<exists>m. serve w32_env w32_start (RDelete key_a) = Inl (Panic m)) \<and>
   (\<exists>m. serve w32_env w32_one (RInsert key_a 0) = Inl (Panic m))"
  using refused_requests_panic [OF w32_env_ok w32_start(2) w32_requests(2)]
    refused_requests_panic [OF w32_env_ok w32_one(1) w32_requests(1)]
  by (simp add: w32_start w32_one key_a_hk)

text \<open>
  C14. The deferred Merkle checks are the ones of the verification: a verifier accepts a trace exactly if its comparisons
  that involve no Merkle proof succeed, \<open>DeferMerkleChecks\<close> appends claims to any list it is given, every one of them
  holds, and, for a trace that writes, the last of them ends at the root the trace announces.
\<close>

theorem deferred_checks_decide:
  assumes "koala_ok (koala E)"
  shows "(\<exists>v'. verify_trace E v tr = Inr (v', None)) \<longleftrightarrow>
    plain_checks E v tr \<and> (\<exists>cs. (\<forall>app. Trace_DeferMerkleChecks E tr app = Inr (app @ cs)) \<and>
      list_all (claim_holds (koala E)) cs \<and> ends_at (new_root tr) cs)"
  by (rule traces.accepted_iff [OF assms])

theorem deferred_checks_decide_witness:
  "\<exists>tr cs. plain_checks w32_env (VerifierState_of w32_start) (TInsertion tr) \<and>
    Trace_DeferMerkleChecks w32_env (TInsertion tr) [] = Inr cs \<and> list_all (claim_holds w32_koala) cs \<and>
    cs \<noteq> [] \<and> claim_Root (last cs) = it_NewSubRoot tr"
proof -
  obtain tr v' where "verify_trace w32_env (VerifierState_of w32_start) (TInsertion tr) = Inr (v', None)"
    using w32_insertion by blast
  with deferred_checks_decide [OF env_okD(1) [OF w32_env_ok], of "VerifierState_of w32_start" "TInsertion tr"]
  obtain cs where "plain_checks w32_env (VerifierState_of w32_start) (TInsertion tr)"
    "\<forall>app. Trace_DeferMerkleChecks w32_env (TInsertion tr) app = Inr (app @ cs)"
    "list_all (claim_holds w32_koala) cs" "ends_at (Some (it_NewSubRoot tr)) cs"
    unfolding new_root.simps w32_env_koala by blast
  then show ?thesis
    by (intro exI [of _ tr] exI [of _ cs]) (simp del: plain_checks.simps Trace_DeferMerkleChecks.simps)
qed

text \<open>
  C15. A trace that declares itself read-only (\<open>RWInt\<close> is zero) leaves the verifier that accepts it in the
  state it was in.
\<close>

theorem read_only_traces:
  assumes "koala_ok (koala E)" "verify_trace E v tr = Inr (v', None)" "Trace_RWInt tr = 0"
  shows "v' = v"
  by (rule read_trace_keeps_state [OF assms])

theorem read_only_traces_witness:
  "\<exists>tr. verify_trace w32_env (VerifierState_of w32_start) (TReadZero tr) = Inr (VerifierState_of w32_start, None) \<and>
    Trace_RWInt (TReadZero tr) = 0"
proof -
  obtain tr v' where "verify_trace w32_env (VerifierState_of w32_start) (TReadZero tr) = Inr (v', None)"
    using w32_read_zero by blast
  moreover from read_only_traces [OF env_okD(1) [OF w32_env_ok] this] have "v' = VerifierState_of w32_start"
    by (simp add: ReadZeroTrace_RWInt_def)
  ultimately show ?thesis by (intro exI [of _ tr]) (simp add: ReadZeroTrace_RWInt_def)
qed

text \<open>
  C16. The top root commits to the state: a verifier state with a 64-bit counter and the top root of a prover state has its
  next free position and its tree root, unless two compression inputs of the two digests collide.
\<close>

theorem top_root_commits:
  assumes "env_ok E" "prover_ok E s" "is_int64 (vs_NextFreeNode v)"
    "ProverState_TopRoot E s = VerifierState_TopRoot (koala E) v"
  shows "vs_NextFreeNode v = ps_NextFreeNode s \<and> vs_SubTreeRoot v = SubTreeRoot s \<or>
    collides (koala E) (md_queries (koala E) 0 (blocks8 (top_elems (koala E) (VerifierState_of s))) \<union>
      md_queries (koala E) 0 (blocks8 (top_elems (koala E) v)))"
proof -
  have kb: "koala_ok (koala E)" by (rule env_okD(1) [OF assms(1)])
  have "is_int64 (vs_NextFreeNode (VerifierState_of s))"
    using chain_okD(1,2) [OF prover_okD(2) [OF assms(2)]] by (simp add: VerifierState_of_def is_int64_def)
  moreover have "VerifierState_TopRoot (koala E) (VerifierState_of s) = VerifierState_TopRoot (koala E) v"
    using assms(4) by (simp add: ProverState_TopRoot_total [OF kb] VerifierState_TopRoot_total [OF kb])
  ultimately show ?thesis
    using TopRoot_binding [OF kb _ assms(3), of "VerifierState_of s"]
    by (simp add: VerifierState_of_def SubTreeRoot_def) metis
qed

theorem top_root_commits_witness:
  "ProverState_TopRoot w32_env w32_start = VerifierState_TopRoot w32_koala (VerifierState_of w32_start) \<and>
   (vs_NextFreeNode (VerifierState_of w32_start) = ps_NextFreeNode w32_start \<and>
    vs_SubTreeRoot (VerifierState_of w32_start) = SubTreeRoot w32_start \<or>
    collides w32_koala (md_queries w32_koala 0 (blocks8 (top_elems w32_koala (VerifierState_of w32_start))) \<union>
      md_queries w32_koala 0 (blocks8 (top_elems w32_koala (VerifierState_of w32_start)))))"
proof -
  have k: "koala w32_env = w32_koala" by (simp add: w32_env_def)
  have "ProverState_TopRoot w32_env w32_start = VerifierState_TopRoot w32_koala (VerifierState_of w32_start)"
    using ProverState_TopRoot_total [OF env_okD(1) [OF w32_env_ok], of w32_start]
      VerifierState_TopRoot_total [OF w32_koala_ok] by (simp add: k)
  moreover have "is_int64 (vs_NextFreeNode (VerifierState_of w32_start))"
    by (simp add: VerifierState_of_def w32_start is_int64_def)
  ultimately show ?thesis using top_root_commits [OF w32_env_ok w32_start(2), of "VerifierState_of w32_start"]
    by (simp add: k)
qed

text \<open>
  C17. Ranging over a Go map has no fixed order. For a key that can be hashed and hashes to neither sentinel, the scans of the accumulator
  return the same position of a key, and the same neighbours of an absent key, in every order.
\<close>

theorem scans_order_independent:
  assumes "env_ok E" "env_ok (E\<lparr>iter := it\<rparr>)" "prover_ok E s" "key_ok E k"
  shows "FindKey (E\<lparr>iter := it\<rparr>) s k = FindKey E s k \<and>
    (contents s (hk E k) = None \<longrightarrow> findSandwich (E\<lparr>iter := it\<rparr>) s k = findSandwich E s k)"
  using FindKey_order [OF assms] findSandwich_order [OF assms] by blast

theorem scans_order_independent_witness:
  "FindKey (w32_env\<lparr>iter := \<lambda>_ xs. xs\<rparr>) w32_one key_a = FindKey w32_env w32_one key_a \<and>
   findSandwich (w32_env\<lparr>iter := \<lambda>_ xs. xs\<rparr>) w32_start key_a = findSandwich w32_env w32_start key_a"
proof -
  have "env_ok (w32_env\<lparr>iter := \<lambda>_ xs. xs\<rparr>)" using w32_env_ok by (simp add: env_ok_def)
  from scans_order_independent [OF w32_env_ok this w32_one(1) key_a_ok]
    scans_order_independent [OF w32_env_ok this w32_start(2) key_a_ok] show ?thesis by (simp add: w32_start)
qed

section \<open>The sparse Merkle tree\<close>

text \<open>
  C18. Updating a leaf of the sparse tree at a position it has changes that leaf only and keeps every stored node the hash of
  its children, although the levels are stored only as far as they are occupied. It panics instead only if an inner node that is a
  sibling on the path of the leaf is zero.
\<close>

theorem smt_update:
  assumes "tree_ok kb t" "i < 2 ^ Depth t"
  shows "(\<exists>t'. Update kb t (int i) v = Inr t' \<and> tree_ok kb t' \<and> Depth t' = Depth t \<and> leaf_at t' = (leaf_at t)(i := v)) \<or>
    zero_sibling kb (leaf_at t) (Depth t) i \<and> (\<exists>p. Update kb t (int i) v = Inl (Panic p))"
  by (rule Update_correct [OF assms])

theorem smt_update_witness:
  "\<exists>t'. Update w32_koala (NewEmptyTree w32_koala [3]) 5 key_a = Inr t' \<and> tree_ok w32_koala t' \<and>
    leaf_at t' = (\<lambda>_. 0)(5 := key_a)"
  using smt_update [OF NewEmptyTree_ok(1), of 3 "[3]" 5 w32_koala key_a] no_zero_sibling [OF w32_no_zero, of 5 3 "\<lambda>_. 0"]
  by (auto simp: NewEmptyTree_ok [of 3 "[3]"])

text \<open>
  C19. Opening round trip: the proof the tree produces for a position it has verifies for the leaf stored there
  against the root of the tree. The tree panics instead only if an inner node that is a sibling on the path is zero.
\<close>

theorem prove_then_verify:
  assumes "tree_ok kb t" "i < 2 ^ Depth t"
  shows "(\<exists>p. MustProve t (int i) = Inr p \<and> Path p = int i \<and> Verify kb p (leaf_at t i) (Root t) = Inr ()) \<or>
    zero_sibling kb (leaf_at t) (Depth t) i \<and> (\<exists>m. MustProve t (int i) = Inl (Panic m))"
proof (cases "MustProve t (int i)")
  case (Inr p)
  from smt.proves_leaf [OF assms Inr] Inr show ?thesis by (simp add: Verify_Inr_iff)
next
  case (Inl e)
  with MustProve_cases [OF assms] show ?thesis by auto
qed

theorem prove_then_verify_witness:
  "\<exists>p. MustProve (NewEmptyTree w32_koala [3]) 5 = Inr p \<and> Path p = 5 \<and>
    Verify w32_koala p 0 (Root (NewEmptyTree w32_koala [3])) = Inr ()"
  using prove_then_verify [OF NewEmptyTree_ok(1), of 3 "[3]" 5 w32_koala] no_zero_sibling [OF w32_no_zero, of 5 3 "\<lambda>_. 0"]
  by (auto simp: NewEmptyTree_ok [of 3 "[3]"])

text \<open>
  C20. Opening binding: a proof that verifies for some leaf against the root of a tree is for the leaf the tree
  holds at its position, unless two of the compression inputs \<open>Q\<close>, which include those of the tree and of the proof, collide or
  one of them compresses to zero. Leaves are empty or digests of at least three blocks, which is what a leaf opening hashes to.
\<close>

theorem smt_binding:
  assumes "tree_ok kb t" "Verify kb p leaf (Root t) = Inr u"
    "tree_queries kb (leaf_at t) (Depth t) \<union> climb_queries kb (nat (Path p)) leaf (Siblings p) \<subseteq> Q"
    "leaf = 0 \<or> long_digest kb Q leaf" "\<And>k. leaf_at t k = 0 \<or> long_digest kb Q (leaf_at t k)"
  shows "(\<exists>i < 2 ^ Depth t. Path p = int i \<and> leaf = leaf_at t i) \<or> breaks kb Q"
proof (cases "breaks kb Q")
  case False
  have "RecoverRoot kb p leaf = Inr (mnode (hash2 kb) (leaf_at t) (Depth t) 0)"
    using assms(1,2) by (simp add: Verify_Inr_iff tree_ok_def)
  then obtain i where "Path p = int i" "i < 2 ^ Depth t" "leaf = leaf_at t i"
    using RecoverRoot_binding [where p = p and d = "Depth t" and f = "leaf_at t", OF False _ assms(4,5)] assms(3) by auto
  then show ?thesis by blast
qed simp

theorem smt_binding_witness:
  "\<exists>p Q. MustProve (NewEmptyTree w32_koala [3]) 5 = Inr p \<and>
    ((\<exists>i < 2 ^ 3. Path p = int i \<and> (0 :: 32 word octuplet) = leaf_at (NewEmptyTree w32_koala [3]) i) \<or> breaks w32_koala Q)"
proof -
  let ?t = "NewEmptyTree w32_koala [3]"
  note ok = NewEmptyTree_ok [of 3 "[3]" w32_koala, simplified]
  obtain p where p: "MustProve ?t (int 5) = Inr p"
    using MustProve_cases [OF ok(1), of 5] no_zero_sibling [OF w32_no_zero, of 5 3 "\<lambda>_. 0"] ok by auto
  then have "Verify w32_koala p 0 (Root ?t) = Inr ()"
    using smt.proves_leaf(2) [OF ok(1), of 5 p] ok by (simp add: Verify_Inr_iff)
  then have "(\<exists>i < 2 ^ 3. Path p = int i \<and> 0 = leaf_at ?t i) \<or>
      breaks w32_koala (tree_queries w32_koala (leaf_at ?t) (Depth ?t) \<union> climb_queries w32_koala (nat (Path p)) 0 (Siblings p))"
    using smt_binding [OF ok(1) _ order_refl, of p 0 "()"] ok(2,3) by simp
  then show ?thesis using p by auto
qed

text \<open>
  C21. Building a tree with goroutines gives, for every interleaving of their writes that runs each goroutine in
  its own order, the tree of the given leaves: the tasks never read a node another one has yet to write.
\<close>

theorem new_tree_any_schedule:
  assumes "length xs = 2 ^ d" "1 \<le> d" "d \<le> 62" "\<And>i. in_order (ord i)"
  shows "\<exists>t. NewTree kb procs ord xs = Inr t \<and> tree_ok kb t \<and> Depth t = d \<and> leaf_at t = leaf_fun xs"
  by (rule NewTree_ok [OF assms])

theorem new_tree_any_schedule_witness:
  "\<exists>t. NewTree w32_koala 4 (\<lambda>_. concat) (replicate 8 key_a) = Inr t \<and> tree_ok w32_koala t \<and> Depth t = 3 \<and>
    leaf_at t = leaf_fun (replicate 8 key_a)"
  using new_tree_any_schedule [of "replicate 8 key_a" 3 "\<lambda>_. concat"]
  by (simp add: in_order_def interleaves_concat)

text \<open>
  C22. Building a tree at once is equivalent to updating an empty tree leaf by leaf: both return, and the two
  trees have the same leaves and the same root, if no input of the trees the updates go through compresses to zero. The number of
  leaves is a power of two from \<open>2\<close> to \<open>2 ^ 62\<close>, and each goroutine runs in its own order.
\<close>

theorem new_tree_is_updates:
  assumes "\<not> zero_digest kb (updates_queries kb d (\<lambda>_. 0) 0 xs)" "length xs = 2 ^ d" "1 \<le> d" "d \<le> 62" "\<And>i. in_order (ord i)"
  shows "\<exists>t t'. NewTree kb procs ord xs = Inr t \<and> update_all kb (NewEmptyTree kb [int d]) 0 xs = Inr t' \<and>
    Root t = Root t' \<and> leaf_at t = leaf_at t'"
proof -
  note e = NewEmptyTree_ok [of d "[int d]" kb]
  have d: "d = (case [int d] of [] \<Rightarrow> 40 | x # _ \<Rightarrow> if 0 < x then nat x else 40)" using assms(3) by simp
  obtain t where t: "NewTree kb procs ord xs = Inr t" "tree_ok kb t" "Depth t = d" "leaf_at t = leaf_fun xs"
    using NewTree_ok [where ord = ord, OF assms(2-5)] by blast
  obtain t' where t': "update_all kb (NewEmptyTree kb [int d]) 0 xs = Inr t'" "tree_ok kb t'" "Depth t' = d"
    "leaf_at t' = (\<lambda>k. if k < length xs then xs ! (k - 0) else leaf_at (NewEmptyTree kb [int d]) k)"
    using update_all_ok [OF e(1) [OF d assms(4)], of 0 xs] e(2,3) [OF d assms(4)] assms(1,2) by auto
  have "leaf_at t = leaf_at t'" 
    by (auto simp: t(4) t'(4) leaf_fun_def e(3) [OF d assms(4)] fun_eq_iff)
  then show ?thesis using t(1) t'(1) tree_ok_root_unique [OF t(2) t'(2)] t(3) t'(3) by auto
qed

theorem new_tree_is_updates_witness:
  "\<exists>t t'. NewTree w32_koala 4 (\<lambda>_. concat) (replicate 8 key_a) = Inr t \<and>
    update_all w32_koala (NewEmptyTree w32_koala [3]) 0 (replicate 8 key_a) = Inr t' \<and>
    Root t = Root t' \<and> leaf_at t = leaf_at t'"
  using new_tree_is_updates [OF w32_no_zero, of "replicate 8 key_a" 3 "\<lambda>_. concat" 4]
  by (simp add: in_order_def interleaves_concat)

text \<open>
  C23. Error behaviour: building a tree panics when the number of leaves is not a power of two of at least two;
  a single leaf is a power of two and is refused as well.
\<close>

theorem new_tree_refuses:
  assumes "is_int64 (int (length xs))" "\<not> (\<exists>d \<ge> 1. length xs = 2 ^ d)"
  shows "\<exists>m. NewTree kb procs ord xs = Inl (Panic m)"
  by (rule NewTree_refuses [OF assms])

theorem new_tree_refuses_witness: "\<exists>m. NewTree w32_koala 4 (\<lambda>_. concat) [key_a] = Inl (Panic m)"
proof -
  have "\<not> (\<exists>d \<ge> 1. (1::nat) = 2 ^ d)" using power_gt1 [of "2::nat"] by (metis Suc_pred less_eq_Suc_le less_irrefl one_less_numeral_iff semiring_norm(76) One_nat_def)
  then show ?thesis using new_tree_refuses [of "[key_a]"] by (simp add: is_int64_def)
qed

section \<open>Running tasks in parallel\<close>

text \<open>
  C24. The ranges \<open>Execute\<close> hands to its goroutines, put together, are the iterations from zero to the requested
  number, each once, for every number of processors.
\<close>

theorem execute_covers:
  assumes "0 \<le> n"
  shows "concat (map iterations (Execute procs n maxCpus)) = [0..n - 1]"
  by (rule Execute_covers [OF assms])

theorem execute_covers_witness: "concat (map iterations (Execute 4 10 [])) = [0..9]"
  using execute_covers [of 10 4 "[]"] by simp

text \<open>
  C25. The worker pool ends and completes. Whatever the scheduling, a pool for \<open>n\<close> tasks with at least one worker makes at most
  \<open>2 n\<close> plus twice the number of workers steps, and when no step is left every task has been run exactly once, provided that \<open>n\<close>
  plus the number of workers is below \<open>2 ^ 32\<close>, so that the counter does not wrap.
\<close>

theorem pool_completes:
  assumes "0 \<le> n" "0 < num_cpu procs cpus" "n + num_cpu procs cpus < 2 ^ 32"
  shows "(\<forall>k t. (pool_step ^^ k) (ExecuteThreadAware procs n cpus) t \<longrightarrow> int k \<le> 2 * n + 2 * num_cpu procs cpus) \<and>
    (\<forall>t. pool_step\<^sup>*\<^sup>* (ExecuteThreadAware procs n cpus) t \<longrightarrow> \<not> (\<exists>u. pool_step t u) \<longrightarrow>
      mset (map snd (log t)) = mset [0..n - 1])"
proof -
  let ?s = "ExecuteThreadAware procs n cpus"
  have ok: "pool_ok n ?s"
    using pool_start_ok [of n "nat (num_cpu procs cpus)" Starting] assms by (simp add: ExecuteThreadAware_def)
  have m: "int (pool_measure n ?s) = 2 * n + 2 * num_cpu procs cpus"
    using assms by (simp add: pool_measure_def ExecuteThreadAware_def starting_def stopped_def)
  have "workers t \<noteq> []" if "pool_step\<^sup>*\<^sup>* ?s t" for t
    using that assms(2)
    by (induction rule: rtranclp_induct) (auto simp: ExecuteThreadAware_def elim!: pool_stepE)
  then show ?thesis
    using pool_stuck_complete [OF pool_reachable_ok [OF _ ok]] pool_run_bound [OF _ ok] m
    by (metis add_leE of_nat_mono)
qed

theorem pool_completes_witness:
  "\<exists>t. (pool_step ^^ 4) (ExecuteThreadAware 1 1 []) t \<and> int 4 \<le> 2 * 1 + 2 * num_cpu 1 [] \<and>
    \<not> (\<exists>u. pool_step t u) \<and> mset (map snd (log t)) = mset [0..0]"
proof -
  let ?c = "\<lambda>k. \<lparr>ac_n = 1, ac_current = k\<rparr>"
  let ?t = "\<lparr>counter = ?c 2, workers = [Stopped], log = [(0, 0)]\<rparr>"
  have "pool_step (ExecuteThreadAware 1 1 []) \<lparr>counter = ?c 0, workers = [Drawing], log = []\<rparr>"
    using pool_step.initialise [of 0 "ExecuteThreadAware 1 1 []"]
    by (simp add: ExecuteThreadAware_def num_cpu_def NewAtomicCounter_def)
  moreover have "pool_step \<lparr>counter = ?c 0, workers = [Drawing], log = []\<rparr> \<lparr>counter = ?c 1, workers = [Working 0], log = []\<rparr>"
    using pool_step.draw [of 0 "\<lparr>counter = ?c 0, workers = [Drawing], log = []\<rparr>" 0 "?c 1"] by (simp add: Counter_Next_def)
  moreover have "pool_step \<lparr>counter = ?c 1, workers = [Working 0], log = []\<rparr> \<lparr>counter = ?c 1, workers = [Drawing], log = [(0, 0)]\<rparr>"
    using pool_step.work [of 0 "\<lparr>counter = ?c 1, workers = [Working 0], log = []\<rparr>" 0] by simp
  moreover have "pool_step \<lparr>counter = ?c 1, workers = [Drawing], log = [(0, 0)]\<rparr> ?t"
    using pool_step.stop [of 0 "\<lparr>counter = ?c 1, workers = [Drawing], log = [(0, 0)]\<rparr>" 0 "?c 2"] by (simp add: Counter_Next_def)
  ultimately have run: "(pool_step ^^ 4) (ExecuteThreadAware 1 1 []) ?t"
    by (simp add: numeral_eq_Suc) blast
  have "\<not> (\<exists>u. pool_step ?t u)" by (auto elim!: pool_stepE)
  then show ?thesis
    using pool_completes [of 1 1 "[]"] run relpowp_imp_rtranclp [OF run] by (intro exI [of _ ?t]) (simp add: num_cpu_def)
qed

text \<open>
  C26. The counter of the pool is 32 bits wide. From a new counter for \<open>n\<close> tasks, the first \<open>2 ^ 32 - 1\<close> draws hand out
  the tasks from zero in order and then nothing; draw number \<open>2 ^ 32\<close> hands out a task again, with the index \<open>-1\<close>, and leaves the
  counter as it was created, so that every task is handed out once more.
\<close>

theorem counter_wraps:
  assumes "0 \<le> n"
  shows "(\<forall>k < 2 ^ 32 - 1. fst (draw_after n k) = (if n \<le> int k then (0, False) else (int k, True))) \<and>
    draw_after n (2 ^ 32 - 1) = ((-1, True), NewAtomicCounter n)"
  using draw_after_below draw_after_wraps [OF assms] by blast

theorem counter_wraps_witness:
  "fst (draw_after 5 4) = (4, True) \<and> fst (draw_after 5 5) = (0, False) \<and> draw_after 5 (2 ^ 32 - 1) = ((-1, True), NewAtomicCounter 5)"
  using counter_wraps [of 5] by simp

section \<open>Encodings, hashing and arithmetic\<close>

text \<open>
  C27. Round trip of accounts with a non-negative nonce and code size of 64 bits, and a balance that is missing or from zero to
  below \<open>2 ^ 256\<close>: what \<open>writeTo\<close> writes, packed or not, \<open>readFrom\<close> reads back, with a missing balance read as zero, and it
  consumes exactly the bytes written.
\<close>

theorem account_roundtrip:
  assumes "koala_ok kb" "account_ok a" "0 \<le> Nonce a" "0 \<le> CodeSize a"
  shows "\<exists>n bs. Account_writeTo kb buffer_io packed a [] = Inr (n, None, bs) \<and> n = length bs \<and>
    Account_readFrom kb packed a0 (bs @ r) = Inr (account_norm a, length bs, r)"
  by (rule Account_roundtrip [OF assms])

theorem account_roundtrip_witness:
  "\<exists>a n bs. CodeSize a = 10 \<and> Account_writeTo w32_koala buffer_io True a [] = Inr (n, None, bs) \<and> n = length bs \<and>
    Account_readFrom w32_koala True a (bs @ [7]) = Inr (account_norm a, length bs, [7])"
proof -
  let ?a = "undefined\<lparr>Nonce := 1, CodeSize := 10, Balance := Some 3\<rparr> :: 32 word Account"
  have "account_ok ?a" by (simp add: account_ok_def is_int64_def)
  with account_roundtrip [OF w32_koala_ok this, of True ?a "[7]"] show ?thesis by (intro exI [of _ ?a]) simp
qed

text \<open>
  C28. The Shomei encoding of an account does not round trip: the code size is written on 64 bytes and read
  from the first 32 of them, so that it is read as zero and 32 bytes are left over.
\<close>

theorem shomei_loses_code_size:
  assumes "koala_ok kb" "account_ok a" "0 \<le> Nonce a" "0 \<le> CodeSize a"
  shows "\<exists>n bs rest. writeToShomeiTraces kb buffer_io a [] = Inr (n, None, bs) \<and>
    readFromShomeiTraces kb a0 bs = Inr ((account_norm a)\<lparr>CodeSize := 0\<rparr>, 192, rest) \<and> length rest = 32"
  by (rule Shomei_roundtrip_loses_CodeSize [OF assms])

theorem shomei_loses_code_size_witness:
  "\<exists>a n bs rest b. CodeSize a = 10 \<and> writeToShomeiTraces w32_koala buffer_io a [] = Inr (n, None, bs) \<and>
    readFromShomeiTraces w32_koala a bs = Inr (b, 192, rest) \<and> CodeSize b = 0 \<and> length rest = 32"
proof -
  let ?a = "undefined\<lparr>Nonce := 1, CodeSize := 10, Balance := Some 3\<rparr> :: 32 word Account"
  have "account_ok ?a" by (simp add: account_ok_def is_int64_def)
  with shomei_loses_code_size [OF w32_koala_ok this, of ?a] show ?thesis by (intro exI [of _ ?a]) auto
qed

text \<open>
  C29. Hashing vectors is binding at equal lengths: two vectors of whole blocks with the same digest are equal,
  or two compression inputs of the two computations collide.
\<close>

theorem hash_vec_binding:
  assumes "length xs = length ys" "8 dvd length xs" "HashVec kb xs = HashVec kb ys"
  shows "xs = ys \<or> collides kb (md_queries kb 0 (blocks8 xs) \<union> md_queries kb 0 (blocks8 ys))"
  by (rule HashVec_binding [OF assms])

theorem hash_vec_binding_witness:
  "HashVec w32_koala (replicate 8 2 @ replicate 8 1) = HashVec w32_koala (replicate 8 3 @ replicate 8 1) \<and>
   replicate 8 (2 :: 32 word) @ replicate 8 1 \<noteq> replicate 8 3 @ replicate 8 1 \<and>
   collides w32_koala (md_queries w32_koala 0 (blocks8 (replicate 8 2 @ replicate 8 1)) \<union>
     md_queries w32_koala 0 (blocks8 (replicate 8 3 @ replicate 8 1)))"
proof -
  have h: "HashVec w32_koala (replicate 8 2 @ replicate 8 1) = HashVec w32_koala (replicate 8 3 @ replicate 8 1)" by code_simp
  moreover have ne: "replicate 8 (2 :: 32 word) @ replicate 8 1 \<noteq> replicate 8 3 @ replicate 8 1" by code_simp
  ultimately show ?thesis using hash_vec_binding [OF _ _ h] by simp
qed

text \<open>
  C30. \<open>NextPowerOfTwo\<close> returns the least power of two that is at least its argument, for every argument from \<open>1\<close> to
  \<open>2 ^ 62\<close>, by smearing the highest bit at 64 bits. It accepts zero too, for which it returns zero, and panics on every other
  argument.
\<close>

theorem next_power_of_two_least:
  assumes "1 \<le> n" "n \<le> 2 ^ 62" "i < 0 \<or> 2 ^ 62 < i"
  shows "(\<exists>k. NextPowerOfTwo n = Inr (2 ^ k) \<and> n \<le> 2 ^ k \<and> (\<forall>j. n \<le> 2 ^ j \<longrightarrow> k \<le> j)) \<and>
    NextPowerOfTwo 0 = Inr 0 \<and> (\<exists>m. NextPowerOfTwo i = Inl (Panic m))"
proof -
  have "NextPowerOfTwo 0 = Inr 0" by code_simp
  moreover have "\<exists>m. NextPowerOfTwo i = Inl (Panic m)" using assms(3) by (auto simp: NextPowerOfTwo_def)
  ultimately show ?thesis using NextPowerOfTwo_least [OF assms(1,2)] by blast
qed

theorem next_power_of_two_least_witness:
  "(\<exists>k. NextPowerOfTwo 5 = Inr (2 ^ k) \<and> (5::int) \<le> 2 ^ k \<and> (\<forall>j. (5::int) \<le> 2 ^ j \<longrightarrow> k \<le> j)) \<and>
    NextPowerOfTwo 0 = Inr 0 \<and> (\<exists>m. NextPowerOfTwo (-1) = Inl (Panic m))"
  using next_power_of_two_least [of 5 "-1"] by simp

text \<open>
  C31. The subtractive \<open>GCD\<close> ends and returns the greatest common divisor of two positive 64-bit integers; with
  a zero and a positive argument it runs forever.
\<close>

theorem gcd_terminates:
  assumes "0 < a" "0 < b" "is_int64 a" "is_int64 b"
  shows "GCD_int a b = Some (gcd a b) \<and> GCD_int 0 b = None"
  using GCD_int_terminates [OF assms] GCD_int_diverges [OF assms(2,4)] by simp

theorem gcd_terminates_witness: "GCD_int 12 18 = Some (gcd 12 18) \<and> GCD_int 0 18 = None"
  using gcd_terminates [of 12 18] by (simp add: is_int64_def)

section \<open>Intervals on a circle and smart vectors\<close>

text \<open>
  C32. \<open>SmallestCoverInterval\<close> returns an interval that covers all the given ones, and no interval of the
  circle that does so is shorter, for intervals on one circle of at most \<open>2 ^ 62\<close> points and every sorting routine that permutes
  its input into order of the starts.
\<close>

theorem smallest_cover_interval:
  assumes "is \<noteq> []" "list_all (on_circle n) is" "mset (srt is) = mset is" "sorted (map istart (srt is))"
  shows "\<exists>r. SmallestCoverInterval srt is = Inr r \<and> smallest_cover n is r"
  using assms by (rule SmallestCoverInterval_least)

theorem smallest_cover_interval_witness:
  "\<exists>r. SmallestCoverInterval (sort_key istart)
      [\<lparr>circleSize = 10, istart = 8, IntervalLen = 1\<rparr>, \<lparr>circleSize = 10, istart = 1, IntervalLen = 2\<rparr>] = Inr r \<and>
    smallest_cover 10 [\<lparr>circleSize = 10, istart = 8, IntervalLen = 1\<rparr>, \<lparr>circleSize = 10, istart = 1, IntervalLen = 2\<rparr>] r"
  by (rule smallest_cover_interval) (simp_all add: on_circle_def ival_ok_def IsFullCircle_def)

text \<open>
  C33. The containment test panics on intervals it should compare: on one circle of at most \<open>2 ^ 62\<close> points, when neither interval is the
  full circle, the first does not wrap around, the second starts at a point of the first and ends at the origin of the circle.
\<close>

theorem does_fully_contain_panics:
  assumes "ival_ok c" "ival_ok d" "circleSize c = circleSize d" "\<not> IsFullCircle c" "\<not> IsFullCircle d"
    "\<not> DoesWrapAround c" "istart d \<in> points c" "Stop d = 0"
  shows "\<exists>m. DoesFullyContain c d = Inl (Panic m)"
  by (rule DoesFullyContain_panics [OF assms])

theorem does_fully_contain_panics_witness:
  "\<exists>m. DoesFullyContain \<lparr>circleSize = 8, istart = 1, IntervalLen = 6\<rparr> \<lparr>circleSize = 8, istart = 1, IntervalLen = 7\<rparr> =
    Inl (Panic m)"
  by (rule does_fully_contain_panics)
    (simp_all add: ival_ok_def IsFullCircle_def DoesWrapAround_def points_def Stop_eq Start_def)

text \<open>
  C34. Taking a sub-vector of a smart vector of any of the four representations returns a well-formed smart
  vector that denotes that range of the elements.
\<close>

theorem sub_vector:
  assumes "sv_ok v" "0 \<le> start" "start < stop" "stop \<le> Len v"
  shows "\<exists>w. SubVector v start stop = Inr w \<and> sv_ok w \<and> elems w = take (nat (stop - start)) (drop (nat start) (elems v))"
  by (rule SubVector_elems [OF assms])

theorem sub_vector_witness:
  "\<exists>w. SubVector (SvWindow \<lparr>pcw_window = [1, 2, 3 :: int], pcw_padding = 0, pcw_totlen = 8, pcw_offset = 6\<rparr>) 0 7 = Inr w \<and>
    elems w = [3, 0, 0, 0, 0, 0, 1]"
proof -
  let ?v = "SvWindow \<lparr>pcw_window = [1, 2, 3 :: int], pcw_padding = 0, pcw_totlen = 8, pcw_offset = 6\<rparr>"
  have "take 7 (drop 0 (elems ?v)) = [3, 0, 0, 0, 0, 0, 1]" by (simp add: elems_def upt_rec)
  then show ?thesis using sub_vector [of ?v 0 7] by auto
qed

text \<open>
  C35. Rotating a regular smart vector to the right twice by the same amount gives the vector one started from:
  the second rotation, of a rotated vector, goes to the left.
\<close>

theorem rotate_right_twice:
  assumes "sv_ok (SvRegular r)" "0 \<le> k" "k \<le> llen r" "k \<le> 2 ^ 40"
  shows "\<exists>w w'. RotateRight (SvRegular r) k = Inr w \<and> RotateRight w k = Inr w' \<and> sv_ok w' \<and> elems w' = r"
  by (rule RotateRight_twice [OF assms])

theorem rotate_right_twice_witness:
  "\<exists>w w'. RotateRight (SvRegular [1, 2, 3 :: int]) 1 = Inr w \<and> RotateRight w 1 = Inr w' \<and> elems w' = [1, 2, 3]"
  using rotate_right_twice [of "[1, 2, 3 :: int]" 1] by auto

text \<open>
  C36. \<open>LinComb\<close> of smart vectors in any mix of the four representations returns a well-formed smart vector that
  denotes, at every position, the sum of the operands with their integer coefficients. It may replace vectors of the
  caller's slice, by vectors with the same elements.
\<close>

theorem lin_comb:
  assumes "gnark_ok g" "sorts srt" "length svecs = length coeffs" "svecs \<noteq> []" "\<forall>v\<in>set svecs. sv_ok v \<and> Len v = n"
    "\<forall>c\<in>set coeffs. is_int64 c"
  shows "\<exists>res svecs'. LinComb srt g coeffs svecs = Inr (Some res, svecs') \<and>
    denotes res n (\<lambda>i. \<Sum>(v, c)\<leftarrow>zip svecs coeffs. of_int c * value_at v i) \<and> list_all2 (same_vec n) svecs svecs'"
  by (rule LinComb_ok [OF assms])

theorem lin_comb_witness:
  "\<exists>res svecs'. LinComb istart_sort rat_gnark [2, 1, -1] rat_vecs = Inr (Some res, svecs') \<and> elems res = [8, 3, 2, 3]"
proof -
  let ?f = "\<lambda>i. \<Sum>(v, c)\<leftarrow>zip rat_vecs [2, 1, -1]. of_int c * value_at v i"
  obtain res svecs' where r: "LinComb istart_sort rat_gnark [2, 1, -1] rat_vecs = Inr (Some res, svecs')" "denotes res 4 ?f"
    using lin_comb [OF rat_gnark_ok istart_sort_ok _ rat_vecs_ok(2,1), of "[2, 1, -1]"]
    by (auto simp: rat_vecs_def is_int64_def)
  have "map (\<lambda>i. ?f (int i)) [0..<4] = [8, 3, 2, 3]"
    by (simp add: rat_vecs_def rat_window_def upt_rec)
  then show ?thesis using r denotes_elems [OF r(2)] by auto
qed

text \<open>
  C37. \<open>Product\<close> of smart vectors returns a well-formed smart vector that denotes, at every position, the product of
  the operands raised to their integer exponents, also when a constant operand makes it return early.
\<close>

theorem product:
  assumes "gnark_ok g" "sorts srt" "length svecs = length exponents" "svecs \<noteq> []" "\<forall>v\<in>set svecs. sv_ok v \<and> Len v = n"
    "\<forall>c\<in>set exponents. is_int64 c"
  shows "\<exists>res svecs'. Product srt g exponents svecs = Inr (Some res, svecs') \<and>
    denotes res n (\<lambda>i. \<Prod>(v, c)\<leftarrow>zip svecs exponents. pow_int g (value_at v i) c) \<and> list_all2 (same_vec n) svecs svecs'"
  by (rule Product_ok [OF assms])

theorem product_witness:
  "\<exists>res svecs'. Product istart_sort rat_gnark [1, 2, -1] rat_vecs = Inr (Some res, svecs') \<and> elems res = [50, 0, 0, 25 / 4]"
proof -
  let ?f = "\<lambda>i. \<Prod>(v, c)\<leftarrow>zip rat_vecs [1, 2, -1]. pow_int rat_gnark (value_at v i) c"
  obtain res svecs' where r: "Product istart_sort rat_gnark [1, 2, -1] rat_vecs = Inr (Some res, svecs')" "denotes res 4 ?f"
    using product [OF rat_gnark_ok istart_sort_ok _ rat_vecs_ok(2,1), of "[1, 2, -1]"]
    by (auto simp: rat_vecs_def is_int64_def)
  have "map (\<lambda>i. ?f (int i)) [0..<4] = [50, 0, 0, 25 / 4]"
    by (simp add: rat_vecs_def rat_window_def upt_rec pow_int_def rat_gnark_def)
  then show ?thesis using r denotes_elems [OF r(2)] by auto
qed

text \<open>
  C38. The range \<open>CoCompactRange\<close> computes for a smart vector of any representation and the elements on that range
  determine the vector: \<open>FromCompactWithRange\<close> rebuilds a vector with the same elements.
\<close>

theorem compact_range_roundtrip:
  assumes "sv_ok v"
  shows "\<exists>start stop compact r. CoCompactRange [Some v] = Inr (start, stop) \<and> mapM (Get v) [start..stop - 1] = Inr compact \<and>
    FromCompactWithRange compact start stop (Len v) = Inr r \<and> Len r = Len v \<and> elems r = elems v"
  using compact_range [OF assms] by (auto simp: denotes_elems elems_def denotes_def)

theorem compact_range_roundtrip_witness:
  "\<exists>start stop compact r. CoCompactRange [Some rat_window] = Inr (start, stop) \<and> mapM (Get rat_window) [start..stop - 1] = Inr compact \<and>
    FromCompactWithRange compact start stop 4 = Inr r \<and> elems r = [2, 0, 0, 1]"
proof -
  have "elems rat_window = [2, 0, 0, 1]" "Len rat_window = 4" "sv_ok rat_window"
    by (simp_all add: rat_window_def elems_def upt_rec)
  then show ?thesis using compact_range_roundtrip [of rat_window] by auto
qed

text \<open>
  C39. Among vectors that are constants, missing (nil) or windows that do not wrap around, at least one of them a window, the common range is the
  range of the last window, because \<open>foundAny\<close> is not set by the first one; it need not cover the windows before it.
\<close>

theorem co_window_range:
  assumes "\<forall>v\<in>set vs. \<forall>s. v = Some s \<longrightarrow> is_const s"
    "\<forall>v\<in>set us. \<forall>s. v = Some s \<longrightarrow> is_const s \<or> (\<exists>q. s = SvWindow q \<and> pcw_offset q + llen (pcw_window q) \<le> pcw_totlen q)"
    "pcw_offset p + llen (pcw_window p) \<le> pcw_totlen p"
  shows "CoWindowRange (us @ Some (SvWindow p) # vs) = (pcw_offset p, pcw_offset p + llen (pcw_window p))"
  by (rule CoWindowRange_last [OF assms])

theorem co_window_range_witness:
  "CoWindowRange [Some (SvWindow \<lparr>pcw_window = [1, 2, 3 :: rat], pcw_padding = 0, pcw_totlen = 8, pcw_offset = 1\<rparr>), None,
      Some (SvWindow \<lparr>pcw_window = [4], pcw_padding = 0, pcw_totlen = 8, pcw_offset = 2\<rparr>)] = (2, 3)"
  using co_window_range [of "[]" "[Some (SvWindow \<lparr>pcw_window = [1, 2, 3 :: rat], pcw_padding = 0, pcw_totlen = 8, pcw_offset = 1\<rparr>), None]"
    "\<lparr>pcw_window = [4], pcw_padding = 0, pcw_totlen = 8, pcw_offset = 2\<rparr>"] by simp

text \<open>
  C40. The prover action of a ternary column panics when its condition is a plain column: its loop reads the position
  after the last one.
\<close>

theorem ternary_plain_condition:
  assumes "sv_ok t" "sv_ok f" "c \<noteq> []" "Len t = llen c" "Len f = llen c"
  shows "\<exists>m. Ternary_Run (SvRegular c) t f (llen c) = Inl (Panic m)"
  by (rule Ternary_plain_panics [OF assms])

theorem ternary_plain_condition_witness:
  "\<exists>m. Ternary_Run (SvRegular [1, 0, 1, 0]) rat_window (SvRegular [1, 2, 3, 4]) 4 = Inl (Panic m)"
  using ternary_plain_condition [of rat_window "SvRegular [1, 2, 3, 4]" "[1, 0, 1, 0]"] by (simp add: rat_window_def)

end
